(* ===== verification/Reactor_Prelude.thy ===== *)
theory Reactor_Prelude
  imports Main "HOL-Library.Multiset"
begin

text \<open>
  What every component of the development shares: the ways a C++ statement can go wrong
  (\<open>c_error\<close>), results (\<open>res\<close>) and their sequencing (\<open>bindE\<close>), pointers into a store of
  heap objects, checked array accesses, and the list lemmas the components use.
\<close>

section \<open>Results\<close>

text \<open>
  A C++ operation either yields a value or runs into one of the following: a dereference of
  the null pointer, of a pointer that was never initialised or of an object that was deleted
  (or of the end iterator of a container); an array access outside the array; a failed \<open>assert\<close>;
  an overflow of a signed integer; an exception; a loop that does not end. \<open>Diverges\<close> is only
  ever the value of a loop that is defined by \<open>partial_function (option)\<close> and is \<open>None\<close> there.
\<close>

datatype c_error =
  Null_Deref | Uninit_Read | Dangling | Out_Of_Bounds | Assert_Failed | Signed_Overflow | Thrown |
  Diverges

type_synonym 'a res = "c_error + 'a"

definition bindE :: "'a res \<Rightarrow> ('a \<Rightarrow> 'b res) \<Rightarrow> 'b res" where
  "bindE r f = (case r of Inl e \<Rightarrow> Inl e | Inr x \<Rightarrow> f x)"

definition assertE :: "bool \<Rightarrow> unit res" where
  "assertE b = (if b then Inr () else Inl Assert_Failed)"

named_theorems res_simps "evaluation of results"

lemma bindE_Inl [simp, res_simps]: "bindE (Inl e) f = Inl e"
  by (simp add: bindE_def)

lemma bindE_Inr [simp, res_simps]: "bindE (Inr x) f = f x"
  by (simp add: bindE_def)

lemma bindE_cong [fundef_cong]:
  "r = r' \<Longrightarrow> (\<And>x. r' = Inr x \<Longrightarrow> f x = g x) \<Longrightarrow> bindE r f = bindE r' g"
  by (simp add: bindE_def split: sum.split)

lemma bindE_assoc: "bindE (bindE r f) g = bindE r (\<lambda>x. bindE (f x) g)"
  by (simp add: bindE_def split: sum.split)

lemma bindE_eq_Inr: "bindE r f = Inr y \<longleftrightarrow> (\<exists>x. r = Inr x \<and> f x = Inr y)"
  by (simp add: bindE_def split: sum.split)

lemma bindE_InrE [elim]:
  assumes "bindE r f = Inr y"
  obtains x where "r = Inr x" and "f x = Inr y"
  using assms by (auto simp: bindE_eq_Inr)

lemma assertE_simps [simp, res_simps]:
  "assertE True = Inr ()" "assertE False = Inl Assert_Failed"
  by (simp_all add: assertE_def)

lemma assertE_eq_Inr [simp]: "assertE b = Inr u \<longleftrightarrow> b"
  by (simp add: assertE_def)

lemma assertE_True: "b \<Longrightarrow> assertE b = Inr ()"
  by simp

text \<open>What holds of the value if there is one: the rules follow the statements of an operation.\<close>

definition on_Inr :: "('a \<Rightarrow> bool) \<Rightarrow> 'a res \<Rightarrow> bool" where
  "on_Inr P r = (case r of Inl e \<Rightarrow> True | Inr x \<Rightarrow> P x)"

lemma on_Inr_simps [simp]: "on_Inr P (Inl e)" "on_Inr P (Inr x) = P x"
  by (simp_all add: on_Inr_def)

lemma on_InrD: "on_Inr P r \<Longrightarrow> r = Inr x \<Longrightarrow> P x"
  by simp

lemma on_Inr_bindE: "(\<And>x. r = Inr x \<Longrightarrow> on_Inr P (f x)) \<Longrightarrow> on_Inr P (bindE r f)"
  by (cases r) simp_all

lemma on_Inr_if: "(b \<Longrightarrow> on_Inr P r) \<Longrightarrow> (\<not> b \<Longrightarrow> on_Inr P s) \<Longrightarrow> on_Inr P (if b then r else s)"
  by simp

lemma on_Inr_option:
  "(x = None \<Longrightarrow> on_Inr P r) \<Longrightarrow> (\<And>y. x = Some y \<Longrightarrow> on_Inr P (f y)) \<Longrightarrow>
   on_Inr P (case x of None \<Rightarrow> r | Some y \<Rightarrow> f y)"
  by (cases x) simp_all

lemmas on_Inr_intros = on_Inr_bindE on_Inr_if on_Inr_option

section \<open>Pointers and the store\<close>

text \<open>
  A pointer variable is indeterminate until it is assigned; a stored object is named by its
  address. \<open>delete\<close> and \<open>free\<close> take the object out of the store, so a later dereference of
  the address is the error \<open>Dangling\<close>.
\<close>

datatype ptr = Indet | Null | Ptr nat

type_synonym 'a store = "nat \<rightharpoonup> 'a"

definition deref :: "'a store \<Rightarrow> ptr \<Rightarrow> 'a res" where
  "deref m p = (case p of Indet \<Rightarrow> Inl Uninit_Read | Null \<Rightarrow> Inl Null_Deref
     | Ptr x \<Rightarrow> (case m x of None \<Rightarrow> Inl Dangling | Some v \<Rightarrow> Inr v))"

lemma deref_simps [simp, res_simps]:
  "deref m Indet = Inl Uninit_Read" "deref m Null = Inl Null_Deref"
  "deref m (Ptr x) = (case m x of None \<Rightarrow> Inl Dangling | Some v \<Rightarrow> Inr v)"
  by (simp_all add: deref_def)

lemma deref_eq_Inr: "deref m p = Inr v \<longleftrightarrow> (\<exists>x. p = Ptr x \<and> m x = Some v)"
  by (cases p) (auto split: option.splits)

definition free :: "'a store \<Rightarrow> ptr \<Rightarrow> 'a store res" where
  "free m p = (case p of Indet \<Rightarrow> Inl Uninit_Read | Null \<Rightarrow> Inr m
     | Ptr x \<Rightarrow> (case m x of None \<Rightarrow> Inl Dangling | Some v \<Rightarrow> Inr (m(x := None))))"

lemma free_simps [simp, res_simps]:
  "free m Indet = Inl Uninit_Read" "free m Null = Inr m"
  "free m (Ptr x) = (case m x of None \<Rightarrow> Inl Dangling | Some v \<Rightarrow> Inr (m(x := None)))"
  by (simp_all add: free_def)

text \<open>Assignments to the fields of the object a pointer points to.\<close>

definition modify :: "'a store \<Rightarrow> ptr \<Rightarrow> ('a \<Rightarrow> 'a) \<Rightarrow> 'a store res" where
  "modify m p f = (case p of Indet \<Rightarrow> Inl Uninit_Read | Null \<Rightarrow> Inl Null_Deref
     | Ptr x \<Rightarrow> (case m x of None \<Rightarrow> Inl Dangling | Some v \<Rightarrow> Inr (m(x \<mapsto> f v))))"

lemma modify_simps [simp, res_simps]:
  "modify m Indet f = Inl Uninit_Read" "modify m Null f = Inl Null_Deref"
  "modify m (Ptr x) f = (case m x of None \<Rightarrow> Inl Dangling | Some v \<Rightarrow> Inr (m(x \<mapsto> f v)))"
  by (simp_all add: modify_def)

section \<open>Arrays\<close>

definition rd :: "'a list \<Rightarrow> nat \<Rightarrow> 'a res" where
  "rd a i = (if i < length a then Inr (a ! i) else Inl Out_Of_Bounds)"

definition wr :: "'a list \<Rightarrow> nat \<Rightarrow> 'a \<Rightarrow> 'a list res" where
  "wr a i x = (if i < length a then Inr (a[i := x]) else Inl Out_Of_Bounds)"

lemma rd_in [simp, res_simps]: "i < length a \<Longrightarrow> rd a i = Inr (a ! i)"
  by (simp add: rd_def)

lemma wr_in [simp, res_simps]: "i < length a \<Longrightarrow> wr a i x = Inr (a[i := x])"
  by (simp add: wr_def)

lemma rd_eq_Inr: "rd a i = Inr x \<longleftrightarrow> i < length a \<and> x = a ! i"
  by (auto simp: rd_def)

lemma wr_eq_Inr: "wr a i x = Inr b \<longleftrightarrow> i < length a \<and> b = a[i := x]"
  by (auto simp: wr_def)

definition swap_at :: "'a list \<Rightarrow> nat \<Rightarrow> nat \<Rightarrow> 'a list" where
  "swap_at a i j = a[i := a ! j, j := a ! i]"

lemma length_swap_at [simp]: "length (swap_at a i j) = length a"
  by (simp add: swap_at_def)

lemma nth_swap_at:
  "i < length a \<Longrightarrow> j < length a \<Longrightarrow> k < length a \<Longrightarrow>
   swap_at a i j ! k = (if k = i then a ! j else if k = j then a ! i else a ! k)"
  by (auto simp: swap_at_def nth_list_update)

lemma mset_take_swap_at:
  assumes "i < n" "j < n" "n \<le> length a"
  shows "mset (take n (swap_at a i j)) = mset (take n a)"
proof -
  have "take n (swap_at a i j) = (take n a)[i := take n a ! j, j := take n a ! i]"
    using assms by (simp add: swap_at_def take_update_swap)
  then show ?thesis
    using assms mset_swap [of j "take n a" i] by (simp del: take_update_swap nth_take)
qed

lemma drop_swap_at: "i < n \<Longrightarrow> j < n \<Longrightarrow> drop n (swap_at a i j) = drop n a"
  by (simp add: swap_at_def)

lemma filter_mset_all: "\<forall>x \<in># M. P x \<Longrightarrow> filter_mset P M = M"
  by (induction M) auto

lemma filter_mset_none: "\<forall>x \<in># M. \<not> P x \<Longrightarrow> filter_mset P M = {#}"
  by (induction M) auto

section \<open>Signed integers\<close>

text \<open>The largest value of the 32-bit \<open>int\<close> of the platforms the program runs on.\<close>

definition INT_MAX :: int where
  "INT_MAX = 2147483647"

definition INT_MIN :: int where
  "INT_MIN = - 2147483648"

end
