(* ===== verification/Interfaces.thy ===== *)
theory Interfaces
  imports Reactor_Prelude
begin

text \<open>
  The interfaces between components, as locales: the operations a client calls and the laws the
  provider promises, with the client's lemmas proved once from the laws. The component that
  provides the operations interprets the locale on its own definitions.
\<close>

section \<open>Queues ordered by priority\<close>

text \<open>Adding a list of elements, and taking the least element \<open>k\<close> times.\<close>

fun add_all :: "('e \<Rightarrow> 'q \<Rightarrow> 'q res) \<Rightarrow> 'e list \<Rightarrow> 'q \<Rightarrow> 'q res" where
  "add_all ins [] q = Inr q"
| "add_all ins (e # es) q = bindE (ins e q) (add_all ins es)"

fun drain :: "('q \<Rightarrow> 'e res) \<Rightarrow> ('q \<Rightarrow> 'q res) \<Rightarrow> nat \<Rightarrow> 'q \<Rightarrow> ('e list \<times> 'q) res" where
  "drain pk dl 0 q = Inr ([], q)"
| "drain pk dl (Suc k) q =
     bindE (pk q) (\<lambda>e. bindE (dl q) (\<lambda>q. bindE (drain pk dl k q) (\<lambda>(es, q). Inr (e # es, q))))"

locale min_queue =
  fixes invar :: "'q \<Rightarrow> bool"
    and elems :: "'q \<Rightarrow> 'e multiset"
    and prio :: "'q \<Rightarrow> 'e \<Rightarrow> int"
    and peek :: "'q \<Rightarrow> 'e res"
    and del_min :: "'q \<Rightarrow> 'q res"
  assumes peek_ok: "invar q \<Longrightarrow> elems q \<noteq> {#} \<Longrightarrow>
      \<exists>e. peek q = Inr e \<and> e \<in># elems q \<and> (\<forall>f \<in># elems q. prio q e \<le> prio q f)"
    and del_min_ok: "invar q \<Longrightarrow> elems q \<noteq> {#} \<Longrightarrow> peek q = Inr e \<Longrightarrow>
      \<exists>q'. del_min q = Inr q' \<and> invar q' \<and> elems q = add_mset e (elems q') \<and>
        (\<forall>f \<in># elems q'. prio q' f = prio q f)"
begin

lemma drain_ok:
  "invar q \<Longrightarrow> k \<le> size (elems q) \<Longrightarrow>
   \<exists>es q'. drain peek del_min k q = Inr (es, q') \<and> length es = k \<and> invar q' \<and>
     elems q = mset es + elems q' \<and> sorted (map (prio q) es) \<and>
     (\<forall>e \<in> set es. \<forall>f \<in># elems q'. prio q e \<le> prio q f)"
proof (induction k arbitrary: q)
  case 0
  then show ?case by simp
next
  case (Suc k)
  then have ne: "elems q \<noteq> {#}" by auto
  obtain e where e: "peek q = Inr e" "e \<in># elems q" "\<forall>f \<in># elems q. prio q e \<le> prio q f"
    using peek_ok [OF Suc.prems(1) ne] by blast
  obtain q1 where q1: "del_min q = Inr q1" "invar q1" "elems q = add_mset e (elems q1)"
      "\<forall>f \<in># elems q1. prio q1 f = prio q f"
    using del_min_ok [OF Suc.prems(1) ne e(1)] by blast
  obtain es q2 where IH: "drain peek del_min k q1 = Inr (es, q2)" "length es = k" "invar q2"
      "elems q1 = mset es + elems q2" "sorted (map (prio q1) es)"
      "\<forall>e \<in> set es. \<forall>f \<in># elems q2. prio q1 e \<le> prio q1 f"
    using Suc.IH [OF q1(2)] Suc.prems(2) q1(3) by auto
  have same: "prio q1 f = prio q f" if "f \<in> set es \<or> f \<in># elems q2" for f
    using q1(4) IH(4) that by auto
  have "drain peek del_min (Suc k) q = Inr (e # es, q2)"
    using e(1) q1(1) IH(1) by simp
  moreover have "elems q = mset (e # es) + elems q2"
    using q1(3) IH(4) by simp
  moreover have eq: "map (prio q1) es = map (prio q) es"
    using same by simp
  have "sorted (map (prio q) es)"
    using IH(5) by (simp only: eq)
  then have "sorted (map (prio q) (e # es))"
    using e(3) q1(3) IH(4) by simp
  moreover have "\<forall>e \<in> set (e # es). \<forall>f \<in># elems q2. prio q e \<le> prio q f"
    using IH(6) same e(3) q1(3) IH(4) by simp
  moreover have "length (e # es) = Suc k" using IH(2) by simp
  ultimately show ?case using IH(3) by blast
qed

lemma drain_all:
  assumes "invar q"
  shows "\<exists>es q'. drain peek del_min (size (elems q)) q = Inr (es, q') \<and> mset es = elems q \<and>
    sorted (map (prio q) es) \<and> invar q' \<and> elems q' = {#}"
proof -
  obtain es q' where d: "drain peek del_min (size (elems q)) q = Inr (es, q')"
      "length es = size (elems q)" "invar q'" "elems q = mset es + elems q'"
      "sorted (map (prio q) es)"
    using drain_ok [OF assms le_refl] by blast
  have "size (elems q) = size (mset es) + size (elems q')" unfolding d(4) by simp
  then have nil: "elems q' = {#}" using d(2) by simp
  then have "mset es = elems q" using d(4) by (simp only: add_0_right)
  then show ?thesis using d(1,3,5) nil by blast
qed

end

text \<open>
  A queue one can also add to. \<open>room q es\<close>: the elements \<open>es\<close> may be added to \<open>q\<close>, in this order.
\<close>

locale sorting_queue = min_queue invar elems prio peek del_min
  for invar :: "'q \<Rightarrow> bool" and elems :: "'q \<Rightarrow> 'e multiset" and prio :: "'q \<Rightarrow> 'e \<Rightarrow> int"
    and peek :: "'q \<Rightarrow> 'e res" and del_min :: "'q \<Rightarrow> 'q res" +
  fixes ins :: "'e \<Rightarrow> 'q \<Rightarrow> 'q res"
    and room :: "'q \<Rightarrow> 'e list \<Rightarrow> bool"
  assumes ins_ok: "invar q \<Longrightarrow> room q (e # es) \<Longrightarrow>
      \<exists>q'. ins e q = Inr q' \<and> invar q' \<and> elems q' = add_mset e (elems q) \<and>
        prio q' = prio q \<and> room q' es"
begin

lemma add_all_ok:
  "invar q \<Longrightarrow> room q es \<Longrightarrow>
   \<exists>q'. add_all ins es q = Inr q' \<and> invar q' \<and> elems q' = mset es + elems q \<and> prio q' = prio q"
proof (induction es arbitrary: q)
  case Nil
  then show ?case by simp
next
  case (Cons e es)
  obtain q1 where "ins e q = Inr q1" "invar q1" "elems q1 = add_mset e (elems q)"
      "prio q1 = prio q" "room q1 es"
    using ins_ok [OF Cons.prems] by blast
  then show ?case using Cons.IH [of q1] by auto
qed

lemma sort_ok:
  assumes "invar q" "room q es" "elems q = {#}"
  shows "\<exists>q1 fs q2. add_all ins es q = Inr q1 \<and> drain peek del_min (length es) q1 = Inr (fs, q2) \<and>
    mset fs = mset es \<and> sorted (map (prio q) fs) \<and> elems q2 = {#}"
proof -
  obtain q1 where q1: "add_all ins es q = Inr q1" "invar q1" "elems q1 = mset es" "prio q1 = prio q"
    using add_all_ok [OF assms(1,2)] assms(3) by auto
  then show ?thesis using drain_all [OF q1(2)] by auto
qed

end

section \<open>First-in first-out queues\<close>

text \<open>
  A run of queue operations on the provider's queue and on the list it stands for, oldest element
  first. \<open>Deq\<close> yields the element it removes; on the list it is only possible when there is one.
\<close>

datatype 'e qop = Enq 'e | Deq

fun run_ops ::
  "('e \<Rightarrow> 'q \<Rightarrow> 'q res) \<Rightarrow> ('q \<Rightarrow> 'e res) \<Rightarrow> ('q \<Rightarrow> 'q res) \<Rightarrow> 'e qop list \<Rightarrow> 'q \<Rightarrow> ('e list \<times> 'q) res"
where
  "run_ops enq front deq [] q = Inr ([], q)"
| "run_ops enq front deq (Enq e # ops) q = bindE (enq e q) (run_ops enq front deq ops)"
| "run_ops enq front deq (Deq # ops) q =
     bindE (front q) (\<lambda>e. bindE (deq q) (\<lambda>q.
       bindE (run_ops enq front deq ops q) (\<lambda>(es, q). Inr (e # es, q))))"

fun list_ops :: "'e qop list \<Rightarrow> 'e list \<Rightarrow> ('e list \<times> 'e list) option" where
  "list_ops [] l = Some ([], l)"
| "list_ops (Enq e # ops) l = list_ops ops (l @ [e])"
| "list_ops (Deq # ops) [] = None"
| "list_ops (Deq # ops) (e # l) = map_option (\<lambda>(es, l). (e # es, l)) (list_ops ops l)"

fun enqueued :: "'e qop list \<Rightarrow> 'e list" where
  "enqueued [] = []"
| "enqueued (Enq e # ops) = e # enqueued ops"
| "enqueued (Deq # ops) = enqueued ops"

locale fifo_queue =
  fixes invar :: "'q \<Rightarrow> bool"
    and contents :: "'q \<Rightarrow> 'e list"
    and addable :: "'q \<Rightarrow> 'e list \<Rightarrow> bool"
    and enq :: "'e \<Rightarrow> 'q \<Rightarrow> 'q res"
    and front :: "'q \<Rightarrow> 'e res"
    and deq :: "'q \<Rightarrow> 'q res"
  assumes enq_ok: "invar q \<Longrightarrow> addable q (e # es) \<Longrightarrow>
      \<exists>q'. enq e q = Inr q' \<and> invar q' \<and> contents q' = contents q @ [e] \<and> addable q' es"
    and front_ok: "invar q \<Longrightarrow> contents q = e # l \<Longrightarrow> front q = Inr e"
    and deq_ok: "invar q \<Longrightarrow> contents q = e # l \<Longrightarrow>
      \<exists>q'. deq q = Inr q' \<and> invar q' \<and> contents q' = l \<and> (\<forall>es. addable q es \<longrightarrow> addable q' es)"
begin

lemma run_ok:
  "invar q \<Longrightarrow> addable q (enqueued ops) \<Longrightarrow> list_ops ops (contents q) = Some (out, l) \<Longrightarrow>
   \<exists>q'. run_ops enq front deq ops q = Inr (out, q') \<and> invar q' \<and> contents q' = l"
proof (induction ops arbitrary: q out)
  case Nil
  then show ?case by simp
next
  case (Cons op ops)
  show ?case
  proof (cases op)
    case (Enq e)
    then obtain q1 where "enq e q = Inr q1" "invar q1" "contents q1 = contents q @ [e]"
        "addable q1 (enqueued ops)"
      using enq_ok [OF Cons.prems(1), of e "enqueued ops"] Cons.prems(2) by auto
    then show ?thesis using Cons.IH [of q1 out] Cons.prems(3) Enq by simp
  next
    case Deq
    then obtain e k where k: "contents q = e # k" using Cons.prems(3) by (cases "contents q") auto
    obtain q1 where q1: "deq q = Inr q1" "invar q1" "contents q1 = k"
        "\<forall>es. addable q es \<longrightarrow> addable q1 es"
      using deq_ok [OF Cons.prems(1) k] by blast
    obtain out' where out: "list_ops ops k = Some (out', l)" "out = e # out'"
      using Cons.prems(3) Deq k by auto
    obtain q2 where "run_ops enq front deq ops q1 = Inr (out', q2)" "invar q2" "contents q2 = l"
      using Cons.IH [OF q1(2), of out'] q1(3,4) out(1) Cons.prems(2) Deq by auto
    then show ?thesis
      using front_ok [OF Cons.prems(1) k] q1(1) out(2) Deq by simp
  qed
qed

end

end
