(* ===== verification/TimerHeap.thy ===== *)
theory TimerHeap
  imports Interfaces
begin

text \<open>
  The timer heap of src/Timer.h and src/Timer.cc: an array of pointers to \<open>Timer\<close> objects, kept
  as a binary min-heap on the field \<open>expire\<close>. The model keeps the array with its capacity (the
  slots above \<open>cur_size\<close> hold stale, null or uninitialised pointers, as in the code) and the
  store of the \<open>Timer\<close> objects, so that every dereference, every array access and every
  \<open>delete\<close> of the code is checked.
\<close>

section \<open>Data\<close>

text \<open>
  \<open>args\<close> and \<open>cb_func\<close> are opaque: a \<open>void *\<close> and a function pointer, \<open>None\<close> for null.
\<close>

record timer =
  args :: "nat option"
  expire :: int
  cb_func :: "nat option"

definition Timer :: "int \<Rightarrow> timer" where
  "Timer delay = \<lparr> args = None, expire = delay, cb_func = None \<rparr>"

record timer_heap =
  array :: "ptr list"
  capacity :: nat
  cur_size :: nat
  timers :: "timer store"

section \<open>Operations\<close>

text \<open>
  Indices are natural numbers. In the source they are \<open>int\<close>, and \<open>hole*2+1\<close> overflows only for
  \<open>hole\<close> of at least \<open>2^30\<close>, in an array of more than 8 GiB: such heaps are outside the model.
\<close>

definition expire_at :: "timer store \<Rightarrow> ptr list \<Rightarrow> nat \<Rightarrow> int res" where
  "expire_at m a i = bindE (rd a i) (\<lambda>p. bindE (deref m p) (\<lambda>t. Inr (expire t)))"

text \<open>The smaller of the children \<open>child\<close> and \<open>child+1\<close>, the left one on a tie.\<close>

definition pick_child :: "timer store \<Rightarrow> nat \<Rightarrow> ptr list \<Rightarrow> nat \<Rightarrow> nat res" where
  "pick_child m n a child =
     (if child + 1 < n then
        bindE (expire_at m a (child + 1)) (\<lambda>er. bindE (expire_at m a child) (\<lambda>el.
          Inr (if er < el then child + 1 else child)))
      else Inr child)"

lemma pick_child_range:
  "pick_child m n a child = Inr c \<Longrightarrow> child < n \<Longrightarrow> child \<le> c \<and> c \<le> child + 1 \<and> c < n"
  by (auto simp: pick_child_def elim!: bindE_InrE split: if_splits)

function percolate_down :: "timer store \<Rightarrow> nat \<Rightarrow> ptr list \<Rightarrow> nat \<Rightarrow> ptr list res" where
  "percolate_down m n a hole =
     (let child = hole * 2 + 1 in
      if child < n then
        bindE (pick_child m n a child) (\<lambda>c.
          bindE (expire_at m a c) (\<lambda>ec. bindE (expire_at m a hole) (\<lambda>eh.
            if ec < eh then percolate_down m n (swap_at a hole c) c else Inr a)))
      else Inr a)"
  by pat_completeness auto
termination
  by (relation "measure (\<lambda>(m, n, a, hole). n - hole)") (auto dest!: pick_child_range)

declare percolate_down.simps [simp del]

text \<open>The loop \<open>for (int i = (cur_size-1)/2; i >= 0; --i) percolate_down(i)\<close>, from \<open>i\<close> down.\<close>

fun heapify :: "timer store \<Rightarrow> nat \<Rightarrow> ptr list \<Rightarrow> nat \<Rightarrow> ptr list res" where
  "heapify m n a 0 = percolate_down m n a 0"
| "heapify m n a (Suc i) = bindE (percolate_down m n a (Suc i)) (\<lambda>b. heapify m n b i)"

text \<open>
  The constructors. \<open>new Timer *[cap]\<close> throws on a negative size. The first one fills the array
  with null, the second one leaves the slots it does not copy uninitialised. In the second one
  \<open>sz\<close> (\<open>size\<close>) is the caller's count of elements, and \<open>(0-1)/2\<close> truncates to 0, so the loop
  runs only under \<open>size != 0\<close>.
\<close>

definition TimerHeap_cap :: "timer store \<Rightarrow> int \<Rightarrow> timer_heap res" where
  "TimerHeap_cap m cap =
     (if cap < 0 then Inl Thrown
      else Inr \<lparr> array = replicate (nat cap) Null, capacity = nat cap, cur_size = 0, timers = m \<rparr>)"

definition TimerHeap_init :: "timer store \<Rightarrow> ptr list \<Rightarrow> nat \<Rightarrow> nat \<Rightarrow> timer_heap res" where
  "TimerHeap_init m init_array sz cap =
     (if cap < sz then Inl Thrown
      else if length init_array < sz then Inl Out_Of_Bounds
      else let a = take sz init_array @ replicate (cap - sz) Indet in
        bindE (if sz \<noteq> 0 then heapify m sz a ((sz - 1) div 2) else Inr a) (\<lambda>b.
          Inr \<lparr> array = b, capacity = cap, cur_size = sz, timers = m \<rparr>))"

text \<open>The destructor deletes the timers of the first \<open>cur_size\<close> slots, and what is left are the other timers.\<close>

fun delete_loop :: "ptr list \<Rightarrow> nat \<Rightarrow> nat \<Rightarrow> timer store \<Rightarrow> timer store res" where
  "delete_loop a i 0 m = Inr m"
| "delete_loop a i (Suc k) m = bindE (rd a i) (\<lambda>p. bindE (free m p) (delete_loop a (Suc i) k))"

definition TimerHeap_dtor :: "timer_heap \<Rightarrow> timer store res" where
  "TimerHeap_dtor h = delete_loop (array h) 0 (cur_size h) (timers h)"

text \<open>
  \<open>resize\<close> doubles the array; the slots above \<open>cur_size\<close> become null. \<open>2*capacity\<close> is an
  \<open>int\<close>.
\<close>

definition resize :: "timer_heap \<Rightarrow> timer_heap res" where
  "resize h =
     (if INT_MAX < 2 * int (capacity h) then Inl Signed_Overflow
      else if 2 * capacity h < cur_size h \<or> length (array h) < cur_size h then Inl Out_Of_Bounds
      else Inr (h\<lparr> capacity := 2 * capacity h,
        array := take (cur_size h) (array h) @ replicate (2 * capacity h - cur_size h) Null \<rparr>))"

text \<open>The loop of \<open>add_timer\<close>: move the parents that expire later down into the hole.\<close>

function percolate_up :: "timer store \<Rightarrow> int \<Rightarrow> ptr list \<Rightarrow> nat \<Rightarrow> (ptr list \<times> nat) res" where
  "percolate_up m e a hole =
     (if hole > 0 then
        let parent = (hole - 1) div 2 in
        bindE (expire_at m a parent) (\<lambda>ep.
          if ep \<le> e then Inr (a, hole)
          else bindE (wr a hole (a ! parent)) (\<lambda>b. percolate_up m e b parent))
      else Inr (a, hole))"
  by pat_completeness auto
termination
  by (relation "measure (\<lambda>(m, e, a, hole). hole)") auto

declare percolate_up.simps [simp del]

definition add_timer :: "timer_heap \<Rightarrow> ptr \<Rightarrow> timer_heap res" where
  "add_timer h t =
     (if t = Null then Inr h
      else bindE (if capacity h \<le> cur_size h then resize h else Inr h) (\<lambda>h.
        let hole = cur_size h in
        bindE (deref (timers h) t) (\<lambda>tm.
          bindE (percolate_up (timers h) (expire tm) (array h) hole) (\<lambda>(a, hole).
            bindE (wr a hole t) (\<lambda>a.
              Inr (h\<lparr> array := a, cur_size := cur_size h + 1 \<rparr>))))))"

text \<open>
  \<open>del_timer\<close> (its comment says ``delay destroy'') removes nothing: it rebuilds the heap order.
  \<open>(cur_size-1)/2\<close> is 0 for \<open>cur_size = 0\<close>, as C++ division truncates.
\<close>

definition del_timer :: "timer_heap \<Rightarrow> ptr \<Rightarrow> timer_heap res" where
  "del_timer h t =
     (if t = Null then Inr h
      else bindE (heapify (timers h) (cur_size h) (array h) ((cur_size h - 1) div 2)) (\<lambda>a.
        Inr (h\<lparr> array := a \<rparr>)))"

definition heap_empty :: "timer_heap \<Rightarrow> bool" where
  "heap_empty h = (cur_size h = 0)"

definition top :: "timer_heap \<Rightarrow> ptr res" where
  "top h = (if heap_empty h then Inr Null else rd (array h) 0)"

definition pop :: "timer_heap \<Rightarrow> timer_heap res" where
  "pop h =
     (if heap_empty h then Inr h
      else bindE (rd (array h) 0) (\<lambda>p.
        if p = Null then Inr h
        else bindE (free (timers h) p) (\<lambda>m.
          bindE (rd (array h) (cur_size h - 1)) (\<lambda>q.
            bindE (wr (array h) 0 q) (\<lambda>a.
              bindE (percolate_down m (cur_size h - 1) a 0) (\<lambda>a.
                Inr (h\<lparr> array := a, cur_size := cur_size h - 1, timers := m \<rparr>)))))))"

text \<open>
  \<open>tick\<close> reads the clock once (\<open>cur\<close>). The callbacks it runs are logged with their
  argument; a callback that itself uses the heap is outside the model.
\<close>

type_synonym fired = "(nat \<times> nat option) list"

lemma pop_decreases:
  "pop h = Inr h' \<Longrightarrow> rd (array h) 0 = Inr p \<Longrightarrow> p \<noteq> Null \<Longrightarrow> \<not> heap_empty h \<Longrightarrow>
   cur_size h' < cur_size h"
  by (auto simp: pop_def heap_empty_def elim!: bindE_InrE)

function tick_loop :: "int \<Rightarrow> timer_heap \<Rightarrow> fired \<Rightarrow> (timer_heap \<times> fired) res" where
  "tick_loop cur h log =
     (if heap_empty h then Inr (h, log)
      else bindE (rd (array h) 0) (\<lambda>tmp.
        if tmp = Null then Inr (h, log)
        else bindE (deref (timers h) tmp) (\<lambda>t.
          if cur < expire t then Inr (h, log)
          else bindE (pop h) (\<lambda>h'.
            tick_loop cur h'
              (case cb_func t of None \<Rightarrow> log | Some f \<Rightarrow> log @ [(f, args t)])))))"
  by pat_completeness auto
termination
  by (relation "measure (\<lambda>(cur, h, log). cur_size h)") (auto dest: pop_decreases)

declare tick_loop.simps [simp del]

definition tick :: "int \<Rightarrow> timer_heap \<Rightarrow> (timer_heap \<times> fired) res" where
  "tick cur h = bindE (rd (array h) 0) (\<lambda>_. tick_loop cur h [])"

section \<open>The heap order\<close>

text \<open>
  \<open>live m n a\<close>: the first \<open>n\<close> slots of the array point to stored timers. \<open>key m a i\<close> is the
  expiry of slot \<open>i\<close>. \<open>heap_from m n a k\<close>: every slot whose parent is at \<open>k\<close> or above expires
  no earlier than its parent. \<open>sift_inv\<close> allows the one defect \<open>percolate_down\<close> repairs.
\<close>

definition expiry :: "timer store \<Rightarrow> ptr \<Rightarrow> int" where
  "expiry m p = (case p of Ptr x \<Rightarrow> (case m x of Some t \<Rightarrow> expire t | None \<Rightarrow> 0) | _ \<Rightarrow> 0)"

definition is_live :: "timer store \<Rightarrow> ptr \<Rightarrow> bool" where
  "is_live m p = (case p of Ptr x \<Rightarrow> m x \<noteq> None | _ \<Rightarrow> False)"

definition live :: "timer store \<Rightarrow> nat \<Rightarrow> ptr list \<Rightarrow> bool" where
  "live m n a \<longleftrightarrow> n \<le> length a \<and> (\<forall>i < n. is_live m (a ! i))"

definition key :: "timer store \<Rightarrow> ptr list \<Rightarrow> nat \<Rightarrow> int" where
  "key m a i = expiry m (a ! i)"

abbreviation par :: "nat \<Rightarrow> nat" where
  "par j \<equiv> (j - 1) div 2"

definition heap_from :: "timer store \<Rightarrow> nat \<Rightarrow> ptr list \<Rightarrow> nat \<Rightarrow> bool" where
  "heap_from m n a k \<longleftrightarrow> (\<forall>j < n. 0 < j \<longrightarrow> k \<le> par j \<longrightarrow> key m a (par j) \<le> key m a j)"

definition sift_inv :: "timer store \<Rightarrow> nat \<Rightarrow> ptr list \<Rightarrow> nat \<Rightarrow> nat \<Rightarrow> bool" where
  "sift_inv m n a k h \<longleftrightarrow>
     (\<forall>j < n. 0 < j \<longrightarrow> k \<le> par j \<longrightarrow> par j \<noteq> h \<longrightarrow> key m a (par j) \<le> key m a j) \<and>
     (\<forall>j < n. 0 < j \<longrightarrow> par j = h \<longrightarrow> 0 < h \<longrightarrow> k \<le> par h \<longrightarrow> key m a (par h) \<le> key m a j)"

lemma is_live_deref: "is_live m p \<Longrightarrow> \<exists>t. deref m p = Inr t \<and> expire t = expiry m p"
  by (auto simp: is_live_def expiry_def split: ptr.splits)

lemma expire_at_live [simp]: "live m n a \<Longrightarrow> i < n \<Longrightarrow> expire_at m a i = Inr (key m a i)"
  using is_live_deref [of m "a ! i"] by (auto simp: live_def expire_at_def key_def)

lemma pick_child_live:
  assumes "live m n a" "child < n"
  shows "\<exists>c. pick_child m n a child = Inr c \<and> (c = child \<or> c = child + 1) \<and> c < n \<and>
    (\<forall>j < n. j = child \<or> j = child + 1 \<longrightarrow> key m a c \<le> key m a j)"
  using assms by (auto simp: pick_child_def)

lemma live_swap: "live m n a \<Longrightarrow> i < n \<Longrightarrow> j < n \<Longrightarrow> live m n (swap_at a i j)"
  by (auto simp: live_def nth_swap_at)

lemma key_swap:
  "live m n a \<Longrightarrow> i < n \<Longrightarrow> j < n \<Longrightarrow> k < n \<Longrightarrow>
   key m (swap_at a i j) k = (if k = i then key m a j else if k = j then key m a i else key m a k)"
  by (auto simp: live_def key_def nth_swap_at)

lemma sift_inv_step:
  assumes inv: "sift_inv m n a k h" and live: "live m n a" and kh: "k \<le> h"
    and c: "c < n" "par c = h" "0 < c"
    and least: "\<forall>j < n. 0 < j \<longrightarrow> par j = h \<longrightarrow> key m a c \<le> key m a j"
    and lt: "key m a c < key m a h"
  shows "sift_inv m n (swap_at a h c) k c"
proof -
  have hc: "h < c" "h < n" using c by auto
  note keys = key_swap [OF live hc(2) c(1)]
  have old: "key m a (par j) \<le> key m a j"
    if "j < n" "0 < j" "k \<le> par j" "par j \<noteq> h" for j
    using inv that by (auto simp: sift_inv_def)
  have grand: "key m a (par h) \<le> key m a c" if "0 < h" "k \<le> par h"
    using inv that c by (auto simp: sift_inv_def)
  show ?thesis
    unfolding sift_inv_def
  proof (intro conjI allI impI)
    fix j assume j: "j < n" "0 < j" "k \<le> par j" "par j \<noteq> c"
    have pj: "par j < n" using j by auto
    show "key m (swap_at a h c) (par j) \<le> key m (swap_at a h c) j"
    proof (cases "par j = h")
      case True
      then have "j \<noteq> h" using j by auto
      then show ?thesis using True least j lt keys [OF j(1)] keys [OF pj] by auto
    next
      case False
      then have "j \<noteq> c" using c by auto
      show ?thesis
      proof (cases "j = h")
        case True
        then show ?thesis using grand j False keys [OF j(1)] keys [OF pj] by auto
      next
        case neq: False
        then show ?thesis
          using old [OF j(1-3) False] False j \<open>j \<noteq> c\<close> keys [OF j(1)] keys [OF pj] by auto
      qed
    qed
  next
    fix j assume j: "j < n" "0 < j" "par j = c" "0 < c" "k \<le> par c"
    then have "j \<noteq> h" "j \<noteq> c" "par j \<noteq> h" using hc by auto
    then show "key m (swap_at a h c) (par c) \<le> key m (swap_at a h c) j"
      using old [OF j(1,2)] j c kh hc keys [OF j(1)] keys [OF hc(2)] by auto
  qed
qed

section \<open>Percolating down\<close>

definition rearranged :: "nat \<Rightarrow> ptr list \<Rightarrow> ptr list \<Rightarrow> bool" where
  "rearranged n a b \<longleftrightarrow> length b = length a \<and> drop n b = drop n a \<and>
     mset (take n b) = mset (take n a)"

lemma rearranged_refl [simp]: "rearranged n a a"
  by (simp add: rearranged_def)

lemma rearranged_trans [trans]: "rearranged n a b \<Longrightarrow> rearranged n b c \<Longrightarrow> rearranged n a c"
  by (simp add: rearranged_def)

lemma rearranged_swap: "i < n \<Longrightarrow> j < n \<Longrightarrow> n \<le> length a \<Longrightarrow> rearranged n a (swap_at a i j)"
  by (simp add: rearranged_def mset_take_swap_at drop_swap_at)

lemma par_child: "par c = h \<and> 0 < c \<longleftrightarrow> c = h * 2 + 1 \<or> c = h * 2 + 2"
  by auto

lemma sift_inv_done:
  assumes "sift_inv m n a k h" "\<forall>j < n. 0 < j \<longrightarrow> par j = h \<longrightarrow> key m a h \<le> key m a j"
  shows "heap_from m n a k"
  using assms unfolding sift_inv_def heap_from_def by metis

lemma percolate_down_correct:
  assumes "live m n a" "sift_inv m n a k h" "k \<le> h"
  shows "\<exists>b. percolate_down m n a h = Inr b \<and> live m n b \<and> rearranged n a b \<and>
    heap_from m n b k"
  using assms
proof (induction m n a h rule: percolate_down.induct)
  case (1 m n a h)
  let ?child = "h * 2 + 1"
  show ?case
  proof (cases "?child < n")
    case False
    then have "\<not> (par j = h \<and> 0 < j)" if "j < n" for j
      unfolding par_child using that by auto
    then have "heap_from m n a k"
      using sift_inv_done [OF 1(3)] by blast
    with False 1(2) show ?thesis by (simp add: percolate_down.simps [of m n a h])
  next
    case True
    obtain c where c: "pick_child m n a ?child = Inr c" "c = ?child \<or> c = ?child + 1" "c < n"
      and least: "\<forall>j < n. j = ?child \<or> j = ?child + 1 \<longrightarrow> key m a c \<le> key m a j"
      using pick_child_live [OF 1(2) True] by blast
    have least': "\<forall>j < n. 0 < j \<longrightarrow> par j = h \<longrightarrow> key m a c \<le> key m a j"
    proof (intro allI impI)
      fix j assume "j < n" "0 < j" "par j = h"
      moreover from this have "j = ?child \<or> j = ?child + 1"
        using par_child [of j h] by linarith
      ultimately show "key m a c \<le> key m a j" using least by blast
    qed
    have hn: "h < n" "par c = h" "0 < c" using c by auto
    have unf: "percolate_down m n a h =
      (if key m a c < key m a h then percolate_down m n (swap_at a h c) c else Inr a)"
      using True c(1) 1(2) c(3) hn by (subst percolate_down.simps) simp
    show ?thesis
    proof (cases "key m a c < key m a h")
      case lt: True
      have inv: "sift_inv m n (swap_at a h c) k c"
        using sift_inv_step [OF 1(3,2,4) c(3) hn(2,3) least' lt] .
      have "\<exists>b. percolate_down m n (swap_at a h c) c = Inr b \<and> live m n b \<and>
          rearranged n (swap_at a h c) b \<and> heap_from m n b k"
      proof (rule "1.IH" [OF refl True c(1)])
        show "expire_at m a c = Inr (key m a c)" "expire_at m a h = Inr (key m a h)"
          using 1(2) c(3) hn by simp_all
        show "live m n (swap_at a h c)" using 1(2) c(3) hn by (simp add: live_swap)
        show "k \<le> c" using 1(4) hn by auto
      qed (use lt inv in auto)
      moreover have "rearranged n a (swap_at a h c)"
        using 1(2) c(3) hn by (intro rearranged_swap) (auto simp: live_def)
      ultimately show ?thesis
        using unf lt rearranged_trans by auto
    next
      case False
      then have "heap_from m n a k"
        using sift_inv_done [OF 1(3)] least' by (meson linorder_le_less_linear order_trans)
      then show ?thesis using unf False 1(2) by simp
    qed
  qed
qed

lemma heap_from_sift: "heap_from m n a (Suc k) \<Longrightarrow> sift_inv m n a k k"
  unfolding heap_from_def sift_inv_def
  by (auto; metis Suc_leI le_neq_implies_less)

lemma heapify_correct:
  "live m n a \<Longrightarrow> heap_from m n a (Suc i) \<Longrightarrow>
   \<exists>b. heapify m n a i = Inr b \<and> live m n b \<and> rearranged n a b \<and> heap_from m n b 0"
proof (induction i arbitrary: a)
  case 0
  then show ?case
    using percolate_down_correct [OF _ heap_from_sift] by (metis heapify.simps(1) le_refl)
next
  case (Suc i)
  obtain b where b: "percolate_down m n a (Suc i) = Inr b" "live m n b" "rearranged n a b"
      "heap_from m n b (Suc i)"
    using percolate_down_correct [OF Suc.prems(1) heap_from_sift [OF Suc.prems(2)]] by blast
  obtain c where "heapify m n b i = Inr c" "live m n c" "rearranged n b c" "heap_from m n c 0"
    using Suc.IH [OF b(2,4)] by blast
  with b show ?case using rearranged_trans by auto
qed

lemma heap_from_last: "heap_from m n a (Suc ((n - 1) div 2))"
  unfolding heap_from_def by auto

lemma heap_root_least:
  assumes "heap_from m n a 0"
  shows "i < n \<Longrightarrow> key m a 0 \<le> key m a i"
proof (induction i rule: less_induct)
  case (less i)
  show ?case
  proof (cases "i = 0")
    case False
    then have "par i < i" by auto
    with less have "key m a 0 \<le> key m a (par i)" by simp
    moreover have "key m a (par i) \<le> key m a i"
      using assms False less.prems by (auto simp: heap_from_def)
    ultimately show ?thesis by simp
  qed simp
qed

section \<open>Percolating up\<close>

text \<open>
  While \<open>add_timer\<close> runs its loop the new timer \<open>p\<close> is not in the array yet; the invariant
  speaks of the array with \<open>p\<close> in the hole.
\<close>

definition up_inv :: "timer store \<Rightarrow> nat \<Rightarrow> ptr list \<Rightarrow> nat \<Rightarrow> bool" where
  "up_inv m n b h \<longleftrightarrow>
     (\<forall>j < n. 0 < j \<longrightarrow> j \<noteq> h \<longrightarrow> key m b (par j) \<le> key m b j) \<and>
     (\<forall>j < n. 0 < j \<longrightarrow> par j = h \<longrightarrow> 0 < h \<longrightarrow> key m b (par h) \<le> key m b j)"

lemma up_inv_done:
  assumes "up_inv m n b h" "0 < h \<longrightarrow> key m b (par h) \<le> key m b h"
  shows "heap_from m n b 0"
  using assms unfolding up_inv_def heap_from_def by metis

lemma up_inv_step:
  assumes inv: "up_inv m n b h" and live: "live m n b" and h: "h < n" "0 < h"
    and gt: "key m b h < key m b (par h)"
  shows "up_inv m n (swap_at b h (par h)) (par h)"
proof -
  let ?p = "par h"
  have ph: "?p < h" "?p < n" using h by auto
  note keys = key_swap [OF live h(1) ph(2)]
  have old: "key m b (par j) \<le> key m b j" if "j < n" "0 < j" "j \<noteq> h" for j
    using inv that by (auto simp: up_inv_def)
  have grand: "key m b ?p \<le> key m b j" if "j < n" "0 < j" "par j = h" for j
    using inv that h by (auto simp: up_inv_def)
  show ?thesis
    unfolding up_inv_def
  proof (intro conjI allI impI)
    fix j assume j: "j < n" "0 < j" "j \<noteq> ?p"
    have pj: "par j < n" "par j \<noteq> j" using j by auto
    consider "j = h" | "j \<noteq> h" "par j = h" | "j \<noteq> h" "par j = ?p" | "j \<noteq> h" "par j \<noteq> h" "par j \<noteq> ?p"
      by blast
    then show "key m (swap_at b h ?p) (par j) \<le> key m (swap_at b h ?p) j"
    proof cases
      case 1
      then show ?thesis using gt keys [OF h(1)] keys [OF ph(2)] ph by simp
    next
      case 2
      then show ?thesis using grand [OF j(1,2)] j(3) keys [OF j(1)] keys [OF h(1)] by simp
    next
      case 3
      then show ?thesis using old [OF j(1,2)] gt j(3) ph keys [OF j(1)] keys [OF ph(2)] by simp
    next
      case 4
      then show ?thesis using old [OF j(1,2)] j(3) keys [OF j(1)] keys [OF pj(1)] by simp
    qed
  next
    fix j assume j: "j < n" "0 < j" "par j = ?p" "0 < ?p"
    have pp: "par ?p < n" "par ?p \<noteq> h" "par ?p \<noteq> ?p" using j(4) ph by linarith+
    have jp: "j \<noteq> ?p" using j(2,3) by linarith
    have le: "key m b (par ?p) \<le> key m b ?p" using old [OF ph(2) j(4)] ph by simp
    show "key m (swap_at b h ?p) (par ?p) \<le> key m (swap_at b h ?p) j"
    proof (cases "j = h")
      case True
      have "key m (swap_at b h ?p) (par ?p) = key m b (par ?p)"
        using keys [OF pp(1)] pp(2,3) by (simp only: if_False)
      then show ?thesis using le keys [OF h(1)] True by simp
    next
      case False
      have "key m b ?p \<le> key m b j" using old [OF j(1,2) False] by (simp only: j(3))
      moreover have "key m (swap_at b h ?p) (par ?p) = key m b (par ?p)"
        using keys [OF pp(1)] pp(2,3) by (simp only: if_False)
      moreover have "key m (swap_at b h ?p) j = key m b j"
        using keys [OF j(1)] False jp by (simp only: if_False)
      ultimately show ?thesis using le by linarith
    qed
  qed
qed

lemma swap_at_hole:
  assumes "h < length a" "q < length a" "q \<noteq> h"
  shows "(a[h := a ! q])[q := p] = swap_at (a[h := p]) h q"
  using assms by (simp add: swap_at_def list_update_swap)

lemma percolate_up_correct:
  assumes "live m n (a[h := p])" "up_inv m n (a[h := p]) h" "h < n"
  shows "\<exists>a' h'. percolate_up m (expiry m p) a h = Inr (a', h') \<and> h' < n \<and>
    live m n (a'[h' := p]) \<and> rearranged n (a[h := p]) (a'[h' := p]) \<and>
    heap_from m n (a'[h' := p]) 0"
  using assms
proof (induction m "expiry m p" a h rule: percolate_up.induct)
  case (1 m a h)
  let ?b = "a[h := p]"
  have len: "h < length a" "n \<le> length a" using 1(2,4) by (auto simp: live_def)
  have kh: "key m ?b h = expiry m p" using len by (simp add: key_def)
  show ?case
  proof (cases "0 < h")
    case False
    then have "heap_from m n ?b 0" using up_inv_done [OF 1(3)] by simp
    moreover have "percolate_up m (expiry m p) a h = Inr (a, h)"
      using False by (subst percolate_up.simps) simp
    ultimately show ?thesis using 1(2,4) rearranged_refl by blast
  next
    case True
    then have ph: "par h < h" "par h < n" "par h < length a" using 1(4) len by auto
    have kp: "expire_at m a (par h) = Inr (key m ?b (par h))"
    proof -
      have "is_live m (a ! par h)" using 1(2) ph by (auto simp: live_def nth_list_update)
      then show ?thesis
        using is_live_deref [of m "a ! par h"] ph by (auto simp: expire_at_def key_def)
    qed
    let ?a = "a[h := a ! par h]"
    have unf: "percolate_up m (expiry m p) a h =
      (if key m ?b (par h) \<le> expiry m p then Inr (a, h)
       else percolate_up m (expiry m p) ?a (par h))"
      using True len kp by (subst percolate_up.simps) (simp add: Let_def)
    show ?thesis
    proof (cases "key m ?b (par h) \<le> expiry m p")
      case le: True
      then have "heap_from m n ?b 0" using up_inv_done [OF 1(3)] kh by simp
      then show ?thesis using unf le 1(2,4) by auto
    next
      case gt: False
      have eq: "?a[par h := p] = swap_at ?b h (par h)"
        using swap_at_hole [of h a "par h" p] len ph by simp
      have "up_inv m n (swap_at ?b h (par h)) (par h)"
        using up_inv_step [OF 1(3,2,4) True] gt kh by simp
      moreover have "live m n (swap_at ?b h (par h))"
        using 1(2,4) ph by (simp add: live_swap)
      ultimately have "\<exists>a' h'. percolate_up m (expiry m p) ?a (par h) = Inr (a', h') \<and>
          h' < n \<and> live m n (a'[h' := p]) \<and>
          rearranged n (?a[par h := p]) (a'[h' := p]) \<and> heap_from m n (a'[h' := p]) 0"
        using len ph by (intro 1(1) [OF True refl kp gt]) (simp_all add: eq [simplified])
      then obtain a' h' where res: "percolate_up m (expiry m p) ?a (par h) = Inr (a', h')" "h' < n"
          "live m n (a'[h' := p])" "rearranged n (swap_at ?b h (par h)) (a'[h' := p])"
          "heap_from m n (a'[h' := p]) 0"
        unfolding eq by blast
      have "rearranged n ?b (swap_at ?b h (par h))"
        using len ph 1(4) by (intro rearranged_swap) auto
      then have "rearranged n ?b (a'[h' := p])"
        using res(4) by (rule rearranged_trans)
      moreover have "percolate_up m (expiry m p) a h = Inr (a', h')"
        using unf gt res(1) by (simp only: if_False)
      ultimately show ?thesis using res by blast
    qed
  qed
qed

section \<open>The heap as a priority queue\<close>

text \<open>
  \<open>pending h\<close> is the multiset of the timers in the heap. \<open>heap_wf\<close> is the invariant of the
  class: the array has the capacity the object records, its used slots point to distinct live
  timers, in heap order.
\<close>

definition pending :: "timer_heap \<Rightarrow> ptr multiset" where
  "pending h = mset (take (cur_size h) (array h))"

definition heap_wf :: "timer_heap \<Rightarrow> bool" where
  "heap_wf h \<longleftrightarrow> length (array h) = capacity h \<and> cur_size h \<le> capacity h \<and>
     live (timers h) (cur_size h) (array h) \<and> distinct (take (cur_size h) (array h)) \<and>
     heap_from (timers h) (cur_size h) (array h) 0"

definition due :: "timer_heap \<Rightarrow> ptr \<Rightarrow> int" where
  "due h p = expiry (timers h) p"

lemma live_member: "live m n a \<Longrightarrow> p \<in># mset (take n a) \<Longrightarrow> is_live m p"
  by (auto simp: live_def in_set_conv_nth)

lemma in_pending: "p \<in># pending h \<Longrightarrow> heap_wf h \<Longrightarrow> \<exists>i < cur_size h. p = array h ! i"
  by (auto simp: pending_def in_set_conv_nth heap_wf_def)

lemma heap_wf_top:
  assumes "heap_wf h" "pending h \<noteq> {#}"
  shows "0 < cur_size h" "rd (array h) 0 = Inr (array h ! 0)" "array h ! 0 \<in># pending h"
    "is_live (timers h) (array h ! 0)" "p \<in># pending h \<Longrightarrow> due h (array h ! 0) \<le> due h p"
proof -
  show pos: "0 < cur_size h"
    using assms by (cases "cur_size h") (auto simp: pending_def)
  have len: "cur_size h \<le> length (array h)" using assms by (auto simp: heap_wf_def)
  show "rd (array h) 0 = Inr (array h ! 0)" using pos len unfolding rd_def by (metis less_le_trans)
  show "array h ! 0 \<in># pending h"
    using pos len by (auto simp: pending_def in_set_conv_nth intro!: exI [of _ 0])
  show "is_live (timers h) (array h ! 0)"
    using assms pos by (auto simp: heap_wf_def live_def)
  show "due h (array h ! 0) \<le> due h p" if p: "p \<in># pending h"
  proof -
    obtain i where "i < cur_size h" "p = array h ! i" using in_pending [OF p assms(1)] by blast
    then show ?thesis
      using heap_root_least [of "timers h" "cur_size h" "array h" i] assms
      by (simp add: heap_wf_def key_def due_def)
  qed
qed

lemma live_take_mset:
  "live m n a \<longleftrightarrow> n \<le> length a \<and> (\<forall>p \<in># mset (take n a). is_live m p)"
proof -
  have "(\<forall>i < n. is_live m (a ! i)) \<longleftrightarrow> (\<forall>p \<in># mset (take n a). is_live m p)"
    if "n \<le> length a"
    using that by (simp add: all_set_conv_all_nth)
  then show ?thesis by (auto simp: live_def)
qed

lemma rearranged_distinct: "rearranged n a b \<Longrightarrow> distinct (take n b) = distinct (take n a)"
  unfolding rearranged_def using mset_eq_imp_distinct_iff by metis

text \<open>\<open>pop\<close>: the root is deleted, the last slot takes its place and sinks.\<close>

lemma take_root_last:
  assumes "0 < n" "n \<le> length a"
  shows "mset (take n a) = add_mset (a ! 0) (mset (take (n - 1) (a[0 := a ! (n - 1)])))"
proof (cases "n = 1")
  case True
  then show ?thesis using assms by (cases a) auto
next
  case False
  let ?b = "swap_at a 0 (n - 1)"
  have eq: "take n ?b = take (n - 1) (a[0 := a ! (n - 1)]) @ [a ! 0]"
    using assms False take_Suc_conv_app_nth [of "n - 1" ?b]
    by (simp add: nth_swap_at) (simp add: swap_at_def)
  have "mset (take n a) = mset (take n ?b)"
    using mset_take_swap_at [of 0 n "n - 1" a] assms by simp
  then show ?thesis unfolding eq by simp
qed

lemma pop_sift_inv:
  assumes "heap_from m n a 0" "n \<le> length a"
  shows "sift_inv m (n - 1) (a[0 := a ! (n - 1)]) 0 0"
proof -
  have "key m (a[0 := x]) i = key m a i" if "0 < i" for i x
    using that by (cases a) (auto simp: key_def nth_Cons')
  then show ?thesis
    using assms by (auto simp: sift_inv_def heap_from_def)
qed

lemma pop_correct:
  assumes wf: "heap_wf h" and ne: "pending h \<noteq> {#}"
  shows "\<exists>h'. pop h = Inr h' \<and> heap_wf h' \<and> pending h = add_mset (array h ! 0) (pending h') \<and>
    (\<forall>p \<in># pending h'. due h' p = due h p \<and> deref (timers h') p = deref (timers h) p) \<and>
    capacity h' = capacity h"
proof -
  note top = heap_wf_top [OF assms]
  let ?n = "cur_size h" and ?a = "array h"
  let ?b = "?a[0 := ?a ! (?n - 1)]"
  obtain x where x: "?a ! 0 = Ptr x" "timers h x \<noteq> None"
    using top(4) by (auto simp: is_live_def split: ptr.splits)
  let ?m = "(timers h)(x := None)"
  have wf': "length ?a = capacity h" "?n \<le> capacity h" "live (timers h) ?n ?a"
      "distinct (take ?n ?a)" "heap_from (timers h) ?n ?a 0"
    using wf by (auto simp: heap_wf_def)
  have split: "pending h = add_mset (Ptr x) (mset (take (?n - 1) ?b))"
    using take_root_last [of ?n ?a] top(1) wf'(1,2) x by (simp add: pending_def)
  have rest: "p \<noteq> Ptr x \<and> is_live (timers h) p" if "p \<in># mset (take (?n - 1) ?b)" for p
  proof -
    have "count (pending h) (Ptr x) \<le> 1"
      using wf'(4) by (simp add: pending_def distinct_count_atmost_1 [THEN iffD1])
    then have "Ptr x \<notin># mset (take (?n - 1) ?b)" using split by (simp add: not_in_iff)
    moreover have "is_live (timers h) p"
      using live_member [OF wf'(3), of p] that split unfolding pending_def by (metis insert_iff set_mset_add_mset_insert)
    ultimately show ?thesis using that by auto
  qed
  have same: "is_live ?m p = is_live (timers h) p" "expiry ?m p = expiry (timers h) p"
      "deref ?m p = deref (timers h) p" if "p \<noteq> Ptr x" for p
    using that by (auto simp: is_live_def expiry_def deref_def split: ptr.splits)
  have live': "live ?m (?n - 1) ?b"
    using rest same wf' by (auto simp: live_take_mset)
  have "sift_inv (timers h) (?n - 1) ?b 0 0"
    using pop_sift_inv wf' by simp
  moreover have "key ?m ?b i = key (timers h) ?b i" if "i < ?n - 1" for i
  proof -
    have "?b ! i \<in> set (take (?n - 1) ?b)"
      using that wf' by (auto simp: in_set_conv_nth)
    then show ?thesis using rest same by (simp add: key_def)
  qed
  ultimately have inv: "sift_inv ?m (?n - 1) ?b 0 0"
    by (auto simp: sift_inv_def)
  obtain c where c: "percolate_down ?m (?n - 1) ?b 0 = Inr c" "live ?m (?n - 1) c"
      "rearranged (?n - 1) ?b c" "heap_from ?m (?n - 1) c 0"
    using percolate_down_correct [OF live' inv] by auto
  let ?h' = "h\<lparr> array := c, cur_size := ?n - 1, timers := ?m \<rparr>"
  have "pop h = Inr ?h'"
    using top(1,2) x c(1) wf'(1,2) by (auto simp: pop_def heap_empty_def)
  moreover have pend: "pending ?h' = mset (take (?n - 1) ?b)"
    using c(3) by (simp add: pending_def rearranged_def)
  moreover have "distinct (take (?n - 1) ?b)"
    using wf'(4) split by (metis add_mset_add_single distinct.simps(2) mset.simps(2)
        mset_eq_imp_distinct_iff pending_def)
  then have "distinct (take (?n - 1) c)"
    using rearranged_distinct [OF c(3)] by simp
  then have "heap_wf ?h'"
    using c wf' by (auto simp: heap_wf_def rearranged_def)
  ultimately show ?thesis
    using split rest same x(1) by (intro exI [of _ ?h']) (auto simp: due_def)
qed

text \<open>\<open>add_timer\<close>: the array grows when it is full, then the new timer rises.\<close>

lemma resize_correct:
  assumes "heap_wf h" "0 < capacity h" "2 * int (capacity h) \<le> INT_MAX"
  shows "\<exists>h'. resize h = Inr h' \<and> heap_wf h' \<and> capacity h' = 2 * capacity h \<and>
    cur_size h' = cur_size h \<and> timers h' = timers h \<and> pending h' = pending h"
proof -
  let ?a = "take (cur_size h) (array h) @ replicate (2 * capacity h - cur_size h) Null"
  have wf: "cur_size h \<le> length (array h)" "cur_size h \<le> capacity h" "length (array h) = capacity h"
    using assms(1) by (auto simp: heap_wf_def)
  have same: "?a ! i = array h ! i" if "i < cur_size h" for i
    using that wf by (simp add: nth_append)
  have "resize h = Inr (h\<lparr> capacity := 2 * capacity h, array := ?a \<rparr>)"
    using assms wf by (simp add: resize_def)
  moreover have "live (timers h) (cur_size h) ?a"
    using assms(1) same wf by (auto simp: heap_wf_def live_def)
  moreover have "heap_from (timers h) (cur_size h) ?a 0"
    using assms(1) same by (auto simp: heap_wf_def heap_from_def key_def)
  ultimately show ?thesis
    using assms(1) wf by (auto simp: heap_wf_def pending_def)
qed

text \<open>The part of \<open>add_timer\<close> after the array has been grown.\<close>

lemma add_slot:
  assumes wf: "heap_wf h" and room: "cur_size h < capacity h"
    and p: "is_live (timers h) p" "p \<notin># pending h"
  shows "\<exists>a k. percolate_up (timers h) (due h p) (array h) (cur_size h) = Inr (a, k) \<and>
    k < length a \<and> heap_wf (h\<lparr> array := a[k := p], cur_size := cur_size h + 1 \<rparr>) \<and>
    pending (h\<lparr> array := a[k := p], cur_size := cur_size h + 1 \<rparr>) = add_mset p (pending h)"
proof -
  let ?n = "cur_size h" and ?a = "array h"
  let ?b = "?a[?n := p]"
  have wf': "length ?a = capacity h" "live (timers h) ?n ?a" "distinct (take ?n ?a)"
      "heap_from (timers h) ?n ?a 0"
    using wf by (auto simp: heap_wf_def)
  have takeb: "take (?n + 1) ?b = take ?n ?a @ [p]"
    using room wf'(1) by (simp add: take_Suc_conv_app_nth)
  have nthb: "?b ! i = (if i = ?n then p else ?a ! i)" if "i < ?n + 1" for i
    using that room wf'(1) by simp
  have keyb: "key (timers h) ?b i = key (timers h) ?a i" if "i < ?n" for i
    using that nthb by (simp add: key_def)
  have live: "live (timers h) (?n + 1) ?b"
    using wf'(1,2) room p(1) nthb by (auto simp: live_def less_Suc_eq)
  have "up_inv (timers h) (?n + 1) ?b ?n"
    unfolding up_inv_def
  proof (intro conjI allI impI)
    fix j assume j: "j < ?n + 1" "0 < j" "j \<noteq> ?n"
    then have "par j < ?n" "j < ?n" by auto
    then show "key (timers h) ?b (par j) \<le> key (timers h) ?b j"
      using wf'(4) j keyb by (simp add: heap_from_def)
  next
    fix j assume "j < ?n + 1" "0 < j" "par j = ?n"
    then show "key (timers h) ?b (par ?n) \<le> key (timers h) ?b j" by linarith
  qed
  then obtain a k where ak: "percolate_up (timers h) (due h p) ?a ?n = Inr (a, k)" "k < ?n + 1"
      "live (timers h) (?n + 1) (a[k := p])" "rearranged (?n + 1) ?b (a[k := p])"
      "heap_from (timers h) (?n + 1) (a[k := p]) 0"
    using percolate_up_correct [OF live] by (auto simp: due_def)
  have pend: "mset (take (?n + 1) (a[k := p])) = add_mset p (pending h)"
    using ak(4) takeb by (simp add: rearranged_def pending_def)
  have "distinct (take (?n + 1) ?b)"
    using takeb wf'(3) p(2) by (simp add: pending_def)
  then have "distinct (take (?n + 1) (a[k := p]))"
    using rearranged_distinct [OF ak(4)] by simp
  then have "heap_wf (h\<lparr> array := a[k := p], cur_size := ?n + 1 \<rparr>)"
    using ak wf'(1) room by (auto simp: heap_wf_def rearranged_def)
  moreover have "k < length a"
    using ak(2,3) by (auto simp: live_def)
  ultimately show ?thesis using ak(1) pend by (auto simp: pending_def)
qed

lemma add_timer_correct:
  assumes wf: "heap_wf h" and cap: "0 < capacity h"
      "cur_size h = capacity h \<longrightarrow> 2 * int (capacity h) \<le> INT_MAX"
    and p: "is_live (timers h) p" "p \<notin># pending h"
  shows "\<exists>h'. add_timer h p = Inr h' \<and> heap_wf h' \<and> pending h' = add_mset p (pending h) \<and>
    timers h' = timers h \<and>
    capacity h' = (if cur_size h = capacity h then 2 * capacity h else capacity h)"
proof -
  obtain h1 where h1: "(if capacity h \<le> cur_size h then resize h else Inr h) = Inr h1"
      "heap_wf h1" "cur_size h1 < capacity h1" "timers h1 = timers h" "pending h1 = pending h"
      "capacity h1 = (if cur_size h = capacity h then 2 * capacity h else capacity h)"
  proof (cases "capacity h \<le> cur_size h")
    case True
    then have full: "cur_size h = capacity h" using wf by (simp add: heap_wf_def)
    then have "2 * int (capacity h) \<le> INT_MAX" using cap(2) by simp
    from resize_correct [OF wf cap(1) this] show ?thesis
      using that True full cap(1) by auto
  next
    case False
    then show ?thesis using that [of h] wf by auto
  qed
  obtain t where t: "deref (timers h1) p = Inr t" "expire t = due h1 p"
    using is_live_deref [OF p(1)] h1(4) by (auto simp: due_def)
  obtain a k where ak: "percolate_up (timers h1) (due h1 p) (array h1) (cur_size h1) = Inr (a, k)"
      "k < length a" "heap_wf (h1\<lparr> array := a[k := p], cur_size := cur_size h1 + 1 \<rparr>)"
      "pending (h1\<lparr> array := a[k := p], cur_size := cur_size h1 + 1 \<rparr>) = add_mset p (pending h1)"
    using add_slot [OF h1(2,3), of p] p h1(4,5) by auto
  have "p \<noteq> Null" using p(1) by (auto simp: is_live_def)
  then have "add_timer h p = Inr (h1\<lparr> array := a[k := p], cur_size := cur_size h1 + 1 \<rparr>)"
    unfolding add_timer_def h1(1) using t ak(1,2) by simp
  then show ?thesis using ak(3,4) h1 by simp
qed

text \<open>The constructors and \<open>del_timer\<close>.\<close>

lemma TimerHeap_cap_wf:
  "0 \<le> cap \<Longrightarrow> \<exists>h. TimerHeap_cap m cap = Inr h \<and> heap_wf h \<and> pending h = {#} \<and>
     capacity h = nat cap \<and> timers h = m"
  by (simp add: TimerHeap_cap_def heap_wf_def pending_def live_def heap_from_def)

lemma heapify_whole:
  assumes "live m n a"
  shows "\<exists>b. heapify m n a ((n - 1) div 2) = Inr b \<and> live m n b \<and> rearranged n a b \<and>
    heap_from m n b 0"
  using heapify_correct [OF assms heap_from_last] .

lemma TimerHeap_init_correct:
  assumes "sz \<le> cap" "sz \<le> length ps" "distinct (take sz ps)" "\<forall>p \<in> set (take sz ps). is_live m p"
  shows "\<exists>h. TimerHeap_init m ps sz cap = Inr h \<and> heap_wf h \<and> pending h = mset (take sz ps) \<and>
    capacity h = cap \<and> timers h = m"
proof -
  let ?a = "take sz ps @ replicate (cap - sz) Indet"
  have live: "live m sz ?a"
    using assms by (simp add: live_take_mset)
  obtain b where b: "(if sz \<noteq> 0 then heapify m sz ?a ((sz - 1) div 2) else Inr ?a) = Inr b"
      "live m sz b" "rearranged sz ?a b" "heap_from m sz b 0"
  proof (cases "sz = 0")
    case True
    then show ?thesis using that [of ?a] live by (auto simp: heap_from_def)
  next
    case False
    then show ?thesis using that heapify_whole [OF live] by auto
  qed
  have "distinct (take sz b)"
    using rearranged_distinct [OF b(3)] assms by simp
  then show ?thesis
    using b assms by (auto simp: TimerHeap_init_def Let_def heap_wf_def pending_def rearranged_def)
qed

lemma del_timer_correct:
  assumes "heap_wf h" "t \<noteq> Null"
  shows "\<exists>h'. del_timer h t = Inr h' \<and> heap_wf h' \<and> pending h' = pending h"
proof -
  have "live (timers h) (cur_size h) (array h)" using assms by (simp add: heap_wf_def)
  from heapify_whole [OF this]
  obtain b where b: "heapify (timers h) (cur_size h) (array h) ((cur_size h - 1) div 2) = Inr b"
      "live (timers h) (cur_size h) b" "rearranged (cur_size h) (array h) b"
      "heap_from (timers h) (cur_size h) b 0"
    by blast
  have "del_timer h t = Inr (h\<lparr> array := b \<rparr>)"
    using assms(2) b(1) by (simp add: del_timer_def)
  then show ?thesis
    using assms(1) b rearranged_distinct [OF b(3)]
    by (simp add: heap_wf_def pending_def rearranged_def)
qed

section \<open>Ticks\<close>

definition fire :: "timer store \<Rightarrow> ptr \<Rightarrow> fired" where
  "fire m p = (case deref m p of Inl _ \<Rightarrow> []
     | Inr t \<Rightarrow> (case cb_func t of None \<Rightarrow> [] | Some f \<Rightarrow> [(f, args t)]))"

lemma tick_loop_correct:
  assumes "heap_wf h" "0 < capacity h"
  shows "\<exists>h' ps. tick_loop cur h log = Inr (h', log @ concat (map (fire (timers h)) ps)) \<and>
    heap_wf h' \<and> pending h = mset ps + pending h' \<and>
    (\<forall>p \<in> set ps. due h p \<le> cur) \<and> (\<forall>p \<in># pending h'. cur < due h p) \<and>
    sorted (map (due h) ps) \<and> capacity h' = capacity h"
  using assms
proof (induction "cur_size h" arbitrary: h log rule: less_induct)
  case less
  show ?case
  proof (cases "pending h = {#}")
    case True
    then have "heap_empty h"
      using less.prems by (auto simp: heap_empty_def pending_def heap_wf_def)
    then have "tick_loop cur h log = Inr (h, log @ concat (map (fire (timers h)) []))"
      by (subst tick_loop.simps) simp
    with True less.prems show ?thesis by (intro exI [of _ h] exI [of _ "[]"]) simp
  next
    case False
    note top = heap_wf_top [OF less.prems(1) False]
    let ?p = "array h ! 0"
    obtain t where t: "deref (timers h) ?p = Inr t" "expire t = due h ?p"
      using is_live_deref [OF top(4)] by (auto simp: due_def)
    have nn: "?p \<noteq> Null" "\<not> heap_empty h" using top(1,4) by (auto simp: is_live_def heap_empty_def)
    show ?thesis
    proof (cases "cur < expire t")
      case True
      then have "tick_loop cur h log = Inr (h, log @ concat (map (fire (timers h)) []))"
        using nn top(2) t(1) by (subst tick_loop.simps) simp
      moreover have "\<forall>p \<in># pending h. cur < due h p"
        using True t(2) top(5) by (auto intro: less_le_trans)
      ultimately show ?thesis using less.prems by (intro exI [of _ h] exI [of _ "[]"]) simp
    next
      case False
      obtain h1 where h1: "pop h = Inr h1" "heap_wf h1" "pending h = add_mset ?p (pending h1)"
          "\<forall>p \<in># pending h1. due h1 p = due h p \<and> deref (timers h1) p = deref (timers h) p"
          "capacity h1 = capacity h"
        using pop_correct [OF less.prems(1) \<open>pending h \<noteq> {#}\<close>] by blast
      let ?log = "case cb_func t of None \<Rightarrow> log | Some f \<Rightarrow> log @ [(f, args t)]"
      have step: "tick_loop cur h log = tick_loop cur h1 ?log"
        using nn top(2) t(1) False h1(1) by (subst tick_loop.simps) simp
      have log: "?log = log @ fire (timers h) ?p"
        using t(1) by (simp add: fire_def split: option.split)
      have smaller: "cur_size h1 < cur_size h"
        using pop_decreases [OF h1(1) top(2) nn] .
      obtain h' ps where IH: "tick_loop cur h1 ?log =
            Inr (h', ?log @ concat (map (fire (timers h1)) ps))" "heap_wf h'"
          "pending h1 = mset ps + pending h'" "\<forall>p \<in> set ps. due h1 p \<le> cur"
          "\<forall>p \<in># pending h'. cur < due h1 p" "sorted (map (due h1) ps)" "capacity h' = capacity h1"
        using less.hyps [OF smaller h1(2), of ?log] less.prems(2) h1(5) by auto
      have ps: "due h1 p = due h p" "fire (timers h1) p = fire (timers h) p"
        if "p \<in> set ps \<or> p \<in># pending h'" for p
        using h1(4) IH(3) that by (auto simp: fire_def)
      have "tick_loop cur h log = Inr (h', log @ concat (map (fire (timers h)) (?p # ps)))"
        using step log IH(1) ps by (simp cong: map_cong)
      moreover have "sorted (map (due h) (?p # ps))"
        using IH(3,6) ps top(5) h1(3) by (simp cong: map_cong)
      ultimately show ?thesis
        using IH ps h1 False t(2) by (intro exI [of _ h'] exI [of _ "?p # ps"]) auto
    qed
  qed
qed

section \<open>The heap sorts\<close>

text \<open>The heap provides the interface of \<open>Interfaces\<close> with \<open>add_timer\<close>, \<open>top\<close> and \<open>pop\<close>.\<close>

definition room :: "timer_heap \<Rightarrow> ptr list \<Rightarrow> bool" where
  "room h ps \<longleftrightarrow> 0 < capacity h \<and> distinct ps \<and> (\<forall>p \<in> set ps. is_live (timers h) p \<and> p \<notin># pending h) \<and>
     2 * int (cur_size h + length ps) \<le> INT_MAX"

lemma top_eq: "heap_wf h \<Longrightarrow> pending h \<noteq> {#} \<Longrightarrow> top h = Inr (array h ! 0)"
  using heap_wf_top(1,2) [of h] by (simp add: top_def heap_empty_def)

interpretation timers_pq: sorting_queue heap_wf pending due top pop "\<lambda>p h. add_timer h p" room
proof unfold_locales
  fix h assume "heap_wf h" "pending h \<noteq> {#}"
  then show "\<exists>p. top h = Inr p \<and> p \<in># pending h \<and> (\<forall>q \<in># pending h. due h p \<le> due h q)"
    using top_eq heap_wf_top(3,5) by blast
next
  fix h p assume "heap_wf h" "pending h \<noteq> {#}" "top h = Inr p"
  then show "\<exists>h'. pop h = Inr h' \<and> heap_wf h' \<and> pending h = add_mset p (pending h') \<and>
      (\<forall>q \<in># pending h'. due h' q = due h q)"
    using pop_correct top_eq by fastforce
next
  fix h p ps assume wf: "heap_wf h" and room: "room h (p # ps)"
  have sz: "size (pending g) = cur_size g" if "heap_wf g" for g
    using that by (simp add: pending_def heap_wf_def)
  have "\<exists>h'. add_timer h p = Inr h' \<and> heap_wf h' \<and> pending h' = add_mset p (pending h) \<and>
      timers h' = timers h \<and>
      capacity h' = (if cur_size h = capacity h then 2 * capacity h else capacity h)"
    using room wf by (intro add_timer_correct) (auto simp: room_def)
  then obtain h' where h': "add_timer h p = Inr h'" "heap_wf h'" "pending h' = add_mset p (pending h)"
      "timers h' = timers h" "0 < capacity h'"
    using room by (auto simp: room_def split: if_splits)
  have "cur_size h' = Suc (cur_size h)" using sz [OF h'(2)] sz [OF wf] h'(3) by simp
  then have "room h' ps" using room h' by (auto simp: room_def)
  moreover have "due h' = due h" by (intro ext) (simp add: due_def h'(4))
  ultimately show "\<exists>h'. add_timer h p = Inr h' \<and> heap_wf h' \<and> pending h' = add_mset p (pending h) \<and>
      due h' = due h \<and> room h' ps"
    using h' by blast
qed

section \<open>Properties\<close>

text \<open>
  C19: timers added in any order to a fresh \<open>TimerHeap(cap)\<close> come out of \<open>top\<close>/\<open>pop\<close> sorted by their
  expiry, none lost and none twice, however often the array had to be doubled on the way; no null,
  dangling or out-of-bounds access happens.
\<close>

theorem timer_heap_sorts:
  assumes "0 < cap" "distinct ps" "\<forall>p \<in> set ps. is_live m p" "2 * int (length ps) \<le> INT_MAX"
  shows "\<exists>h h1 qs h2. TimerHeap_cap m cap = Inr h \<and> add_all (\<lambda>p h. add_timer h p) ps h = Inr h1 \<and>
    drain top pop (length ps) h1 = Inr (qs, h2) \<and> mset qs = mset ps \<and>
    sorted (map (expiry m) qs) \<and> heap_empty h2"
proof -
  obtain h where h: "TimerHeap_cap m cap = Inr h" "heap_wf h" "pending h = {#}"
      "capacity h = nat cap" "timers h = m"
    using TimerHeap_cap_wf [of cap m] assms(1) by auto
  then have "cur_size h = 0" by (auto simp: pending_def heap_wf_def)
  then have "room h ps" using h assms by (simp add: room_def)
  from timers_pq.sort_ok [OF h(2) this h(3)]
  obtain h1 qs h2 where r: "add_all (\<lambda>p h. add_timer h p) ps h = Inr h1"
      "drain top pop (length ps) h1 = Inr (qs, h2)" "mset qs = mset ps"
      "sorted (map (due h) qs)" "pending h2 = {#}"
    by blast
  obtain h1' where "add_all (\<lambda>p h. add_timer h p) ps h = Inr h1'" "heap_wf h1'" "pending h1' = mset ps"
    using timers_pq.add_all_ok [OF h(2) \<open>room h ps\<close>] h(3) by auto
  then obtain qs' h2' where "drain top pop (length ps) h1 = Inr (qs', h2')" "heap_wf h2'"
    using timers_pq.drain_ok [of h1 "length ps"] r(1) by auto
  then have "heap_empty h2"
    using r(2,5) by (auto simp: heap_empty_def pending_def heap_wf_def)
  moreover have "due h = expiry m" by (intro ext) (simp add: due_def h(5))
  ultimately show ?thesis using h(1) r by auto
qed

text \<open>Three timers for the witnesses, stored at the addresses 1, 2 and 3.\<close>

definition three_timers :: "timer store" where
  "three_timers = [1 \<mapsto> (Timer 30)\<lparr> cb_func := Some 7 \<rparr>, 2 \<mapsto> (Timer 10)\<lparr> cb_func := Some 7 \<rparr>,
     3 \<mapsto> (Timer 20)\<lparr> cb_func := Some 8 \<rparr>]"

lemma three_timers_live: "\<forall>p \<in> set [Ptr 1, Ptr 2, Ptr 3]. is_live three_timers p"
  by (simp add: is_live_def three_timers_def)

theorem timer_heap_sorts_witness:
  "\<exists>h h1 qs h2. TimerHeap_cap three_timers 1 = Inr h \<and>
    add_all (\<lambda>p h. add_timer h p) [Ptr 1, Ptr 2, Ptr 3] h = Inr h1 \<and>
    drain top pop (length [Ptr 1, Ptr 2, Ptr 3]) h1 = Inr (qs, h2) \<and>
    mset qs = mset [Ptr 1, Ptr 2, Ptr 3] \<and> sorted (map (expiry three_timers) qs) \<and> heap_empty h2"
  by (rule timer_heap_sorts [OF _ _ three_timers_live]) (simp_all add: INT_MAX_def)

text \<open>
  \<open>add_timer\<close> keeps the invariant of the heap, adds exactly the new timer, and doubles the
  capacity exactly when the array is full.
\<close>

lemma add_timer_preserves_wf:
  assumes "heap_wf h" "0 < capacity h" "2 * int (capacity h) \<le> INT_MAX"
    and "is_live (timers h) p" "p \<notin># pending h"
  shows "\<exists>h'. add_timer h p = Inr h' \<and> heap_wf h' \<and> pending h' = add_mset p (pending h) \<and>
    timers h' = timers h \<and>
    capacity h' = (if cur_size h = capacity h then 2 * capacity h else capacity h)"
  using assms by (intro add_timer_correct) auto

definition heap_one :: timer_heap where
  "heap_one = \<lparr> array = [Ptr 1], capacity = 1, cur_size = 1, timers = three_timers \<rparr>"

lemma heap_one_wf: "heap_wf heap_one"
  by (simp add: heap_wf_def heap_one_def live_def heap_from_def is_live_def three_timers_def)

lemma add_timer_preserves_wf_witness:
  "\<exists>h'. add_timer heap_one (Ptr 2) = Inr h' \<and> heap_wf h' \<and>
    pending h' = add_mset (Ptr 2) (pending heap_one) \<and> timers h' = timers heap_one \<and>
    capacity h' = (if cur_size heap_one = capacity heap_one then 2 * capacity heap_one
      else capacity heap_one)"
  by (rule add_timer_preserves_wf [OF heap_one_wf])
    (simp_all add: heap_one_def INT_MAX_def is_live_def three_timers_def pending_def)

text \<open>
  \<open>pop\<close> removes the timer with the least expiry, the one \<open>top\<close> returns, deletes its object and
  no other, and keeps the invariant.
\<close>

lemma pop_removes_least:
  assumes "heap_wf h" "\<not> heap_empty h"
  shows "\<exists>x h'. top h = Inr (Ptr x) \<and> pop h = Inr h' \<and> heap_wf h' \<and>
    pending h = add_mset (Ptr x) (pending h') \<and> timers h' = (timers h)(x := None) \<and>
    (\<forall>p \<in># pending h. due h (Ptr x) \<le> due h p)"
proof -
  have ne: "pending h \<noteq> {#}"
    using assms by (auto simp: heap_empty_def pending_def heap_wf_def)
  obtain x where x: "array h ! 0 = Ptr x"
    using heap_wf_top(4) [OF assms(1) ne] by (auto simp: is_live_def split: ptr.splits)
  obtain h' where h': "pop h = Inr h'" "heap_wf h'" "pending h = add_mset (array h ! 0) (pending h')"
    using pop_correct [OF assms(1) ne] by blast
  have "timers h' = (timers h)(x := None)"
    using h'(1) x assms(2)
    by (auto simp: pop_def heap_empty_def rd_def split: if_splits option.splits elim!: bindE_InrE)
  then show ?thesis
    using top_eq [OF assms(1) ne] heap_wf_top(5) [OF assms(1) ne] x h' by auto
qed

lemma pop_removes_least_witness:
  "\<exists>x h'. top heap_one = Inr (Ptr x) \<and> pop heap_one = Inr h' \<and> heap_wf h' \<and>
    pending heap_one = add_mset (Ptr x) (pending h') \<and> timers h' = (timers heap_one)(x := None) \<and>
    (\<forall>p \<in># pending heap_one. due heap_one (Ptr x) \<le> due heap_one p)"
  by (rule pop_removes_least [OF heap_one_wf]) (simp add: heap_one_def heap_empty_def)

text \<open>
  C20: \<open>tick\<close> returns; it runs the callbacks of exactly the timers that have expired, each once and
  in the order of their expiry, and leaves exactly the others in the heap.
\<close>

theorem tick_fires_expired:
  assumes "heap_wf h" "0 < capacity h"
  shows "\<exists>h' ps. tick cur h = Inr (h', concat (map (fire (timers h)) ps)) \<and> heap_wf h' \<and>
    mset ps = filter_mset (\<lambda>p. due h p \<le> cur) (pending h) \<and> sorted (map (due h) ps) \<and>
    pending h' = filter_mset (\<lambda>p. cur < due h p) (pending h)"
proof -
  obtain h' ps where t: "tick_loop cur h [] = Inr (h', concat (map (fire (timers h)) ps))"
      "heap_wf h'" "pending h = mset ps + pending h'" "\<forall>p \<in> set ps. due h p \<le> cur"
      "\<forall>p \<in># pending h'. cur < due h p" "sorted (map (due h) ps)"
    using tick_loop_correct [OF assms, of cur "[]"] by auto
  have "tick cur h = tick_loop cur h []"
    using assms by (simp add: tick_def heap_wf_def)
  moreover have "filter_mset (\<lambda>p. due h p \<le> cur) (pending h) = mset ps"
    using t(3-5) by (simp add: filter_mset_all filter_mset_none not_le)
  moreover have "filter_mset (\<lambda>p. cur < due h p) (pending h) = pending h'"
    using t(3-5) by (simp add: filter_mset_all filter_mset_none not_less)
  ultimately show ?thesis using t by auto
qed

theorem tick_fires_expired_witness:
  "\<exists>h' ps. tick 30 heap_one = Inr (h', concat (map (fire (timers heap_one)) ps)) \<and> heap_wf h' \<and>
    mset ps = filter_mset (\<lambda>p. due heap_one p \<le> 30) (pending heap_one) \<and>
    sorted (map (due heap_one) ps) \<and>
    pending h' = filter_mset (\<lambda>p. 30 < due heap_one p) (pending heap_one)"
  by (rule tick_fires_expired [OF heap_one_wf]) (simp add: heap_one_def)

text \<open>
  The constructor from an array of distinct timers and \<open>del_timer\<close> establish the heap order
  by percolating down from the last parent, and neither loses nor removes a timer: \<open>del_timer\<close>
  leaves the timer it is given in the heap.
\<close>

lemma heapify_constructor_and_del_timer:
  assumes "sz \<le> cap" "sz \<le> length ps" "distinct (take sz ps)"
    and "\<forall>p \<in> set (take sz ps). is_live m p" "t \<noteq> Null"
  shows "\<exists>h h'. TimerHeap_init m ps sz cap = Inr h \<and> heap_wf h \<and> pending h = mset (take sz ps) \<and>
    del_timer h t = Inr h' \<and> heap_wf h' \<and> pending h' = pending h"
  using TimerHeap_init_correct [OF assms(1-4)] del_timer_correct [OF _ assms(5)] by blast

lemma heapify_constructor_and_del_timer_witness:
  "\<exists>h h'. TimerHeap_init three_timers [Ptr 1, Ptr 2, Ptr 3] 3 4 = Inr h \<and> heap_wf h \<and>
    pending h = mset (take 3 [Ptr 1, Ptr 2, Ptr 3]) \<and>
    del_timer h (Ptr 2) = Inr h' \<and> heap_wf h' \<and> pending h' = pending h"
  by (rule heapify_constructor_and_del_timer) (use three_timers_live in simp_all)


text \<open>
  The destructor deletes exactly the timers of the heap, each once; the timers that were taken out or
  never added stay with their owner.
\<close>

lemma delete_loop_frees:
  "i + k \<le> length a \<Longrightarrow> distinct (take k (drop i a)) \<Longrightarrow> \<forall>p \<in> set (take k (drop i a)). is_live m p \<Longrightarrow>
   delete_loop a i k m = Inr (\<lambda>x. if Ptr x \<in> set (take k (drop i a)) then None else m x)"
proof (induction k arbitrary: i m)
  case 0
  then show ?case by simp
next
  case (Suc k)
  have d: "take (Suc k) (drop i a) = a ! i # take k (drop (Suc i) a)"
    using Suc.prems(1) by (simp add: Cons_nth_drop_Suc [symmetric])
  obtain x v where x: "a ! i = Ptr x" "m x = Some v"
    using Suc.prems(3) unfolding d by (auto simp: is_live_def split: ptr.splits)
  define m' where "m' = m(x := None)"
  have "\<forall>p \<in> set (take k (drop (Suc i) a)). is_live m' p"
    using Suc.prems(2,3) x(1) unfolding d by (auto simp: is_live_def m'_def split: ptr.splits)
  then have "delete_loop a (Suc i) k m' = Inr (\<lambda>y. if Ptr y \<in> set (take k (drop (Suc i) a)) then None else m' y)"
    using Suc.IH [of "Suc i" m'] Suc.prems(1,2) unfolding d by simp
  moreover have "free m (a ! i) = Inr m'" using x by (simp add: m'_def)
  ultimately show ?case
    using Suc.prems(1) x(1) unfolding d by (auto simp: rd_def m'_def fun_eq_iff)
qed

lemma destructor_deletes_pending:
  assumes "heap_wf h"
  shows "TimerHeap_dtor h = Inr (\<lambda>x. if Ptr x \<in># pending h then None else timers h x)"
  using assms delete_loop_frees [of 0 "cur_size h" "array h" "timers h"]
  by (simp add: TimerHeap_dtor_def heap_wf_def live_take_mset pending_def)

end
