(* ===== verification/SysCalls.thy ===== *)
theory SysCalls
  imports Reactor_Prelude "HOL-Library.Word"
begin

text \<open>
  What the program relies on of the operating system: event masks and interest lists of epoll, the
  results of reading and writing sockets, and file modes. The behaviour is the one the manual pages
  document.
\<close>

unbundle bit_operations_syntax

section \<open>Epoll\<close>

text \<open>The values of sys/epoll.h.\<close>

definition EPOLLIN :: "32 word" where "EPOLLIN = 0x001"
definition EPOLLPRI :: "32 word" where "EPOLLPRI = 0x002"
definition EPOLLOUT :: "32 word" where "EPOLLOUT = 0x004"
definition EPOLLERR :: "32 word" where "EPOLLERR = 0x008"
definition EPOLLHUP :: "32 word" where "EPOLLHUP = 0x010"
definition EPOLLRDHUP :: "32 word" where "EPOLLRDHUP = 0x2000"
definition EPOLLONESHOT :: "32 word" where "EPOLLONESHOT = 0x40000000"
definition EPOLLET :: "32 word" where "EPOLLET = 0x80000000"

lemmas epoll_masks = EPOLLIN_def EPOLLPRI_def EPOLLOUT_def EPOLLERR_def EPOLLHUP_def
  EPOLLRDHUP_def EPOLLONESHOT_def EPOLLET_def

text \<open>
  \<open>epoll_ctl\<close> on an interest list, which gives every registered descriptor its events and its user
  data: it fails and changes nothing when it adds a registered descriptor or modifies or deletes one
  that is not registered. The result says whether the call succeeds. The other errors of the manual
  page are not modelled: descriptors that are not open (theory CommonUtil adds that one for its
  callers), kinds of file that cannot be polled, and limits of memory and watches.
\<close>

datatype epoll_op = EPOLL_CTL_ADD | EPOLL_CTL_MOD | EPOLL_CTL_DEL

fun epoll_ctl :: "epoll_op \<Rightarrow> int \<Rightarrow> 32 word \<times> 'd \<Rightarrow> (int \<Rightarrow> (32 word \<times> 'd) option) \<Rightarrow>
    bool \<times> (int \<Rightarrow> (32 word \<times> 'd) option)" where
  "epoll_ctl EPOLL_CTL_ADD n ev k = (if k n = None then (True, k(n := Some ev)) else (False, k))"
| "epoll_ctl EPOLL_CTL_MOD n ev k = (if k n = None then (False, k) else (True, k(n := Some ev)))"
| "epoll_ctl EPOLL_CTL_DEL n ev k = (if k n = None then (False, k) else (True, k(n := None)))"

section \<open>Sockets\<close>

text \<open>
  A \<open>read\<close> finds characters (none of them: the peer has closed), would block, or fails. A \<open>write\<close>
  takes up to so many characters, would block, finds the connection reset, or fails otherwise.
\<close>

datatype read_result = Received string | Read_Blocks | Read_Fails
datatype write_result = Takes nat | Write_Blocks | Write_Reset | Write_Fails

section \<open>Files\<close>

text \<open>The bits of \<open>st_mode\<close> from sys/stat.h.\<close>

definition S_IROTH :: "32 word" where "S_IROTH = 0x4"
definition S_IFMT :: "32 word" where "S_IFMT = 0xF000"
definition S_IFDIR :: "32 word" where "S_IFDIR = 0x4000"
definition S_ISDIR :: "32 word \<Rightarrow> bool" where "S_ISDIR m \<longleftrightarrow> m AND S_IFMT = S_IFDIR"

end
