(* ===== verification/CommonUtil.thy ===== *)
theory CommonUtil
  imports SysCalls
begin

text \<open>
  src/CommonUtil.cc: the helpers of the v0.1 server around one epoll instance. The state is the
  interest list of the instance (with \<open>data.fd\<close>), the descriptors that are open, and those that are in
  non-blocking mode. Closing a descriptor takes it out of the interest list. Components of the v0.1
  server extend this record.
\<close>

record fd_world =
  interests :: "int \<Rightarrow> (32 word \<times> int) option"
  nonblock :: "int set"
  open_fds :: "int set"

definition epoll_ctl_fd :: "epoll_op \<Rightarrow> int \<Rightarrow> 32 word \<Rightarrow> 'a fd_world_scheme \<Rightarrow> 'a fd_world_scheme" where
  "epoll_ctl_fd op n ev w =
     (if n \<in> open_fds w then w\<lparr> interests := snd (epoll_ctl op n (ev, n) (interests w)) \<rparr> else w)"

definition close_fd :: "int \<Rightarrow> 'a fd_world_scheme \<Rightarrow> 'a fd_world_scheme" where
  "close_fd n w = w\<lparr> interests := (interests w)(n := None), nonblock := nonblock w - {n},
     open_fds := open_fds w - {n} \<rparr>"

text \<open>Of the flags only \<open>O_NONBLOCK\<close> is modelled; the result is whether it was set.\<close>

definition setNonBlock :: "int \<Rightarrow> 'a fd_world_scheme \<Rightarrow> bool \<times> 'a fd_world_scheme" where
  "setNonBlock n w = (n \<in> nonblock w,
     if n \<in> open_fds w then w\<lparr> nonblock := insert n (nonblock w) \<rparr> else w)"

definition addFd :: "int \<Rightarrow> bool \<Rightarrow> 'a fd_world_scheme \<Rightarrow> 'a fd_world_scheme" where
  "addFd n oneShot w =
     (let ev = EPOLLIN OR EPOLLET OR EPOLLRDHUP;
          ev = (if oneShot then ev OR EPOLLONESHOT else ev)
      in snd (setNonBlock n (epoll_ctl_fd EPOLL_CTL_ADD n ev w)))"

definition removeFd :: "int \<Rightarrow> 'a fd_world_scheme \<Rightarrow> 'a fd_world_scheme" where
  "removeFd n w = close_fd n (epoll_ctl_fd EPOLL_CTL_DEL n 0 w)"

definition modFd :: "int \<Rightarrow> 32 word \<Rightarrow> 'a fd_world_scheme \<Rightarrow> 'a fd_world_scheme" where
  "modFd n ev w = epoll_ctl_fd EPOLL_CTL_MOD n (ev OR EPOLLET OR EPOLLONESHOT OR EPOLLRDHUP) w"

section \<open>What the helpers do to the interest list\<close>

text \<open>
  Only open descriptors are registered, non-blocking, and registered under their own number.
\<close>

definition fds_ok :: "'a fd_world_scheme \<Rightarrow> bool" where
  "fds_ok w \<longleftrightarrow> (\<forall>n. interests w n \<noteq> None \<longrightarrow>
     n \<in> open_fds w \<and> n \<in> nonblock w \<and> snd (the (interests w n)) = n)"

definition listening :: "32 word \<Rightarrow> int \<Rightarrow> 'a fd_world_scheme \<Rightarrow> bool" where
  "listening ev n w \<longleftrightarrow>
     interests w n = Some (ev OR EPOLLET OR EPOLLONESHOT OR EPOLLRDHUP, n)"

lemma fds_okD:
  "fds_ok w \<Longrightarrow> interests w n = Some e \<Longrightarrow> n \<in> open_fds w"
  "fds_ok w \<Longrightarrow> interests w n = Some e \<Longrightarrow> n \<in> nonblock w"
  "fds_ok w \<Longrightarrow> interests w n = Some e \<Longrightarrow> snd e = n"
  unfolding fds_ok_def by (metis option.distinct(1) option.sel)+

lemma modFd_registered:
  assumes "fds_ok w" "interests w n \<noteq> None"
  shows "modFd n ev w = w\<lparr> interests := (interests w)(n \<mapsto>
    (ev OR EPOLLET OR EPOLLONESHOT OR EPOLLRDHUP, n)) \<rparr>"
  using assms fds_okD(1) [OF assms(1)] by (fastforce simp: modFd_def epoll_ctl_fd_def)

lemma modFd_unregistered: "interests w n = None \<Longrightarrow> modFd n ev w = w"
  by (simp add: modFd_def epoll_ctl_fd_def)

lemma fds_ok_modFd: "fds_ok w \<Longrightarrow> fds_ok (modFd n ev w)"
  by (cases "interests w n = None") (auto simp: modFd_unregistered modFd_registered fds_ok_def)

lemma fds_ok_close: "fds_ok w \<Longrightarrow> fds_ok (close_fd n w)"
  by (auto simp: fds_ok_def close_fd_def)

lemma fds_ok_addFd: "fds_ok w \<Longrightarrow> fds_ok (addFd n os w)"
  by (auto simp: fds_ok_def addFd_def setNonBlock_def epoll_ctl_fd_def Let_def)

lemma fds_ok_removeFd: "fds_ok w \<Longrightarrow> fds_ok (removeFd n w)"
  by (auto simp: fds_ok_def removeFd_def epoll_ctl_fd_def close_fd_def)

lemma modFd_listening: "fds_ok w \<Longrightarrow> interests w n \<noteq> None \<Longrightarrow> listening ev n (modFd n ev w)"
  by (simp add: listening_def modFd_registered)

lemma addFd_listening:
  "n \<in> open_fds w \<Longrightarrow> interests w n = None \<Longrightarrow> listening EPOLLIN n (addFd n True w)"
  by (simp add: listening_def addFd_def setNonBlock_def epoll_ctl_fd_def Let_def ac_simps)

lemma removeFd_unregisters:
  "interests (removeFd n w) n = None" "n \<notin> open_fds (removeFd n w)"
  "m \<noteq> n \<Longrightarrow> interests (removeFd n w) m = interests w m"
  by (simp_all add: removeFd_def close_fd_def epoll_ctl_fd_def)

end
