(* ===== verification/CLib.thy ===== *)
theory CLib
  imports Reactor_Prelude
begin

text \<open>
  What the program uses of the C and C++ string libraries: character classes of the C locale,
  searching in a range, C strings (read up to their terminating zero) inside a character buffer,
  and decimal conversion. A range \<open>[begin, end)\<close> is the list of its characters.
\<close>

section \<open>Characters\<close>

abbreviation NUL :: char where "NUL \<equiv> CHR 0x00"
abbreviation TAB :: char where "TAB \<equiv> CHR 0x09"
abbreviation LF :: char where "LF \<equiv> CHR 0x0A"
abbreviation CR :: char where "CR \<equiv> CHR 0x0D"
abbreviation SP :: char where "SP \<equiv> CHR 0x20"
abbreviation CRLF :: string where "CRLF \<equiv> [CR, LF]"

definition isspace :: "char \<Rightarrow> bool" where
  "isspace c \<longleftrightarrow> c = SP \<or> c = TAB \<or> c = LF \<or> c = CHR 0x0B \<or> c = CHR 0x0C \<or> c = CR"

definition isblank :: "char \<Rightarrow> bool" where
  "isblank c \<longleftrightarrow> c = SP \<or> c = TAB"

lemma not_isspace_NUL [simp]: "\<not> isspace NUL"
  by (simp add: isspace_def)

definition to_lower :: "char \<Rightarrow> char" where
  "to_lower c = (if 65 \<le> (of_char c :: nat) \<and> (of_char c :: nat) \<le> 90
     then char_of ((of_char c :: nat) + 32) else c)"

section \<open>Searching in a range\<close>

text \<open>
  \<open>std::find(begin, end, c)\<close> splits the range into the part before the first \<open>c\<close> and the rest;
  the result is \<open>end\<close> iff the rest is empty.
\<close>

definition before :: "char \<Rightarrow> string \<Rightarrow> string" where
  "before c xs = takeWhile (\<lambda>x. x \<noteq> c) xs"

definition from_char :: "char \<Rightarrow> string \<Rightarrow> string" where
  "from_char c xs = dropWhile (\<lambda>x. x \<noteq> c) xs"

lemma before_from_char: "before c xs @ from_char c xs = xs"
  by (simp add: before_def from_char_def)

lemma before_append [simp]: "c \<notin> set xs \<Longrightarrow> before c (xs @ c # ys) = xs"
  unfolding before_def by (induction xs) auto

lemma from_char_append [simp]: "c \<notin> set xs \<Longrightarrow> from_char c (xs @ c # ys) = c # ys"
  unfolding from_char_def by (induction xs) auto

lemma before_all [simp]: "c \<notin> set xs \<Longrightarrow> before c xs = xs"
  by (auto simp: before_def takeWhile_eq_all_conv)

lemma from_char_none [simp]: "c \<notin> set xs \<Longrightarrow> from_char c xs = []"
  by (auto simp: from_char_def)

lemma from_char_nonempty: "from_char c xs \<noteq> [] \<longleftrightarrow> c \<in> set xs"
  by (auto simp: from_char_def)

section \<open>Slices of a buffer\<close>

text \<open>
  The characters of a buffer from \<open>i\<close> on, \<open>n\<close> of them; reading outside the buffer is an error.
\<close>

definition slice :: "string \<Rightarrow> nat \<Rightarrow> nat \<Rightarrow> string res" where
  "slice b i n = (if i + n \<le> length b then Inr (take n (drop i b)) else Inl Out_Of_Bounds)"

lemma slice_in [simp]: "i + n \<le> length b \<Longrightarrow> slice b i n = Inr (take n (drop i b))"
  by (simp add: slice_def)

section \<open>Numbers\<close>

text \<open>\<open>%d\<close> and \<open>std::to_string\<close>.\<close>

fun decimal_nat :: "nat \<Rightarrow> string" where
  "decimal_nat n = (if n < 10 then [char_of (48 + n)]
     else decimal_nat (n div 10) @ [char_of (48 + n mod 10)])"

declare decimal_nat.simps [simp del]

definition decimal :: "int \<Rightarrow> string" where
  "decimal i = (if i < 0 then CHR ''-'' # decimal_nat (nat (- i)) else decimal_nat (nat i))"

text \<open>The value of a string of digits, as \<open>atoi\<close> and \<open>atol\<close> read it.\<close>

definition isdigit :: "char \<Rightarrow> bool" where
  "isdigit c \<longleftrightarrow> 48 \<le> (of_char c :: nat) \<and> (of_char c :: nat) \<le> 57"

definition digit_value :: "char \<Rightarrow> nat" where
  "digit_value c = of_char c - 48"

definition number_of :: "string \<Rightarrow> nat" where
  "number_of ds = foldl (\<lambda>n c. 10 * n + digit_value c) 0 ds"

lemma number_of_snoc: "number_of (ds @ [c]) = 10 * number_of ds + digit_value c"
  by (simp add: number_of_def)

lemma digit_char: "d < 10 \<Longrightarrow> isdigit (char_of (48 + d)) \<and> digit_value (char_of (48 + d)) = d"
  by (simp add: isdigit_def digit_value_def)

lemma decimal_nat_digits: "c \<in> set (decimal_nat n) \<Longrightarrow> isdigit c"
proof (induction n rule: decimal_nat.induct)
  case (1 n)
  then show ?case
    by (auto simp: decimal_nat.simps [of n] digit_char split: if_splits)
qed

lemma number_of_decimal_nat: "number_of (decimal_nat n) = n"
proof (induction n rule: decimal_nat.induct)
  case (1 n)
  show ?case
  proof (cases "n < 10")
    case True
    then show ?thesis by (simp add: decimal_nat.simps [of n] number_of_def digit_char)
  next
    case False
    then show ?thesis
      using "1.IH" by (simp add: decimal_nat.simps [of n] number_of_snoc digit_char)
  qed
qed

lemma decimal_nat_inj: "decimal_nat m = decimal_nat n \<Longrightarrow> m = n"
  using number_of_decimal_nat by metis

lemma decimal_nat_nonempty [simp]: "decimal_nat n \<noteq> []"
  by (subst decimal_nat.simps) simp

end
