(* ===== verification/CString.thy ===== *)
theory CString
  imports CLib
begin

text \<open>
  C strings in memory: the functions of string.h and stdlib.h that the program calls, on the
  characters from the address of the string to the end of the array it lies in. Each one reads
  exactly as far as the C function does and fails with \<open>Out_Of_Bounds\<close> when it runs off the array.
\<close>

section \<open>The functions\<close>

text \<open>\<open>%s\<close>, \<open>strlen\<close>: everything up to the terminating zero.\<close>

definition cstr :: "string \<Rightarrow> string res" where
  "cstr m = (if NUL \<in> set m then Inr (before NUL m) else Inl Out_Of_Bounds)"

text \<open>
  \<open>strpbrk(s, " \<backslash>t")\<close> and \<open>strchr(s, c)\<close>: the distance to the first such character, if the string
  has one; \<open>strspn(s, " \<backslash>t")\<close>: the length of the blanks at the beginning.
\<close>

definition find_in :: "(char \<Rightarrow> bool) \<Rightarrow> string \<Rightarrow> nat option res" where
  "find_in P m = (case dropWhile (\<lambda>c. c \<noteq> NUL \<and> \<not> P c) m of
     [] \<Rightarrow> Inl Out_Of_Bounds
   | c # _ \<Rightarrow> Inr (if c = NUL then None else Some (length (takeWhile (\<lambda>c. c \<noteq> NUL \<and> \<not> P c) m))))"

definition strspn_blank :: "string \<Rightarrow> nat res" where
  "strspn_blank m = (if dropWhile isblank m = [] then Inl Out_Of_Bounds
     else Inr (length (takeWhile isblank m)))"

text \<open>\<open>strcasecmp(s, d) == 0\<close> and \<open>strncasecmp(s, d, strlen(d)) == 0\<close> for a literal \<open>d\<close>.\<close>

fun strcasecmp :: "string \<Rightarrow> string \<Rightarrow> bool res" where
  "strcasecmp [] d = Inl Out_Of_Bounds"
| "strcasecmp (c # m) [] = Inr (c = NUL)"
| "strcasecmp (c # m) (e # d) =
     (if to_lower c = to_lower e then strcasecmp m d else Inr False)"

fun strncasecmp :: "string \<Rightarrow> string \<Rightarrow> bool res" where
  "strncasecmp m [] = Inr True"
| "strncasecmp [] (e # d) = Inl Out_Of_Bounds"
| "strncasecmp (c # m) (e # d) =
     (if to_lower c = to_lower e then strncasecmp m d else Inr False)"

text \<open>The characters \<open>strncpy(dst, s, n)\<close> takes from \<open>s\<close>; the rest of the \<open>n\<close> is filled with zeros.\<close>

definition strncpy_from :: "string \<Rightarrow> nat \<Rightarrow> string res" where
  "strncpy_from m n = (if NUL \<in> set (take n m) \<or> n \<le> length m then Inr (before NUL (take n m))
     else Inl Out_Of_Bounds)"

text \<open>
  \<open>atol\<close>, which in the C library of the platform gives the nearest \<open>long\<close> when the number does not
  fit, and the conversion of a \<open>long\<close> to an \<open>int\<close>, which keeps the low 32 bits.
\<close>

definition LONG_MAX :: int where "LONG_MAX = 9223372036854775807"
definition LONG_MIN :: int where "LONG_MIN = - 9223372036854775808"

definition sign_of :: "string \<Rightarrow> bool \<times> string" where
  "sign_of s = (case s of c # r \<Rightarrow> if c = CHR ''-'' then (True, r) else if c = CHR ''+'' then (False, r)
       else (False, s) | [] \<Rightarrow> (False, []))"

definition long_of :: "string \<Rightarrow> int" where
  "long_of s = (let (neg, t) = sign_of (dropWhile isspace s);
       v = int (number_of (takeWhile isdigit t)); v = (if neg then - v else v)
     in max LONG_MIN (min LONG_MAX v))"

definition atol :: "string \<Rightarrow> int res" where
  "atol m = (if dropWhile isdigit (snd (sign_of (dropWhile isspace m))) = [] then Inl Out_Of_Bounds
     else Inr (long_of m))"

definition to_int :: "int \<Rightarrow> int" where
  "to_int v = (v + 2147483648) mod 4294967296 - 2147483648"

section \<open>What they compute on a terminated string\<close>

text \<open>\<open>m\<close> starts with the C string \<open>s\<close>.\<close>

definition starts_with :: "string \<Rightarrow> string \<Rightarrow> bool" where
  "starts_with s m \<longleftrightarrow> NUL \<notin> set s \<and> (\<exists>r. m = s @ NUL # r)"

lemma starts_with_cstr: "starts_with s m \<Longrightarrow> cstr m = Inr s"
  by (auto simp: starts_with_def cstr_def)

lemma cstr_starts_with: "cstr m = Inr s \<Longrightarrow> starts_with s m"
proof -
  assume a: "cstr m = Inr s"
  then have m: "NUL \<in> set m" and s: "s = before NUL m" by (auto simp: cstr_def split: if_splits)
  then obtain r where "from_char NUL m = NUL # r"
    using from_char_nonempty [of NUL m] by (cases "from_char NUL m")
      (auto simp: from_char_def dropWhile_eq_Cons_conv)
  then have "m = s @ NUL # r" using before_from_char [of NUL m] s by simp
  moreover have "NUL \<notin> set s" using s by (auto simp: before_def dest: set_takeWhileD)
  ultimately show ?thesis by (auto simp: starts_with_def)
qed

lemma starts_with_drop: "starts_with (s @ t) m \<Longrightarrow> starts_with t (drop (length s) m)"
  by (auto simp: starts_with_def)

lemma starts_with_Nil: "starts_with [] (NUL # r)"
  by (simp add: starts_with_def)

lemma find_in_string:
  assumes "starts_with s m" "\<not> P NUL"
  shows "find_in P m = Inr (if \<exists>c \<in> set s. P c then Some (length (takeWhile (\<lambda>c. \<not> P c) s)) else None)"
proof -
  obtain r where m: "m = s @ NUL # r" and n: "NUL \<notin> set s"
    using assms(1) by (auto simp: starts_with_def)
  have t: "takeWhile (\<lambda>c. c \<noteq> NUL \<and> \<not> P c) (s @ NUL # r) = takeWhile (\<lambda>c. \<not> P c) s"
    using n by (induction s) auto
  have d: "dropWhile (\<lambda>c. c \<noteq> NUL \<and> \<not> P c) (s @ NUL # r) = dropWhile (\<lambda>c. \<not> P c) s @ NUL # r"
    using n by (induction s) auto
  show ?thesis
  proof (cases "\<exists>c \<in> set s. P c")
    case True
    then obtain c u where "dropWhile (\<lambda>c. \<not> P c) s = c # u"
      by (cases "dropWhile (\<lambda>c. \<not> P c) s") (auto simp: dropWhile_eq_Nil_conv)
    moreover from this have "c \<in> set s" by (metis list.set_intros(1) set_dropWhileD)
    ultimately show ?thesis using True n by (auto simp: find_in_def m t d)
  next
    case False
    have "dropWhile (\<lambda>c. \<not> P c) s = []" using False by (induction s) auto
    then have "dropWhile (\<lambda>c. c \<noteq> NUL \<and> \<not> P c) m = NUL # r" using d m by simp
    then show ?thesis using False by (simp add: find_in_def)
  qed
qed

lemma strspn_string:
  assumes "starts_with s m"
  shows "strspn_blank m = Inr (length (takeWhile isblank s))"
proof -
  obtain r where m: "m = s @ NUL # r" using assms by (auto simp: starts_with_def)
  have "takeWhile isblank (s @ NUL # r) = takeWhile isblank s"
    "dropWhile isblank (s @ NUL # r) \<noteq> []"
    by (induction s) (auto simp: isblank_def)
  then show ?thesis by (simp add: strspn_blank_def m)
qed

definition lower :: "string \<Rightarrow> string" where
  "lower s = map to_lower s"

lemma to_lower_NUL [simp]: "to_lower c = to_lower NUL \<longleftrightarrow> c = NUL" "to_lower NUL = to_lower c \<longleftrightarrow> c = NUL"
proof -
  have "to_lower c = to_lower NUL \<longleftrightarrow> c = NUL"
  proof (cases "65 \<le> (of_char c :: nat) \<and> (of_char c :: nat) \<le> 90")
    case True
    have z: "to_lower NUL = NUL" by (simp add: to_lower_def)
    have "(of_char (to_lower c) :: nat) = of_char c + 32" using True by (simp add: to_lower_def)
    then have "to_lower c \<noteq> NUL" "c \<noteq> NUL" using True by auto
    then show ?thesis by (simp only: z) 
  next
    case False
    then show ?thesis by (auto simp: to_lower_def)
  qed
  then show "to_lower c = to_lower NUL \<longleftrightarrow> c = NUL" "to_lower NUL = to_lower c \<longleftrightarrow> c = NUL" by auto
qed

lemma strcasecmp_string:
  "starts_with s m \<Longrightarrow> NUL \<notin> set d \<Longrightarrow> strcasecmp m d = Inr (lower s = lower d)"
proof (induction m d arbitrary: s rule: strcasecmp.induct)
  case (1 d)
  then show ?case by (simp add: starts_with_def)
next
  case (2 c m)
  then show ?case by (cases s) (auto simp: starts_with_def lower_def)
next
  case (3 c m e d)
  show ?case
  proof (cases s)
    case Nil
    then have "c = NUL" using 3 by (simp add: starts_with_def)
    then show ?thesis using 3 Nil by (auto simp: lower_def)
  next
    case (Cons x s')
    then have x: "x = c" "starts_with s' m" using 3 by (auto simp: starts_with_def)
    then show ?thesis using 3 Cons by (auto simp: lower_def)
  qed
qed

lemma strncasecmp_string:
  "starts_with s m \<Longrightarrow> NUL \<notin> set d \<Longrightarrow>
   strncasecmp m d = Inr (lower (take (length d) s) = lower d)"
proof (induction m d arbitrary: s rule: strncasecmp.induct)
  case (1 m)
  then show ?case by (simp add: lower_def)
next
  case (2 e d)
  then show ?case by (simp add: starts_with_def)
next
  case (3 c m e d)
  show ?case
  proof (cases s)
    case Nil
    then have "c = NUL" using 3 by (simp add: starts_with_def)
    then show ?thesis using 3 Nil by (auto simp: lower_def)
  next
    case (Cons x s')
    then have x: "x = c" "starts_with s' m" using 3 by (auto simp: starts_with_def)
    then show ?thesis using 3 Cons by (auto simp: lower_def)
  qed
qed

lemma strncpy_string:
  assumes "starts_with s m"
  shows "strncpy_from m n = Inr (take n s)"
proof -
  obtain r where m: "m = s @ NUL # r" and n: "NUL \<notin> set s" using assms by (auto simp: starts_with_def)
  show ?thesis
  proof (cases "n \<le> length s")
    case True
    then have "NUL \<notin> set (take n s)" using n by (auto dest: in_set_takeD)
    then show ?thesis using True by (simp add: strncpy_from_def m)
  next
    case False
    then have "take n m = s @ NUL # take (n - length s - 1) r"
      by (simp add: m) (metis Suc_diff_Suc diff_Suc_1 not_le take_Suc_Cons)
    then show ?thesis using False n by (simp add: strncpy_from_def)
  qed
qed

lemma atol_string:
  assumes "starts_with s m"
  shows "atol m = Inr (long_of s)"
proof -
  obtain r where m: "m = s @ NUL # r" using assms by (auto simp: starts_with_def)
  have d: "dropWhile isspace m = dropWhile isspace s @ NUL # r"
    unfolding m by (induction s) auto
  have sg: "sign_of (u @ NUL # r) = (fst (sign_of u), snd (sign_of u) @ NUL # r)" for u
    by (cases u) (auto simp: sign_of_def)
  have dg: "takeWhile isdigit (u @ NUL # r) = takeWhile isdigit u"
    "dropWhile isdigit (u @ NUL # r) \<noteq> []" for u
    by (induction u) (auto simp: isdigit_def)
  have "long_of m = long_of s"
    by (cases "sign_of (dropWhile isspace s)") (simp add: long_of_def d sg dg(1) Let_def)
  moreover have "dropWhile isdigit (snd (sign_of (dropWhile isspace m))) \<noteq> []"
    unfolding d sg snd_conv by (rule dg(2))
  ultimately show ?thesis by (simp add: atol_def)
qed

lemma long_of_range: "LONG_MIN \<le> long_of s \<and> long_of s \<le> LONG_MAX"
  by (simp add: long_of_def Let_def case_prod_beta LONG_MIN_def LONG_MAX_def)

lemma to_int_range: "INT_MIN \<le> to_int v \<and> to_int v \<le> INT_MAX"
  by (simp add: to_int_def INT_MIN_def INT_MAX_def) 

lemma to_int_id: "INT_MIN \<le> v \<Longrightarrow> v \<le> INT_MAX \<Longrightarrow> to_int v = v"
  by (simp add: to_int_def INT_MIN_def INT_MAX_def)

end
