(* ===== verification/HttpTypes.thy ===== *)
theory HttpTypes
  imports CLib
begin

text \<open>
  The enumerations of src/CommonUtil.h, the texts of src/CommonUtil.cc that responses are made of,
  and the loop \<open>parseLine\<close> that finds the end of a line in a buffer, which \<open>HttpContext\<close> and
  \<open>HttpConn\<close> share word for word.
\<close>

section \<open>Enumerations\<close>

datatype http_method = GET | POST | HEAD | PUT | DELETE | TRACE | OPTIONS | CONNECT | PATCH

datatype check_state = CHECK_STATE_REQUESTLINE | CHECK_STATE_HEADER | CHECK_STATE_CONTENT

text \<open>The source's \<open>_REQUEST\<close> is \<open>UNNAMED_REQUEST\<close>.\<close>

datatype http_code = NO_REQUEST | GET_REQUEST | BAD_REQUEST | NO_RESOURCE | FORBIDDEN_REQUEST
  | UNNAMED_REQUEST | FILE_REQUEST | INTERNAL_ERROR | CLOSED_CONNECTION

datatype line_status = LINE_OK | LINE_BAD | LINE_OPEN

datatype http_version = UNKNOW | HTTP10 | HTTP11

section \<open>Texts\<close>

definition ok_200_title :: string where "ok_200_title = ''OK''"
definition ok_200_form :: string where "ok_200_form = ''OK''"
definition error_400_title :: string where "error_400_title = ''Bad Request''"
definition error_400_form :: string where
  "error_400_form = ''Your request has bad syntax or is inherently impossible to satisfy.'' @ [LF]"
definition error_403_title :: string where "error_403_title = ''Forbidden''"
definition error_403_form :: string where
  "error_403_form = ''You do not have permission to get file from this server.'' @ [LF]"
definition error_404_title :: string where "error_404_title = ''Not Found''"
definition error_404_form :: string where
  "error_404_form = ''The request file was not found on this server.'' @ [LF]"
definition error_500_title :: string where "error_500_title = ''Internal Error''"
definition error_500_form :: string where
  "error_500_form = ''There was an unusual problem serving the request file.'' @ [LF]"

section \<open>Finding the end of a line\<close>

text \<open>
  \<open>parse_line b r c\<close> is the loop with \<open>buf_ = b\<close>, \<open>readIdx_ = r\<close> and \<open>checkedIdx_ = c\<close>; it yields
  the status, the buffer with the line's end overwritten by zeros, and the new \<open>checkedIdx_\<close>.
\<close>

function parse_line :: "string \<Rightarrow> nat \<Rightarrow> nat \<Rightarrow> (line_status \<times> string \<times> nat) res" where
  "parse_line b r c =
     (if c < r then
        bindE (rd b c) (\<lambda>tmp.
          if tmp = CR then
            if c + 1 = r then Inr (LINE_OPEN, b, c)
            else bindE (rd b (c + 1)) (\<lambda>nxt.
              if nxt = LF then
                bindE (wr b c NUL) (\<lambda>b. bindE (wr b (c + 1) NUL) (\<lambda>b. Inr (LINE_OK, b, c + 2)))
              else Inr (LINE_BAD, b, c))
          else if tmp = LF then
            bindE (if c > 1 then rd b (c - 1) else Inr NUL) (\<lambda>prv.
              if c > 1 \<and> prv = CR then
                bindE (wr b (c - 1) NUL) (\<lambda>b. bindE (wr b c NUL) (\<lambda>b. Inr (LINE_OK, b, c + 1)))
              else Inr (LINE_BAD, b, c))
          else parse_line b r (c + 1))
      else Inr (LINE_OPEN, b, c))"
  by pat_completeness auto
termination by (relation "measure (\<lambda>(b, r, c). r - c)") auto

declare parse_line.simps [simp del]

text \<open>What the loop promises, on the characters that are still to be read.\<close>

definition line_of :: "string \<Rightarrow> string" where
  "line_of t = takeWhile (\<lambda>c. c \<noteq> CR \<and> c \<noteq> LF) t"

definition line_end :: "string \<Rightarrow> string" where
  "line_end t = dropWhile (\<lambda>c. c \<noteq> CR \<and> c \<noteq> LF) t"

definition line_status_of :: "string \<Rightarrow> line_status" where
  "line_status_of t = (case line_end t of
     [] \<Rightarrow> LINE_OPEN
   | [c] \<Rightarrow> if c = CR then LINE_OPEN else LINE_BAD
   | c # d # _ \<Rightarrow> if c = CR \<and> d = LF then LINE_OK else LINE_BAD)"

lemma line_of_simps [simp]:
  "line_of [] = []"
  "line_of (c # t) = (if c = CR \<or> c = LF then [] else c # line_of t)"
  by (auto simp: line_of_def)

lemma line_end_simps [simp]:
  "line_end [] = []"
  "line_end (c # t) = (if c = CR \<or> c = LF then c # t else line_end t)"
  by (auto simp: line_end_def)

lemma line_status_of_skip [simp]:
  "c \<noteq> CR \<Longrightarrow> c \<noteq> LF \<Longrightarrow> line_status_of (c # t) = line_status_of t"
  by (simp add: line_status_of_def)

lemma line_of_no_break: "c \<in> set (line_of t) \<Longrightarrow> c \<noteq> CR \<and> c \<noteq> LF"
  by (auto simp: line_of_def dest: set_takeWhileD)

lemma line_of_end: "line_of t @ line_end t = t"
  by (simp add: line_of_def line_end_def)

lemma line_of_append [simp]:
  "CR \<notin> set l \<Longrightarrow> LF \<notin> set l \<Longrightarrow> line_of (l @ CR # t) = l"
  by (induction l) auto

lemma line_end_append [simp]:
  "CR \<notin> set l \<Longrightarrow> LF \<notin> set l \<Longrightarrow> line_end (l @ CR # t) = CR # t"
  by (induction l) auto

lemma line_status_append [simp]:
  "CR \<notin> set l \<Longrightarrow> LF \<notin> set l \<Longrightarrow> line_status_of (l @ CR # LF # t) = LINE_OK"
  by (simp add: line_status_of_def)

lemma line_status_OK: "line_status_of t = LINE_OK \<longleftrightarrow> (\<exists>rest. t = line_of t @ CR # LF # rest)"
proof
  assume "line_status_of t = LINE_OK"
  then obtain rest where "line_end t = CR # LF # rest"
    by (auto simp: line_status_of_def split: list.splits if_splits)
  then show "\<exists>rest. t = line_of t @ CR # LF # rest" using line_of_end [of t] by metis
next
  assume "\<exists>rest. t = line_of t @ CR # LF # rest"
  then obtain rest where "t = line_of t @ CR # LF # rest" by blast
  then show "line_status_of t = LINE_OK"
    using line_status_append line_of_no_break by metis
qed

lemma line_OK_shrinks:
  assumes "line_status_of t = LINE_OK"
  shows "length (drop (length (line_of t) + 2) t) < length t"
proof -
  have "t \<noteq> []" using assms by (auto simp: line_status_of_def)
  then show ?thesis by simp
qed

lemma parse_line_spec:
  assumes "c \<le> r" "r \<le> length b" "c = 0 \<or> b ! (c - 1) \<noteq> CR"
  shows "let t = drop c (take r b); n = c + length (line_of t) in
    parse_line b r c = Inr (case line_status_of t of
        LINE_OK \<Rightarrow> (LINE_OK, b[n := NUL, n + 1 := NUL], n + 2)
      | s \<Rightarrow> (s, b, n))"
  using assms
proof (induction "r - c" arbitrary: c)
  case 0
  then show ?case by (simp add: parse_line.simps [of b c c] line_status_of_def)
next
  case (Suc k)
  then have lt: "c < r" by simp
  then have t: "drop c (take r b) = b ! c # drop (c + 1) (take r b)"
    using Suc.prems(2) by (simp add: Cons_nth_drop_Suc [symmetric])
  consider "b ! c = CR" | "b ! c = LF" | "b ! c \<noteq> CR" "b ! c \<noteq> LF" by blast
  then show ?case
  proof cases
    case 1
    show ?thesis
    proof (cases "c + 1 = r")
      case True
      then have "drop (c + 1) (take r b) = []" by simp
      then show ?thesis
        using t 1 lt Suc.prems(2) True
        by (simp add: parse_line.simps [of b r c] line_status_of_def)
    next
      case False
      then have "drop (c + 1) (take r b) = b ! (c + 1) # drop (c + 2) (take r b)"
        using lt Suc.prems(2) by (simp add: Cons_nth_drop_Suc [symmetric])
      then show ?thesis
        using t 1 lt Suc.prems(2) False
        by (simp add: parse_line.simps [of b r c] line_status_of_def)
    qed
  next
    case 2
    have "b ! (c - 1) \<noteq> CR" if "c > 1" using Suc.prems(3) that by simp
    then show ?thesis
      using t 2 lt Suc.prems(2)
      by (auto simp: parse_line.simps [of b r c] line_status_of_def split: list.splits)
  next
    case 3
    have "parse_line b r c = parse_line b r (c + 1)"
      using 3 lt Suc.prems(2) by (simp add: parse_line.simps [of b r c])
    moreover have "k = r - (c + 1)" using Suc.hyps(2) by simp
    ultimately show ?thesis
      using Suc.hyps(1) [of "c + 1"] lt Suc.prems(2) 3 t
      by (simp add: Let_def split: line_status.split)
  qed
qed

lemma parse_line_progress:
  "parse_line b r c = Inr (s, b', c') \<Longrightarrow>
   length b' = length b \<and> c \<le> c' \<and> (s = LINE_OK \<longrightarrow> c < c' \<and> c < r)"
proof (induction b r c arbitrary: b' c' rule: parse_line.induct)
  case (1 b r c)
  show ?case
  proof (cases "c < r \<and> rd b c \<noteq> Inl Out_Of_Bounds \<and> b ! c \<noteq> CR \<and> b ! c \<noteq> LF")
    case True
    then have rd: "rd b c = Inr (b ! c)" by (auto simp: rd_def split: if_splits)
    have "parse_line b r (c + 1) = Inr (s, b', c')"
      using "1.prems" True rd by (simp add: parse_line.simps [of b r c])
    then show ?thesis using "1.IH" [of "b ! c"] True rd by fastforce
  next
    case False
    then show ?thesis
      using "1.prems"
      by (auto simp: parse_line.simps [of b r c] rd_def wr_def bindE_eq_Inr split: if_splits)
  qed
qed

end
