(* ===== verification/HttpConn.thy ===== *)
theory HttpConn
  imports CommonUtil CString HttpTypes
begin

text \<open>
  src/HttpConn.h and src/HttpConn.cc: the connection of the v0.1 server, which reads a request into a
  fixed buffer, parses it in place, maps the requested file into memory and writes the answer. The
  pointers \<open>url\<close>, \<open>version\<close>, \<open>host\<close> and the local \<open>text\<close> point into \<open>readBuf\<close> and are positions
  there, \<open>None\<close> being null. What \<open>stat\<close> says of a file (mode and size) and what the file contains (if
  it can be opened) are the arguments \<open>st\<close> and \<open>cont\<close>; both get the name as the C string the system
  calls see.
\<close>

section \<open>State\<close>

definition FILENAME_LEN :: nat where "FILENAME_LEN = 200"
definition READ_BUFFER_SIZE :: nat where "READ_BUFFER_SIZE = 2048"
definition WRITE_BUFFER_SIZE :: nat where "WRITE_BUFFER_SIZE = 1024"

definition docRoot :: string where "docRoot = ''/work''"

text \<open>
  \<open>fileAddress\<close>: null, what \<open>mmap\<close> mapped, or the value \<open>MAP_FAILED\<close>. An entry of \<open>iv\<close> points to the
  write buffer or to the mapped file; \<open>iv\<close> holds the first \<open>ivCount\<close> of them.
\<close>

datatype mapping = NullMap | Mapped string | MapFailed

datatype iov_base = WriteBuf | FileMap

record http_conn =
  sockFd :: int
  readBuf :: string
  readIdx :: nat
  startLine :: nat
  checkedIdx :: nat
  checkState :: check_state
  writeBuf :: string
  writeIdx :: nat
  conn_method :: http_method
  url :: "nat option"
  version :: "nat option"
  host :: "nat option"
  contentLength :: int
  linger :: bool
  readFile :: string
  fileAddress :: mapping
  st_mode :: "32 word"
  st_size :: nat
  iv :: "(iov_base \<times> nat) list"

text \<open>
  The static members and the world: for each socket what the next calls of \<open>recv\<close> and \<open>writev\<close> find
  and what was sent. When no result is left a call would block.
\<close>

record conn_world = fd_world +
  userCount :: int
  recvs :: "int \<Rightarrow> read_result list"
  writevs :: "int \<Rightarrow> write_result list"
  out :: "int \<Rightarrow> string"

text \<open>\<open>new HttpConn()\<close>: the constructor is defaulted, so the object is filled with zeros.\<close>

definition HttpConn :: http_conn where
  "HttpConn = \<lparr> sockFd = 0, readBuf = replicate READ_BUFFER_SIZE NUL, readIdx = 0, startLine = 0,
     checkedIdx = 0, checkState = CHECK_STATE_REQUESTLINE, writeBuf = replicate WRITE_BUFFER_SIZE NUL,
     writeIdx = 0, conn_method = GET, url = None, version = None, host = None, contentLength = 0,
     linger = False, readFile = replicate FILENAME_LEN NUL, fileAddress = NullMap, st_mode = 0,
     st_size = 0, iv = [] \<rparr>"

definition closeConn :: "bool \<Rightarrow> http_conn \<Rightarrow> conn_world \<Rightarrow> http_conn \<times> conn_world" where
  "closeConn realClose c w =
     (if realClose \<and> sockFd c \<noteq> -1
      then (c\<lparr> sockFd := -1 \<rparr>, w\<lparr> userCount := userCount w - 1 \<rparr>) else (c, w))"

text \<open>The private \<open>init()\<close> and the public \<open>init(sockFd, addr)\<close>; the address is only stored.\<close>

definition init_conn :: "http_conn \<Rightarrow> http_conn" where
  "init_conn c = c\<lparr> checkState := CHECK_STATE_REQUESTLINE, linger := False, conn_method := GET,
     url := None, version := None, contentLength := 0, host := None, startLine := 0,
     checkedIdx := 0, readIdx := 0, writeIdx := 0, readBuf := replicate READ_BUFFER_SIZE NUL,
     writeBuf := replicate WRITE_BUFFER_SIZE NUL, readFile := replicate FILENAME_LEN NUL \<rparr>"

definition init_sock :: "int \<Rightarrow> http_conn \<Rightarrow> conn_world \<Rightarrow> http_conn \<times> conn_world" where
  "init_sock n c w = (init_conn (c\<lparr> sockFd := n \<rparr>), w\<lparr> userCount := userCount w + 1 \<rparr>)"

section \<open>Reading\<close>

text \<open>
  The loop of \<open>read\<close>. A call of \<open>recv\<close> for no characters while there are some, which happens when
  the buffer is full, returns 0 like the end of the stream.
\<close>

function recv_loop :: "string \<Rightarrow> nat \<Rightarrow> read_result list \<Rightarrow> bool \<times> string \<times> nat \<times> read_result list" where
  "recv_loop b i rs = (case rs of
     [] \<Rightarrow> (True, b, i, [])
   | Read_Blocks # rs' \<Rightarrow> (True, b, i, rs')
   | Read_Fails # rs' \<Rightarrow> (False, b, i, rs')
   | Received s # rs' \<Rightarrow>
       let k = min (READ_BUFFER_SIZE - i) (length s) in
       if k = 0 then (False, b, i, rs)
       else recv_loop (take i b @ take k s @ drop (i + k) b) (i + k)
              (if k < length s then Received (drop k s) # rs' else rs'))"
  by pat_completeness auto
termination
  by (relation "measure (\<lambda>(b, i, rs). sum_list (map (\<lambda>r. case r of Received s \<Rightarrow> Suc (length s) | _ \<Rightarrow> 1) rs))")
    auto

declare recv_loop.simps [simp del]

definition conn_read :: "http_conn \<Rightarrow> conn_world \<Rightarrow> bool \<times> http_conn \<times> conn_world" where
  "conn_read c w = (if READ_BUFFER_SIZE < readIdx c then (False, c, w)
     else let (ok, b, i, rs) = recv_loop (readBuf c) (readIdx c) (recvs w (sockFd c))
       in (ok, c\<lparr> readBuf := b, readIdx := i \<rparr>, w\<lparr> recvs := (recvs w)(sockFd c := rs) \<rparr>))"

section \<open>Parsing\<close>

definition getLine :: "http_conn \<Rightarrow> nat" where
  "getLine c = startLine c"

definition parseLine :: "http_conn \<Rightarrow> (line_status \<times> http_conn) res" where
  "parseLine c = bindE (parse_line (readBuf c) (readIdx c) (checkedIdx c)) (\<lambda>(s, b, i).
     Inr (s, c\<lparr> readBuf := b, checkedIdx := i \<rparr>))"

definition parseRequestLine :: "nat \<Rightarrow> http_conn \<Rightarrow> (http_code \<times> http_conn) res" where
  "parseRequestLine text c =
     bindE (find_in isblank (drop text (readBuf c))) (\<lambda>d. case d of
       None \<Rightarrow> Inr (BAD_REQUEST, c\<lparr> url := None \<rparr>)
     | Some d \<Rightarrow>
       bindE (wr (readBuf c) (text + d) NUL) (\<lambda>b.
       let u = text + d + 1; c = c\<lparr> readBuf := b, url := Some u \<rparr> in
       bindE (strcasecmp (drop text b) ''GET'') (\<lambda>is_get.
       if \<not> is_get then Inr (BAD_REQUEST, c)
       else
         let c = c\<lparr> conn_method := GET \<rparr> in
         bindE (strspn_blank (drop u b)) (\<lambda>k.
         let u = u + k; c = c\<lparr> url := Some u \<rparr> in
         bindE (find_in isblank (drop u b)) (\<lambda>d. case d of
           None \<Rightarrow> Inr (BAD_REQUEST, c\<lparr> version := None \<rparr>)
         | Some d \<Rightarrow>
           bindE (wr b (u + d) NUL) (\<lambda>b.
           bindE (strspn_blank (drop (u + d + 1) b)) (\<lambda>k.
           let v = u + d + 1 + k; c = c\<lparr> readBuf := b, version := Some v \<rparr> in
           bindE (strcasecmp (drop v b) ''HTTP/1.1'') (\<lambda>is_11.
           if \<not> is_11 then Inr (BAD_REQUEST, c)
           else
             bindE (strncasecmp (drop u b) ''http://'') (\<lambda>absolute.
             bindE (if absolute then bindE (find_in (\<lambda>x. x = CHR ''/'') (drop (u + 7) b)) (\<lambda>d.
                      Inr (map_option (\<lambda>d. u + 7 + d) d))
                    else Inr (Some u)) (\<lambda>u.
             let c = c\<lparr> url := u \<rparr> in
             bindE (case u of None \<Rightarrow> Inr False | Some u \<Rightarrow> bindE (rd b u) (\<lambda>x. Inr (x = CHR ''/''))) (\<lambda>ok.
             if \<not> ok then Inr (BAD_REQUEST, c)
             else Inr (NO_REQUEST, c\<lparr> checkState := CHECK_STATE_HEADER \<rparr>))))))))))))"

definition parseHeaders :: "nat \<Rightarrow> http_conn \<Rightarrow> (http_code \<times> http_conn) res" where
  "parseHeaders text c =
     (let b = readBuf c in
      bindE (rd b text) (\<lambda>x.
      if x = NUL then
        if contentLength c \<noteq> 0 then Inr (NO_REQUEST, c\<lparr> checkState := CHECK_STATE_CONTENT \<rparr>)
        else Inr (GET_REQUEST, c)
      else
      bindE (strncasecmp (drop text b) ''Connection:'') (\<lambda>h.
      if h then
        bindE (strspn_blank (drop (text + 11) b)) (\<lambda>k.
        bindE (strcasecmp (drop (text + 11 + k) b) ''keep-alive'') (\<lambda>keep.
          Inr (NO_REQUEST, if keep then c\<lparr> linger := True \<rparr> else c)))
      else
      bindE (strncasecmp (drop text b) ''Content-Length:'') (\<lambda>h.
      if h then
        bindE (strspn_blank (drop (text + 15) b)) (\<lambda>k.
        bindE (atol (drop (text + 15 + k) b)) (\<lambda>v.
          Inr (NO_REQUEST, c\<lparr> contentLength := to_int v \<rparr>)))
      else
      bindE (strncasecmp (drop text b) ''Host:'') (\<lambda>h.
      if h then
        bindE (strspn_blank (drop (text + 5) b)) (\<lambda>k.
          Inr (NO_REQUEST, c\<lparr> host := Some (text + 5 + k) \<rparr>))
      else bindE (cstr (drop text b)) (\<lambda>_. Inr (NO_REQUEST, c)))))))"

definition parseContent :: "nat \<Rightarrow> http_conn \<Rightarrow> (http_code \<times> http_conn) res" where
  "parseContent text c =
     (let sum = contentLength c + int (checkedIdx c); at = int text + contentLength c in
      if sum < INT_MIN \<or> INT_MAX < sum then Inl Signed_Overflow
      else if sum \<le> int (readIdx c) then
        if at < 0 then Inl Out_Of_Bounds
        else bindE (wr (readBuf c) (nat at) NUL) (\<lambda>b. Inr (GET_REQUEST, c\<lparr> readBuf := b \<rparr>))
      else Inr (NO_REQUEST, c))"

text \<open>\<open>readFile\<close> is the document root and as much of the target as fits.\<close>

definition doRequest ::
    "(string \<Rightarrow> (32 word \<times> nat) option) \<Rightarrow> (string \<Rightarrow> string option) \<Rightarrow> http_conn \<Rightarrow> (http_code \<times> http_conn) res" where
  "doRequest st cont c =
     (case url c of None \<Rightarrow> Inl Null_Deref
      | Some u \<Rightarrow>
        let len = length docRoot; n = FILENAME_LEN - len - 1 in
        bindE (strncpy_from (drop u (readBuf c)) n) (\<lambda>s.
        let c = c\<lparr> readFile := docRoot @ s @ replicate (n - length s) NUL @ drop (len + n) (readFile c) \<rparr> in
        bindE (cstr (readFile c)) (\<lambda>name.
        case st name of
          None \<Rightarrow> Inr (NO_REQUEST, c)
        | Some (mode, sz) \<Rightarrow>
          let c = c\<lparr> st_mode := mode, st_size := sz \<rparr> in
          if mode AND S_IROTH = 0 then Inr (FORBIDDEN_REQUEST, c)
          else if S_ISDIR mode then Inr (BAD_REQUEST, c)
          else Inr (FILE_REQUEST, c\<lparr> fileAddress :=
            (case cont name of None \<Rightarrow> MapFailed | Some s \<Rightarrow> if sz = 0 then MapFailed else Mapped s) \<rparr>))))"

section \<open>The main state machine\<close>

lemma conn_parseLine_decreases:
  "parseLine c = Inr (LINE_OK, c') \<Longrightarrow> readIdx c' - checkedIdx c' < readIdx c - checkedIdx c"
  using parse_line_progress
  by (fastforce simp: parseLine_def bindE_eq_Inr intro: diff_less_mono2)

definition same_input :: "http_conn \<Rightarrow> http_conn \<Rightarrow> bool" where
  "same_input c c' \<longleftrightarrow> readIdx c' = readIdx c \<and> checkedIdx c' = checkedIdx c \<and> startLine c' = startLine c \<and>
     sockFd c' = sockFd c \<and> length (readBuf c') = length (readBuf c)"

lemma conn_request_line_frame: "on_Inr (\<lambda>(code, c'). same_input c c') (parseRequestLine text c)"
  unfolding parseRequestLine_def Let_def
  by (intro on_Inr_intros) (simp_all add: same_input_def wr_eq_Inr)

lemma parseHeaders_frame: "on_Inr (\<lambda>(code, c'). same_input c c') (parseHeaders text c)"
  unfolding parseHeaders_def Let_def
  by (intro on_Inr_intros) (simp_all add: same_input_def wr_eq_Inr)

lemma parseContent_frame: "on_Inr (\<lambda>(code, c'). same_input c c') (parseContent text c)"
  unfolding parseContent_def Let_def
  by (intro on_Inr_intros) (simp_all add: same_input_def wr_eq_Inr)

lemmas parse_frames = conn_request_line_frame [THEN on_InrD] parseHeaders_frame [THEN on_InrD]
  parseContent_frame [THEN on_InrD]

text \<open>
  The loop of \<open>processRead\<close>, with the local variable \<open>status\<close>. Its \<open>default\<close> branch is not
  reachable, since \<open>CHECK_STATE\<close> has no other value. Printing the line reads it as a C string.
\<close>

function process_loop ::
    "(string \<Rightarrow> (32 word \<times> nat) option) \<Rightarrow> (string \<Rightarrow> string option) \<Rightarrow> http_conn \<Rightarrow> line_status \<Rightarrow>
     (http_code \<times> http_conn) res" where
  "process_loop st cont c status =
     bindE (if checkState c = CHECK_STATE_CONTENT \<and> status = LINE_OK then Inr (LINE_OK, c)
            else parseLine c) (\<lambda>(status, c).
     if status = LINE_OK then
       let text = getLine c; c = c\<lparr> startLine := checkedIdx c \<rparr> in
       bindE (cstr (drop text (readBuf c))) (\<lambda>_.
       case checkState c of
         CHECK_STATE_REQUESTLINE \<Rightarrow>
           bindE (parseRequestLine text c) (\<lambda>(ret, c).
             if ret = BAD_REQUEST then Inr (BAD_REQUEST, c) else process_loop st cont c status)
       | CHECK_STATE_HEADER \<Rightarrow>
           bindE (parseHeaders text c) (\<lambda>(ret, c).
             if ret = BAD_REQUEST then Inr (BAD_REQUEST, c)
             else if ret = GET_REQUEST then doRequest st cont c
             else process_loop st cont c status)
       | CHECK_STATE_CONTENT \<Rightarrow>
           bindE (parseContent text c) (\<lambda>(ret, c).
             if ret = GET_REQUEST then doRequest st cont c
             else process_loop st cont c LINE_OPEN))
     else Inr (NO_REQUEST, c))"
  by pat_completeness auto
termination
proof (relation "measure (\<lambda>(st, cont, c, status).
    2 * (readIdx c - checkedIdx c) + (if status = LINE_OK then 1 else 0))")
qed (auto split: if_splits dest!: parse_frames dest: conn_parseLine_decreases simp: same_input_def)

declare process_loop.simps [simp del]

definition processRead ::
    "(string \<Rightarrow> (32 word \<times> nat) option) \<Rightarrow> (string \<Rightarrow> string option) \<Rightarrow> http_conn \<Rightarrow> (http_code \<times> http_conn) res" where
  "processRead st cont c = process_loop st cont c LINE_OK"

section \<open>Answering\<close>

text \<open>\<open>munmap\<close> of \<open>MAP_FAILED\<close> fails and nothing looks at its result.\<close>

definition unmap :: "http_conn \<Rightarrow> http_conn" where
  "unmap c = (if fileAddress c \<noteq> NullMap then c\<lparr> fileAddress := NullMap \<rparr> else c)"

text \<open>
  \<open>addResponse\<close> with the text its format and arguments stand for. \<open>vsnprintf\<close> writes no more than
  its size, a terminating zero included.
\<close>

definition addResponse :: "string \<Rightarrow> http_conn \<Rightarrow> bool \<times> http_conn" where
  "addResponse s c =
     (if WRITE_BUFFER_SIZE \<le> writeIdx c then (False, c)
      else
        let i = writeIdx c; room = WRITE_BUFFER_SIZE - 1 - i; k = min (length s) (room - 1);
            b = (if room = 0 then writeBuf c
                 else take i (writeBuf c) @ take k s @ [NUL] @ drop (i + k + 1) (writeBuf c));
            c = c\<lparr> writeBuf := b \<rparr>
        in if room \<le> length s then (False, c) else (True, c\<lparr> writeIdx := i + length s \<rparr>))"

definition addStatusLine :: "int \<Rightarrow> string \<Rightarrow> http_conn \<Rightarrow> bool \<times> http_conn" where
  "addStatusLine status title = addResponse (''HTTP/1.1'' @ [SP] @ decimal status @ [SP] @ title @ CRLF)"

definition addContentLength :: "int \<Rightarrow> http_conn \<Rightarrow> bool \<times> http_conn" where
  "addContentLength len = addResponse (''Content-Length: '' @ decimal len @ CRLF)"

definition addLinger :: "http_conn \<Rightarrow> bool \<times> http_conn" where
  "addLinger c = addResponse (''Connection: '' @ (if linger c then ''keep-alive'' else ''close'') @ CRLF) c"

definition addBlankLine :: "http_conn \<Rightarrow> bool \<times> http_conn" where
  "addBlankLine = addResponse CRLF"

definition addContent :: "string \<Rightarrow> http_conn \<Rightarrow> bool \<times> http_conn" where
  "addContent s = addResponse s"

text \<open>
  \<open>addHeaders\<close> is declared with the result \<open>bool\<close> and has no \<open>return\<close>, so by the standard every call has
  undefined behaviour although no caller uses the value. The model gives the three calls of its body.
\<close>

definition addHeaders :: "int \<Rightarrow> http_conn \<Rightarrow> http_conn" where
  "addHeaders len c = snd (addBlankLine (snd (addLinger (snd (addContentLength len c)))))"

definition ok_string :: string where
  "ok_string = ''<html><body>Welcome</body></html>''"

text \<open>The four answers with a text, which differ in code, title and text.\<close>

definition answer_text :: "int \<Rightarrow> string \<Rightarrow> string \<Rightarrow> http_conn \<Rightarrow> bool \<times> http_conn" where
  "answer_text status title form c =
     (let c = snd (addStatusLine status title c); c = addHeaders (int (length form)) c;
          (ok, c) = addContent form c
      in if \<not> ok then (False, c) else (True, c\<lparr> iv := [(WriteBuf, writeIdx c)] \<rparr>))"

text \<open>An empty file goes on from its case into \<open>default\<close>.\<close>

definition processWrite :: "http_code \<Rightarrow> http_conn \<Rightarrow> bool \<times> http_conn" where
  "processWrite code c = (case code of
     INTERNAL_ERROR \<Rightarrow> answer_text 500 error_500_title error_500_form c
   | BAD_REQUEST \<Rightarrow> answer_text 400 error_400_title error_400_form c
   | NO_REQUEST \<Rightarrow> answer_text 404 error_404_title error_404_form c
   | FORBIDDEN_REQUEST \<Rightarrow> answer_text 403 error_403_title error_403_form c
   | FILE_REQUEST \<Rightarrow>
       let c = snd (addStatusLine 200 ok_200_title c) in
       if st_size c \<noteq> 0 then
         let c = addHeaders (to_int (int (st_size c))) c
         in (True, c\<lparr> iv := [(WriteBuf, writeIdx c), (FileMap, st_size c)] \<rparr>)
       else (False, snd (addContent ok_string (addHeaders (int (length ok_string)) c)))
   | _ \<Rightarrow> (False, c))"

text \<open>What \<open>process\<close> does with the result of \<open>processRead\<close>.\<close>

definition respond :: "http_code \<Rightarrow> http_conn \<Rightarrow> conn_world \<Rightarrow> http_conn \<times> conn_world" where
  "respond code c w =
     (if code = NO_REQUEST then (c, modFd (sockFd c) EPOLLIN w)
      else
        let (ok, c) = processWrite code c; (c, w) = (if \<not> ok then closeConn True c w else (c, w))
        in (c, modFd (sockFd c) EPOLLOUT w))"

definition process ::
    "(string \<Rightarrow> (32 word \<times> nat) option) \<Rightarrow> (string \<Rightarrow> string option) \<Rightarrow> http_conn \<Rightarrow> conn_world \<Rightarrow>
     (http_conn \<times> conn_world) res" where
  "process st cont c w = bindE (processRead st cont c) (\<lambda>(code, c). Inr (respond code c w))"

section \<open>Sending\<close>

text \<open>What the entries of \<open>iv\<close> point to; the kernel cannot read what is not mapped.\<close>

fun iov_data :: "http_conn \<Rightarrow> (iov_base \<times> nat) list \<Rightarrow> string res" where
  "iov_data c [] = Inr []"
| "iov_data c ((WriteBuf, n) # v) =
     bindE (slice (writeBuf c) 0 n) (\<lambda>s. bindE (iov_data c v) (\<lambda>t. Inr (s @ t)))"
| "iov_data c ((FileMap, n) # v) = (case fileAddress c of
     Mapped m \<Rightarrow> bindE (slice m 0 n) (\<lambda>s. bindE (iov_data c v) (\<lambda>t. Inr (s @ t)))
   | _ \<Rightarrow> Inl Dangling)"

text \<open>
  The loop of \<open>write\<close>, along the results of \<open>writev\<close>. The counters are \<open>int\<close> in the source and are not
  bounded here: a file of more than 2 GiB is outside the model. Memory of any entry that is not mapped
  is an error, although the kernel would first write the entries in front of it.
\<close>

fun writev_loop :: "int \<Rightarrow> int \<Rightarrow> write_result list \<Rightarrow> http_conn \<Rightarrow> conn_world \<Rightarrow>
    (bool \<times> http_conn \<times> conn_world) res" where
  "writev_loop to_send have_sent [] c w =
     bindE (iov_data c (iv c)) (\<lambda>_. Inr (True, c, modFd (sockFd c) EPOLLOUT w))"
| "writev_loop to_send have_sent (r # rs) c w =
     bindE (iov_data c (iv c)) (\<lambda>data.
       let w = w\<lparr> writevs := (writevs w)(sockFd c := rs) \<rparr> in
       case r of
         Takes k \<Rightarrow>
           let n = int (min k (length data));
               w = w\<lparr> out := (out w)(sockFd c := out w (sockFd c) @ take k data) \<rparr>;
               to_send = to_send - n; have_sent = have_sent + n
           in if to_send \<le> have_sent then
                let c = unmap c in
                if linger c then let c = init_conn c in Inr (True, c, modFd (sockFd c) EPOLLIN w)
                else Inr (False, c, modFd (sockFd c) EPOLLIN w)
              else writev_loop to_send have_sent rs c w
       | Write_Blocks \<Rightarrow> Inr (True, c, modFd (sockFd c) EPOLLOUT w)
       | _ \<Rightarrow> Inr (False, unmap c, w))"

definition conn_write :: "http_conn \<Rightarrow> conn_world \<Rightarrow> (bool \<times> http_conn \<times> conn_world) res" where
  "conn_write c w = (if writeIdx c = 0
     then Inr (True, init_conn c, modFd (sockFd c) EPOLLIN w)
     else writev_loop (int (writeIdx c)) 0 (writevs w (sockFd c)) c w)"

end
