(* ===== verification/HttpConnParser.thy ===== *)
theory HttpConnParser
  imports HttpConn
begin

text \<open>
  What the parser of \<open>HttpConn\<close> accepts: a reference parser on the received characters, with no
  buffer, no positions and no zeros written into the text, and the proof that \<open>processRead\<close> computes
  the same, wherever the input is cut into pieces.
\<close>

section \<open>The reference parser\<close>

abbreviation word_of :: "string \<Rightarrow> string" where
  "word_of s \<equiv> takeWhile (\<lambda>c. \<not> isblank c) s"

abbreviation after_word :: "string \<Rightarrow> string" where
  "after_word s \<equiv> dropWhile (\<lambda>c. \<not> isblank c) s"

abbreviation skip_blanks :: "string \<Rightarrow> string" where
  "skip_blanks s \<equiv> dropWhile isblank s"

text \<open>The path of a request target, which may be an absolute URL.\<close>

definition target_path :: "string \<Rightarrow> string" where
  "target_path u = (if lower (take 7 u) = ''http://'' then from_char (CHR ''/'') (drop 7 u) else u)"

definition conn_line :: "string \<Rightarrow> string option" where
  "conn_line s =
     (let r = after_word s; u = skip_blanks (tl r); r2 = after_word u; v = skip_blanks (tl r2);
          p = target_path (word_of u)
      in if r \<noteq> [] \<and> lower (word_of s) = ''get'' \<and> r2 \<noteq> [] \<and> lower v = ''http/1.1'' \<and>
            p \<noteq> [] \<and> hd p = CHR ''/''
         then Some p else None)"

definition conn_header :: "string \<Rightarrow> bool \<Rightarrow> int \<Rightarrow> bool \<times> int" where
  "conn_header s lg cl =
     (if lower (take 11 s) = ''connection:''
      then (lg \<or> lower (skip_blanks (drop 11 s)) = ''keep-alive'', cl)
      else if lower (take 15 s) = ''content-length:''
      then (lg, to_int (long_of (skip_blanks (drop 15 s))))
      else (lg, cl))"

text \<open>
  Between two calls the parser waits for the rest of a line: the request line, or a header line after
  a request line with this target. It ends with a rejection, a complete request without a body, or a
  request that announces a body, of which \<open>rest\<close> is already there.
\<close>

datatype phase = AtRequestLine | AtHeaders string bool int

datatype outcome = Waiting phase string | Rejected | Asks string bool | HasBody string bool int string

function conn_parse :: "phase \<Rightarrow> string \<Rightarrow> outcome" where
  "conn_parse ph t =
     (if line_status_of t = LINE_OK then
        let s = before NUL (line_of t); rest = drop (length (line_of t) + 2) t in
        case ph of
          AtRequestLine \<Rightarrow> (case conn_line s of None \<Rightarrow> Rejected
            | Some u \<Rightarrow> conn_parse (AtHeaders u False 0) rest)
        | AtHeaders u lg cl \<Rightarrow>
            if s = [] then (if cl = 0 then Asks u lg else HasBody u lg cl rest)
            else (case conn_header s lg cl of (lg, cl) \<Rightarrow> conn_parse (AtHeaders u lg cl) rest)
      else Waiting ph t)"
  by pat_completeness auto
termination
proof (relation "measure (\<lambda>(ph, t). length t)")
qed (use line_OK_shrinks in auto)

declare conn_parse.simps [simp del]

text \<open>
  What has been parsed does not depend on what follows: more characters continue from where the
  parser waits.
\<close>

lemma line_status_more:
  assumes "line_status_of t = LINE_OK"
  shows "line_status_of (t @ u) = LINE_OK" "line_of (t @ u) = line_of t"
    "Suc (Suc (length (line_of t))) - length t = 0"
proof -
  obtain r where t: "t = line_of t @ CR # LF # r" using assms by (auto simp: line_status_OK)
  have nb: "CR \<notin> set (line_of t)" "LF \<notin> set (line_of t)" using line_of_no_break by blast+
  have "t @ u = line_of t @ CR # LF # (r @ u)" using t by (metis append.assoc append_Cons)
  then show "line_status_of (t @ u) = LINE_OK" "line_of (t @ u) = line_of t"
    using nb line_status_append line_of_append by metis+
  have "length t = length (line_of t) + 2 + length r" by (subst t) simp
  then show "Suc (Suc (length (line_of t))) - length t = 0" by simp
qed

lemma conn_parse_more:
  "conn_parse ph t = Waiting ph' t' \<Longrightarrow> conn_parse ph (t @ u) = conn_parse ph' (t' @ u)"
proof (induction ph t rule: conn_parse.induct)
  case (1 ph t)
  show ?case
  proof (cases "line_status_of t = LINE_OK")
    case False
    then show ?thesis using "1.prems" by (simp add: conn_parse.simps [of ph t])
  next
    case True
    then show ?thesis
      using "1.prems" "1.IH" [OF True refl refl]
      by (auto simp: conn_parse.simps [of ph t] conn_parse.simps [of ph "t @ u"] line_status_more [OF True]
          Let_def split: phase.splits option.splits if_splits prod.splits)
  qed
qed

lemma conn_parse_final:
  assumes "conn_parse ph t = r" "r = Rejected \<or> r = Asks v lg"
  shows "conn_parse ph (t @ u) = r"
  using assms
proof (induction ph t rule: conn_parse.induct)
  case (1 ph t)
  have True: "line_status_of t = LINE_OK"
    using "1.prems"(1,2) by (auto simp: conn_parse.simps [of ph t] split: if_splits)
  show ?case
    using "1.prems" "1.IH" [OF True refl refl] True
    by (auto simp: conn_parse.simps [of ph t] conn_parse.simps [of ph "t @ u"] line_status_more [OF True]
        Let_def split: phase.splits option.splits if_splits prod.splits)
qed

section \<open>Strings inside the buffer\<close>

definition str_at :: "string \<Rightarrow> nat \<Rightarrow> string \<Rightarrow> bool" where
  "str_at b p s \<longleftrightarrow> starts_with s (drop p b)"

lemma str_atD: "str_at b p s \<Longrightarrow> starts_with s (drop p b)"
  by (simp add: str_at_def)

lemma str_at_append: "str_at b p (x @ y) \<Longrightarrow> str_at b (p + length x) y"
  using starts_with_drop [of x y "drop p b"] by (simp add: str_at_def add.commute)

lemma str_at_nth:
  assumes "str_at b p s"
  shows "p + length s < length b" "i < length s \<Longrightarrow> b ! (p + i) = s ! i" "b ! (p + length s) = NUL"
    "NUL \<notin> set s"
proof -
  obtain r where d: "drop p b = s @ NUL # r" and n: "NUL \<notin> set s"
    using assms by (auto simp: str_at_def starts_with_def)
  then have "length b - p = length s + 1 + length r" by (metis add.commute length_Cons length_append length_drop
        add_Suc_right plus_1_eq_Suc)
  then show l: "p + length s < length b" by simp
  show "i < length s \<Longrightarrow> b ! (p + i) = s ! i"
    using d l by (metis add_leD1 less_imp_le_nat nth_append nth_drop)
  show "b ! (p + length s) = NUL"
    using d l by (metis add_leD1 less_imp_le_nat nth_append_length nth_drop)
  show "NUL \<notin> set s" by (rule n)
qed

lemma str_atI:
  assumes "p + length s < length b" "\<And>i. i < length s \<Longrightarrow> b ! (p + i) = s ! i"
    "b ! (p + length s) = NUL" "NUL \<notin> set s"
  shows "str_at b p s"
proof -
  have "drop p b = take (length s) (drop p b) @ NUL # drop (p + length s + 1) b"
    using assms(1,3) by (metis add.commute append_take_drop_id drop_drop Cons_nth_drop_Suc Suc_eq_plus1 add.assoc)
  moreover have "take (length s) (drop p b) = s"
    using assms(1,2) by (intro nth_equalityI) auto
  ultimately show ?thesis using assms(4) by (auto simp: str_at_def starts_with_def)
qed

lemma str_at_cong:
  assumes "str_at b p s" "length b' = length b" "\<And>i. p \<le> i \<Longrightarrow> i \<le> p + length s \<Longrightarrow> b' ! i = b ! i"
  shows "str_at b' p s"
  using str_at_nth [OF assms(1)] assms(2,3) by (intro str_atI) simp_all

lemma str_at_split:
  assumes "str_at b p (x @ c # y)"
  shows "p + length x < length b" "str_at (b[p + length x := NUL]) p x"
    "str_at (b[p + length x := NUL]) (p + length x + 1) y"
proof -
  note n = str_at_nth [OF assms]
  show l: "p + length x < length b" using n(1) by simp
  have "b ! (p + i) = x ! i" if "i < length x" for i
    using n(2) [of i] that by (simp add: nth_append)
  then show "str_at (b[p + length x := NUL]) p x"
    using n(4) l by (intro str_atI) simp_all
  have "str_at b (p + length x + 1) y"
    using str_at_append [of b p "x @ [c]" y] assms by simp
  then show "str_at (b[p + length x := NUL]) (p + length x + 1) y"
    by (rule str_at_cong) simp_all
qed

section \<open>The request line\<close>

lemma lower_simps [simp]: "lower ''GET'' = ''get''" "lower ''HTTP/1.1'' = ''http/1.1''"
    "lower ''http://'' = ''http://''" "lower ''Connection:'' = ''connection:''"
    "lower ''keep-alive'' = ''keep-alive''" "lower ''Content-Length:'' = ''content-length:''"
    "lower ''Host:'' = ''host:''"
  by code_simp+

lemma isblank_NUL [simp]: "\<not> isblank NUL"
  by (simp add: isblank_def)

lemma word_split:
  assumes "\<exists>c \<in> set s. isblank c"
  obtains c y where "s = word_of s @ c # y" "isblank c" "after_word s = c # y"
proof -
  obtain c y where "after_word s = c # y" using assms by (cases "after_word s") auto
  then show ?thesis using that takeWhile_dropWhile_id [of "\<lambda>c. \<not> isblank c" s]
    by (metis dropWhile_eq_Cons_conv)
qed

lemma no_word_end: "\<not> (\<exists>c \<in> set s. isblank c) \<Longrightarrow> after_word s = []"
  by (simp add: dropWhile_eq_Nil_conv)

lemma blanks_at:
  assumes "str_at b p s"
  shows "strspn_blank (drop p b) = Inr (length (takeWhile isblank s))"
    "str_at b (p + length (takeWhile isblank s)) (skip_blanks s)"
  using strspn_string [OF str_atD [OF assms]] str_at_append [of b p "takeWhile isblank s" "skip_blanks s"] assms
  by simp_all

lemma find_blank_at:
  assumes "str_at b p s"
  shows "find_in isblank (drop p b) =
    Inr (if \<exists>c \<in> set s. isblank c then Some (length (word_of s)) else None)"
  using find_in_string [OF str_atD [OF assms], of isblank] by simp

text \<open>What the parser leaves as it is: everything but the buffer and what it parses into.\<close>

definition outside :: "http_conn \<Rightarrow> nat \<Rightarrow> nat \<Rightarrow> http_conn \<Rightarrow> bool" where
  "outside c i j c' \<longleftrightarrow> length (readBuf c') = length (readBuf c) \<and>
     (\<forall>k. k < i \<or> j \<le> k \<longrightarrow> readBuf c' ! k = readBuf c ! k)"

definition same_rest :: "http_conn \<Rightarrow> http_conn \<Rightarrow> bool" where
  "same_rest c c' \<longleftrightarrow> sockFd c' = sockFd c \<and> readIdx c' = readIdx c \<and> writeBuf c' = writeBuf c \<and>
     writeIdx c' = writeIdx c \<and> readFile c' = readFile c \<and> fileAddress c' = fileAddress c \<and> iv c' = iv c \<and>
     st_mode c' = st_mode c \<and> st_size c' = st_size c \<and> length (readBuf c') = length (readBuf c)"

lemma same_rest_refl [simp]: "same_rest c c"
  by (simp add: same_rest_def)

lemma same_rest_trans: "same_rest a b \<Longrightarrow> same_rest b c \<Longrightarrow> same_rest a c"
  by (simp add: same_rest_def)

lemma target_at:
  assumes w: "str_at b u w"
  defines "t \<equiv> target_path w"
  obtains a ul where
    "strncasecmp (drop u b) ''http://'' = Inr a"
    "(if a then bindE (find_in (\<lambda>x. x = CHR ''/'') (drop (u + 7) b)) (\<lambda>d.
        Inr (map_option (\<lambda>d. u + 7 + d) d)) else Inr (Some u)) = Inr ul"
    "(case ul of None \<Rightarrow> Inr False | Some u \<Rightarrow> bindE (rd b u) (\<lambda>x. Inr (x = CHR ''/''))) =
      Inr (t \<noteq> [] \<and> hd t = CHR ''/'')"
    "t \<noteq> [] \<Longrightarrow> \<exists>q. ul = Some q \<and> str_at b q t \<and> q + length t = u + length w"
proof -
  have a: "strncasecmp (drop u b) ''http://'' = Inr (lower (take 7 w) = ''http://'')"
    using strncasecmp_string [OF str_atD [OF w], of "''http://''"] by (simp add: numeral_eq_Suc)
  have starts: "rd b q = Inr (if v = [] then NUL else hd v)" if "str_at b q v" for q v
    using str_at_nth(1,3) [OF that] str_at_nth(2) [OF that, of 0] by (cases v) simp_all
  show ?thesis
  proof (cases "lower (take 7 w) = ''http://''")
    case False
    then have t: "t = w" by (simp add: t_def target_path_def)
    show ?thesis
      by (rule that [of False "Some u"]) (use a False starts [OF w] w t in auto)
  next
    case True
    then have "length (lower (take 7 w)) = 7" by simp
    then have l: "7 \<le> length w" by (simp add: lower_def)
    define y where "y = drop 7 w"
    have t: "t = from_char (CHR ''/'') y" using True by (simp add: t_def target_path_def y_def)
    have y: "str_at b (u + 7) y"
      using str_at_append [of b u "take 7 w" y] w l by (simp add: y_def)
    have f: "find_in (\<lambda>x. x = CHR ''/'') (drop (u + 7) b) =
        Inr (if CHR ''/'' \<in> set y then Some (length (before (CHR ''/'') y)) else None)"
      using find_in_string [OF str_atD [OF y], of "\<lambda>x. x = CHR ''/''"] by (auto simp: before_def)
    show ?thesis
    proof (cases "CHR ''/'' \<in> set y")
      case False
      then have "t = []" by (simp add: t)
      then show ?thesis
        by (intro that [of True None]) (use a True f False in auto)
    next
      case slash: True
      let ?q = "u + 7 + length (before (CHR ''/'') y)"
      have q: "str_at b ?q t"
        using str_at_append [of b "u + 7" "before (CHR ''/'') y" t] y
        by (simp add: t before_from_char)
      have ne: "t \<noteq> []" using slash by (simp add: t from_char_nonempty)
      have "length (before (CHR ''/'') y) + length t = length y"
        using before_from_char [of "CHR ''/''" y] by (metis length_append t)
      then have "?q + length t = u + length w" using l by (simp add: y_def)
      then show ?thesis
        by (intro that [of True "Some ?q"]) (use a True f slash q ne starts [OF q] in auto)
    qed
  qed
qed

text \<open>What a rejected or accepted request line leaves behind.\<close>

definition line_done :: "http_conn \<Rightarrow> nat \<Rightarrow> nat \<Rightarrow> string option \<Rightarrow> http_conn \<Rightarrow> bool" where
  "line_done c p n t c' \<longleftrightarrow> same_rest c c' \<and> outside c p (p + n) c' \<and> startLine c' = startLine c \<and>
     checkedIdx c' = checkedIdx c \<and> linger c' = linger c \<and> contentLength c' = contentLength c \<and>
     (\<forall>u. t = Some u \<longrightarrow> checkState c' = CHECK_STATE_HEADER \<and>
       (\<exists>q. url c' = Some q \<and> str_at (readBuf c') q u \<and> q + length u < p + n))"

lemma conn_request_line_spec:
  assumes s: "str_at (readBuf c) p s"
  shows "\<exists>c'. parseRequestLine p c =
    Inr (if conn_line s = None then BAD_REQUEST else NO_REQUEST, c') \<and>
    line_done c p (length s) (conn_line s) c'"
proof (cases "\<exists>x \<in> set s. isblank x")
  case False
  then have "conn_line s = None" by (simp add: conn_line_def Let_def)
  then show ?thesis
    using find_blank_at [OF s] False
    by (simp add: parseRequestLine_def line_done_def same_rest_def outside_def)
next
  case True
  then obtain x y where y: "s = word_of s @ x # y" "after_word s = x # y" by (rule word_split)
  define m b1 where "m = word_of s" and "b1 = (readBuf c)[p + length m := NUL]"
  note b1 = str_at_split [of "readBuf c" p m x y, folded b1_def]
  have b1: "p + length m < length (readBuf c)" "str_at b1 p m" "str_at b1 (p + length m + 1) y"
    using b1 s y by (simp_all add: m_def)
  have f1: "find_in isblank (drop p (readBuf c)) = Inr (Some (length m))"
    using find_blank_at [OF s] True by (simp add: m_def)
  have w1: "wr (readBuf c) (p + length m) NUL = Inr b1" using b1(1) by (simp add: b1_def)
  have g: "strcasecmp (drop p b1) ''GET'' = Inr (lower m = ''get'')"
    using strcasecmp_string [OF str_atD [OF b1(2)], of "''GET''"] by simp
  define y' u where "y' = skip_blanks y" and "u = p + length m + 1 + length (takeWhile isblank y)"
  have u: "strspn_blank (drop (p + length m + 1) b1) = Inr (length (takeWhile isblank y))" "str_at b1 u y'"
    using blanks_at [OF b1(3)] by (simp_all add: u_def y'_def)
  have ly: "length s = length m + 1 + length y"
    using arg_cong [OF y(1), of length] by (simp add: m_def)
  have lu: "u + length y' = p + length s"
    using ly by (simp add: u_def y'_def) (metis length_append takeWhile_dropWhile_id)
  have le: "p + length m < p + length s" using ly by simp
  show ?thesis
  proof (cases "lower m = ''get'' \<and> (\<exists>x \<in> set y'. isblank x)")
    case False
    have "after_word y' = [] \<or> lower m \<noteq> ''get''" using no_word_end False by blast
    then have "conn_line s = None"
      by (auto simp: conn_line_def Let_def y(2) simp flip: m_def y'_def)
    define c1 where "c1 = c\<lparr> readBuf := b1, url := Some (p + length m + 1) \<rparr>"
    have "\<exists>c'. parseRequestLine p c = Inr (BAD_REQUEST, c') \<and> same_rest c c' \<and>
        outside c p (p + length s) c' \<and> startLine c' = startLine c \<and> checkedIdx c' = checkedIdx c \<and>
        linger c' = linger c \<and> contentLength c' = contentLength c"
    proof (cases "lower m = ''get''")
      case bad: False
      have "parseRequestLine p c = Inr (BAD_REQUEST, c1)"
        by (simp add: parseRequestLine_def Let_def f1 w1 g bad c1_def)
      then show ?thesis using le by (simp add: c1_def same_rest_def outside_def b1_def)
    next
      case get: True
      then have "find_in isblank (drop u b1) = Inr None" using find_blank_at [OF u(2)] False by simp
      then have "parseRequestLine p c =
          Inr (BAD_REQUEST, c1\<lparr> conn_method := GET, url := Some u, version := None \<rparr>)"
        by (simp add: parseRequestLine_def Let_def f1 w1 g get u(1) c1_def del: One_nat_def add_2_eq_Suc' flip: u_def)
      then show ?thesis using le by (simp add: c1_def same_rest_def outside_def b1_def)
    qed
    then show ?thesis by (auto simp: \<open>conn_line s = None\<close> line_done_def)
  next
    case get: True
    then obtain x2 z where z: "y' = word_of y' @ x2 # z" "after_word y' = x2 # z"
      by (elim conjE) (rule word_split)
    define w b2 where "w = word_of y'" and "b2 = b1[u + length w := NUL]"
    have b2: "u + length w < length b1" "str_at b2 u w" "str_at b2 (u + length w + 1) z"
      using str_at_split [of b1 u w x2 z] u(2) z(1) by (simp_all add: w_def b2_def)
    have f2: "find_in isblank (drop u b1) = Inr (Some (length w))"
      using find_blank_at [OF u(2)] get by (simp add: w_def)
    have w2: "wr b1 (u + length w) NUL = Inr b2" using b2(1) by (simp add: b2_def)
    define v where "v = u + length w + 1 + length (takeWhile isblank z)"
    have v: "strspn_blank (drop (u + length w + 1) b2) = Inr (length (takeWhile isblank z))"
        "strcasecmp (drop v b2) ''HTTP/1.1'' = Inr (lower (skip_blanks z) = ''http/1.1'')"
      using blanks_at [OF b2(3)] strcasecmp_string [OF str_atD, of b2 v "skip_blanks z" "''HTTP/1.1''"]
      by (simp_all add: v_def)
    obtain a ul where t: "strncasecmp (drop u b2) ''http://'' = Inr a"
        "(if a then bindE (find_in (\<lambda>x. x = CHR ''/'') (drop (u + 7) b2)) (\<lambda>d.
            Inr (map_option (\<lambda>d. u + 7 + d) d)) else Inr (Some u)) = Inr ul"
        "(case ul of None \<Rightarrow> Inr False | Some u \<Rightarrow> bindE (rd b2 u) (\<lambda>x. Inr (x = CHR ''/''))) =
          Inr (target_path w \<noteq> [] \<and> hd (target_path w) = CHR ''/'')"
        "target_path w \<noteq> [] \<Longrightarrow>
          \<exists>q. ul = Some q \<and> str_at b2 q (target_path w) \<and> q + length (target_path w) = u + length w"
      by (rule target_at [OF b2(2)]) (rule that)
    have ends: "p \<le> u" "u + length w < p + length s"
      using lu arg_cong [OF z(1), of length] by (simp_all add: u_def w_def)
    have line: "conn_line s = (if lower (skip_blanks z) = ''http/1.1'' \<and> target_path w \<noteq> [] \<and>
        hd (target_path w) = CHR ''/'' then Some (target_path w) else None)"
      using conjunct2 [OF get]
      by (auto simp: conn_line_def Let_def y(2) z(2) conjunct1 [OF get] simp flip: m_def w_def y'_def)
    define c2 where "c2 = c\<lparr> readBuf := b2, conn_method := GET, url := Some u, version := Some v \<rparr>"
    have c2: "parseRequestLine p c = (if lower (skip_blanks z) \<noteq> ''http/1.1'' then Inr (BAD_REQUEST, c2)
        else if target_path w \<noteq> [] \<and> hd (target_path w) = CHR ''/''
        then Inr (NO_REQUEST, c2\<lparr> url := ul, checkState := CHECK_STATE_HEADER \<rparr>)
        else Inr (BAD_REQUEST, c2\<lparr> url := ul \<rparr>))"
      using f1 w1 g u(1) f2 w2 v t(1-3) get
      by (cases a) (simp_all add: parseRequestLine_def Let_def c2_def del: One_nat_def flip: u_def v_def)
    have rest: "same_rest c c2" "outside c p (p + length s) c2"
      using le ends by (auto simp: same_rest_def outside_def c2_def b2_def b1_def)
    show ?thesis
      using rest t(4) ends(2) unfolding c2 line
      by (auto simp: line_done_def same_rest_def outside_def c2_def)
  qed
qed

section \<open>Header lines\<close>

lemma prefix_at:
  assumes "str_at b p s" "lower (take n s) = d" "length d = n"
  shows "str_at b (p + n) (drop n s)"
proof -
  have "length (take n s) = n" using assms(2,3) by (metis length_map lower_def)
  then show ?thesis using str_at_append [of b p "take n s" "drop n s"] assms(1) by simp
qed

lemma first_char_at:
  assumes "str_at b p s"
  shows "rd b p = Inr (if s = [] then NUL else hd s)" "s \<noteq> [] \<Longrightarrow> hd s \<noteq> NUL"
proof -
  note n = str_at_nth [OF assms]
  show "rd b p = Inr (if s = [] then NUL else hd s)"
  proof (cases s)
    case Nil
    then show ?thesis using n(1,3) by simp
  next
    case (Cons x r)
    then show ?thesis using n(1) n(2) [of 0] by simp
  qed
  show "s \<noteq> [] \<Longrightarrow> hd s \<noteq> NUL" using n(4) by (cases s) auto
qed

definition header_done :: "http_conn \<Rightarrow> bool \<times> int \<Rightarrow> http_conn \<Rightarrow> bool" where
  "header_done c r c' \<longleftrightarrow> readBuf c' = readBuf c \<and> same_rest c c' \<and> startLine c' = startLine c \<and>
     checkedIdx c' = checkedIdx c \<and> url c' = url c \<and> checkState c' = checkState c \<and>
     (linger c', contentLength c') = r"

lemma parseHeaders_spec:
  assumes s: "str_at (readBuf c) p s" "s \<noteq> []"
  shows "\<exists>c'. parseHeaders p c = Inr (NO_REQUEST, c') \<and>
    header_done c (conn_header s (linger c) (contentLength c)) c'"
proof -
  let ?m = "drop p (readBuf c)"
  have first: "rd (readBuf c) p = Inr (hd s)" "hd s \<noteq> NUL"
    using first_char_at [OF s(1)] s(2) by simp_all
  have n: "strncasecmp ?m ''Connection:'' = Inr (lower (take 11 s) = ''connection:'')"
    "strncasecmp ?m ''Content-Length:'' = Inr (lower (take 15 s) = ''content-length:'')"
    "strncasecmp ?m ''Host:'' = Inr (lower (take 5 s) = ''host:'')"
    using strncasecmp_string [OF str_atD [OF s(1)], of "''Connection:''"]
      strncasecmp_string [OF str_atD [OF s(1)], of "''Content-Length:''"]
      strncasecmp_string [OF str_atD [OF s(1)], of "''Host:''"]
    by (simp_all add: numeral_eq_Suc)
  note simps = parseHeaders_def Let_def first n conn_header_def header_done_def same_rest_def
  consider (connection) "lower (take 11 s) = ''connection:''"
    | (length) "lower (take 11 s) \<noteq> ''connection:''" "lower (take 15 s) = ''content-length:''"
    | (host) "lower (take 11 s) \<noteq> ''connection:''" "lower (take 15 s) \<noteq> ''content-length:''"
        "lower (take 5 s) = ''host:''"
    | (other) "lower (take 11 s) \<noteq> ''connection:''" "lower (take 15 s) \<noteq> ''content-length:''"
        "lower (take 5 s) \<noteq> ''host:''"
    by blast
  then show ?thesis
  proof cases
    case connection
    have v: "str_at (readBuf c) (p + 11) (drop 11 s)" by (rule prefix_at [OF s(1) connection]) simp
    show ?thesis
      using blanks_at [OF v] strcasecmp_string [OF str_atD [OF blanks_at(2) [OF v]], of "''keep-alive''"]
        connection by (simp add: simps)
  next
    case length
    have v: "str_at (readBuf c) (p + 15) (drop 15 s)" by (rule prefix_at [OF s(1) length(2)]) simp
    show ?thesis
      using blanks_at [OF v] atol_string [OF str_atD [OF blanks_at(2) [OF v]]] length by (simp add: simps)
  next
    case host
    have v: "str_at (readBuf c) (p + 5) (drop 5 s)" by (rule prefix_at [OF s(1) host(3)]) simp
    show ?thesis using blanks_at [OF v] host by (simp add: simps)
  next
    case other
    then show ?thesis using starts_with_cstr [OF str_atD [OF s(1)]] by (simp add: simps)
  qed
qed

section \<open>The parser between two lines\<close>

definition phase_ok :: "http_conn \<Rightarrow> phase \<Rightarrow> bool" where
  "phase_ok c ph = (case ph of
     AtRequestLine \<Rightarrow> checkState c = CHECK_STATE_REQUESTLINE \<and> \<not> linger c \<and> contentLength c = 0
   | AtHeaders u lg cl \<Rightarrow> checkState c = CHECK_STATE_HEADER \<and> linger c = lg \<and> contentLength c = cl \<and>
       (\<exists>q. url c = Some q \<and> str_at (readBuf c) q u \<and> q + length u < startLine c))"

text \<open>\<open>t\<close> is what was received after the last complete line; the part already scanned has no line end.\<close>

definition at_phase :: "http_conn \<Rightarrow> phase \<Rightarrow> string \<Rightarrow> bool" where
  "at_phase c ph t \<longleftrightarrow> length (readBuf c) = READ_BUFFER_SIZE \<and> readIdx c \<le> READ_BUFFER_SIZE \<and>
     startLine c \<le> checkedIdx c \<and> checkedIdx c \<le> readIdx c \<and>
     drop (startLine c) (take (readIdx c) (readBuf c)) = t \<and>
     (\<forall>x \<in> set (take (checkedIdx c - startLine c) t). x \<noteq> CR \<and> x \<noteq> LF) \<and>
     (startLine c = 0 \<or> readBuf c ! (startLine c - 1) \<noteq> CR) \<and> phase_ok c ph"

lemma line_of_scanned:
  "\<forall>x \<in> set s. x \<noteq> CR \<and> x \<noteq> LF \<Longrightarrow> line_of (s @ t) = s @ line_of t \<and>
   line_status_of (s @ t) = line_status_of t"
  by (induction s) auto

lemma parseLine_at_phase:
  assumes "at_phase c ph t"
  defines "n \<equiv> startLine c + length (line_of t)"
  shows "parseLine c = Inr (case line_status_of t of
      LINE_OK \<Rightarrow> (LINE_OK, c\<lparr> checkedIdx := n + 2, readBuf := (readBuf c)[n := NUL, n + 1 := NUL] \<rparr>)
    | s \<Rightarrow> (s, c\<lparr> checkedIdx := n \<rparr>))"
proof -
  let ?k = "checkedIdx c - startLine c"
  have a: "length (readBuf c) = READ_BUFFER_SIZE" "readIdx c \<le> READ_BUFFER_SIZE" "startLine c \<le> checkedIdx c"
      "checkedIdx c \<le> readIdx c" "drop (startLine c) (take (readIdx c) (readBuf c)) = t"
      "\<forall>x \<in> set (take ?k t). x \<noteq> CR \<and> x \<noteq> LF"
      "startLine c = 0 \<or> readBuf c ! (startLine c - 1) \<noteq> CR"
    using assms(1) by (simp_all add: at_phase_def)
  have d: "drop (checkedIdx c) (take (readIdx c) (readBuf c)) = drop ?k t"
    using a(3) by (simp flip: a(5))
  have lt: "length t = readIdx c - startLine c" using a(1,2) by (simp flip: a(5))
  have line: "line_of t = take ?k t @ line_of (drop ?k t)" "line_status_of t = line_status_of (drop ?k t)"
    using line_of_scanned [OF a(6), of "drop ?k t"] by simp_all
  have n: "n = checkedIdx c + length (line_of (drop ?k t))"
    using a(3,4) lt by (simp add: n_def line(1))
  have "readBuf c ! (checkedIdx c - 1) \<noteq> CR" if "checkedIdx c \<noteq> 0"
  proof (cases "?k = 0")
    case True
    then show ?thesis using a(3,7) that by simp
  next
    case False
    then have "t ! (?k - 1) \<in> set (take ?k t)"
      using lt a(4) by (auto simp: in_set_conv_nth intro!: exI [of _ "?k - 1"])
    moreover have "t ! (?k - 1) = readBuf c ! (checkedIdx c - 1)"
      using False a(1-4) by (simp flip: a(5))
    ultimately show ?thesis using a(6) by auto
  qed
  then have "parse_line (readBuf c) (readIdx c) (checkedIdx c) = Inr (case line_status_of t of
        LINE_OK \<Rightarrow> (LINE_OK, (readBuf c)[n := NUL, n + 1 := NUL], n + 2)
      | s \<Rightarrow> (s, readBuf c, n))"
    using parse_line_spec [of "checkedIdx c" "readIdx c" "readBuf c"] a(1,2,4)
    by (cases "line_status_of (drop ?k t)") (auto simp: Let_def d line(2) n)
  then show ?thesis by (cases "line_status_of t") (simp_all add: parseLine_def)
qed

lemma line_ready:
  assumes "at_phase c ph t" "line_status_of t = LINE_OK"
  defines "p \<equiv> startLine c" and "n \<equiv> startLine c + length (line_of t)"
  defines "b \<equiv> (readBuf c)[n := NUL, n + 1 := NUL]"
  shows "str_at b p (before NUL (line_of t))" "p + length (before NUL (line_of t)) \<le> n"
    "n + 2 \<le> readIdx c" "phase_ok (c\<lparr> checkedIdx := n + 2, readBuf := b, startLine := n + 2 \<rparr>) ph"
    "drop (n + 2) (take (readIdx c) b) = drop (length (line_of t) + 2) t" "b ! (n + 1) = NUL"
proof -
  let ?l = "line_of t"
  obtain rest where rest: "t = ?l @ CR # LF # rest" using assms(2) by (auto simp: line_status_OK)
  have a: "length (readBuf c) = READ_BUFFER_SIZE" "readIdx c \<le> READ_BUFFER_SIZE"
      "drop p (take (readIdx c) (readBuf c)) = t"
    using assms(1) by (simp_all add: at_phase_def p_def)
  have lt: "length t = readIdx c - p" using a(1,2) by (simp flip: a(3))
  have n: "n = p + length ?l" by (simp add: n_def p_def)
  have "length t = length ?l + 2 + length rest" by (subst rest) simp
  then show le: "n + 2 \<le> readIdx c" using lt by (simp add: n)
  have nth: "readBuf c ! (p + i) = ?l ! i" if "i < length ?l" for i
  proof -
    have "t ! i = ?l ! i" by (subst rest) (simp add: nth_append that)
    then show ?thesis using that le a(1,2) by (simp add: n flip: a(3))
  qed
  have same: "b ! i = readBuf c ! i" if "i \<noteq> n" "i \<noteq> n + 1" for i
    using that by (simp add: b_def)
  have nl: "b ! n = NUL" "length b = READ_BUFFER_SIZE" using le a(1,2) by (simp_all add: b_def)
  show "b ! (n + 1) = NUL" using le a(1,2) by (simp add: b_def)
  define s where "s = before NUL ?l"
  have s: "NUL \<notin> set s" "length s \<le> length ?l" "s = take (length s) ?l"
    unfolding s_def before_def
    by (blast dest: set_takeWhileD, rule length_takeWhile_le, rule takeWhile_eq_take)
  have stop: "length s < length ?l \<Longrightarrow> ?l ! length s = NUL"
    using nth_length_takeWhile [of "\<lambda>x. x \<noteq> NUL" ?l] by (simp add: s_def before_def)
  have "str_at b p s"
  proof (rule str_atI)
    show "p + length s < length b" using nl(2) le a(2) s(2) by (simp add: n)
    show "b ! (p + i) = s ! i" if "i < length s" for i
    proof -
      have "b ! (p + i) = ?l ! i" using that s(2) same [of "p + i"] nth [of i] by (simp add: n)
      also have "\<dots> = s ! i" using that s(3) by (metis nth_take)
      finally show ?thesis .
    qed
    show "b ! (p + length s) = NUL"
    proof (cases "length s < length ?l")
      case True
      then show ?thesis using stop nth same [of "p + length s"] by (simp add: n)
    next
      case False
      then show ?thesis using nl(1) s(2) by (simp add: n)
    qed
  qed (use s(1) in simp)
  then show "str_at b p (before NUL ?l)" by (simp add: s_def)
  show "p + length (before NUL ?l) \<le> n" using s(2) by (simp add: n s_def)
  have "phase_ok c ph" using assms(1) by (simp add: at_phase_def)
  then show "phase_ok (c\<lparr> checkedIdx := n + 2, readBuf := b, startLine := n + 2 \<rparr>) ph"
    using nl(2) a(1) same
    by (auto simp: phase_ok_def n p_def split: phase.splits intro!: str_at_cong [of "readBuf c" _ _ b])
  have "drop (n + 2) (take (readIdx c) b) = drop (n + 2) (take (readIdx c) (readBuf c))"
    by (simp add: b_def take_update_swap)
  also have "\<dots> = drop (length ?l + 2) t" by (simp add: n add.commute flip: a(3))
  finally show "drop (n + 2) (take (readIdx c) b) = drop (length ?l + 2) t" .
qed

lemma at_phase_next:
  assumes "at_phase c ph t" "line_status_of t = LINE_OK"
  defines "n \<equiv> startLine c + length (line_of t)"
  defines "c1 \<equiv> c\<lparr> checkedIdx := n + 2, readBuf := (readBuf c)[n := NUL, n + 1 := NUL], startLine := n + 2 \<rparr>"
  assumes "outside c1 (startLine c) n c2" "same_rest c1 c2" "checkedIdx c2 = n + 2" "startLine c2 = n + 2"
    "phase_ok c2 ph'"
  shows "at_phase c2 ph' (drop (length (line_of t) + 2) t)"
proof -
  note r = line_ready [OF assms(1,2), folded n_def]
  have len: "length (readBuf c) = READ_BUFFER_SIZE" "readIdx c \<le> READ_BUFFER_SIZE"
    using assms(1) by (simp_all add: at_phase_def)
  have s: "length (readBuf c2) = length (readBuf c1)" "readIdx c2 = readIdx c"
    using assms(5,6) by (simp_all add: same_rest_def outside_def c1_def)
  have eq: "readBuf c2 ! i = readBuf c1 ! i" if "n \<le> i" for i
    using assms(5) that by (simp add: outside_def)
  have "drop (n + 2) (take (readIdx c) (readBuf c2)) = drop (n + 2) (take (readIdx c) (readBuf c1))"
    using s eq r(3) len by (intro nth_equalityI) (simp_all add: c1_def)
  then have d: "drop (n + 2) (take (readIdx c) (readBuf c2)) = drop (length (line_of t) + 2) t"
    using r(5) by (simp add: c1_def)
  have "readBuf c2 ! (n + 1) = NUL" using eq [of "n + 1"] r(6) by (simp add: c1_def)
  then show ?thesis
    using assms(7-9) d s len r(3) by (simp add: at_phase_def c1_def)
qed

section \<open>The parser implements the reference parser\<close>

text \<open>Nothing behind the input is written.\<close>

definition same_conn :: "http_conn \<Rightarrow> http_conn \<Rightarrow> bool" where
  "same_conn c c' \<longleftrightarrow> same_rest c c' \<and> drop (readIdx c) (readBuf c') = drop (readIdx c) (readBuf c)"

lemma same_conn_rest: "same_conn c c' \<Longrightarrow> same_rest c c'"
  by (simp add: same_conn_def)

lemma same_conn_trans: "same_conn a b \<Longrightarrow> same_conn b c \<Longrightarrow> same_conn a c"
  by (auto simp: same_conn_def same_rest_def)

lemma same_conn_outside:
  assumes "same_rest c c'" "outside c i j c'" "j \<le> readIdx c"
  shows "same_conn c c'"
proof -
  have "drop (readIdx c) (readBuf c') = drop (readIdx c) (readBuf c)"
    using assms(2,3) by (intro nth_equalityI) (auto simp: outside_def)
  then show ?thesis using assms(1) by (simp add: same_conn_def)
qed

definition url_at :: "http_conn \<Rightarrow> string \<Rightarrow> bool" where
  "url_at c u \<longleftrightarrow> (\<exists>q. url c = Some q \<and> str_at (readBuf c) q u)"

definition computes :: "(http_conn \<Rightarrow> (http_code \<times> http_conn) res) \<Rightarrow> (http_conn \<Rightarrow> (http_code \<times> http_conn) res) \<Rightarrow>
    http_conn \<Rightarrow> (http_code \<times> http_conn) res \<Rightarrow> outcome \<Rightarrow> bool" where
  "computes ask loop c r ans \<longleftrightarrow> (\<exists>c'. same_conn c c' \<and> (case ans of
     Waiting ph t \<Rightarrow> r = Inr (NO_REQUEST, c') \<and> at_phase c' ph t
   | Rejected \<Rightarrow> r = Inr (BAD_REQUEST, c') \<and> \<not> linger c'
   | Asks u lg \<Rightarrow> r = ask c' \<and> (\<exists>rest. at_phase c' (AtHeaders u lg 0) rest)
   | HasBody u lg cl rest \<Rightarrow> r = loop c' \<and> linger c' = lg \<and> url_at c' u \<and> contentLength c' = cl \<and>
       cl \<noteq> 0 \<and> checkState c' = CHECK_STATE_CONTENT \<and> startLine c' = checkedIdx c' \<and>
       drop (startLine c') (take (readIdx c') (readBuf c')) = rest \<and>
       length (readBuf c') = READ_BUFFER_SIZE \<and> checkedIdx c' \<le> readIdx c' \<and> readIdx c' \<le> READ_BUFFER_SIZE \<and>
       readBuf c' ! (checkedIdx c' - 1) \<noteq> CR))"

lemma at_headers: "at_phase c (AtHeaders u lg cl) t \<Longrightarrow> linger c = lg \<and> url_at c u"
  by (auto simp: at_phase_def phase_ok_def url_at_def)

lemma computes_step:
  assumes "same_conn c c1" "computes ask loop c1 r ans"
  shows "computes ask loop c r ans"
  using assms same_conn_trans unfolding computes_def by blast

lemma at_phase_scan:
  assumes "at_phase c ph t"
  shows "at_phase (c\<lparr> checkedIdx := startLine c + length (line_of t) \<rparr>) ph t"
proof -
  have a: "length (readBuf c) = READ_BUFFER_SIZE" "readIdx c \<le> READ_BUFFER_SIZE"
      "drop (startLine c) (take (readIdx c) (readBuf c)) = t" "startLine c \<le> readIdx c" "phase_ok c ph"
    using assms by (simp_all add: at_phase_def)
  have "length t = readIdx c - startLine c" using a(1,2) by (simp flip: a(3))
  moreover have "length (line_of t) \<le> length t"
    by (simp add: line_of_def length_takeWhile_le)
  moreover have "take (length (line_of t)) t = line_of t" by (metis append_eq_conv_conj line_of_end)
  moreover have "phase_ok (c\<lparr> checkedIdx := startLine c + length (line_of t) \<rparr>) ph"
    using a(5) by (auto simp: phase_ok_def split: phase.splits)
  moreover have "startLine c + length (line_of t) \<le> readIdx c" using calculation(1,2) a(4) by linarith
  ultimately show ?thesis
    using assms line_of_no_break [of _ t] by (simp add: at_phase_def)
qed

lemma process_loop_spec:
  "at_phase c ph t \<Longrightarrow>
   computes (doRequest st cont) (\<lambda>c. process_loop st cont c LINE_OK) c (process_loop st cont c s) (conn_parse ph t)"
proof (induction ph t arbitrary: c s rule: conn_parse.induct)
  case (1 ph t)
  let ?comp = "computes (doRequest st cont) (\<lambda>c. process_loop st cont c LINE_OK)"
  define n where "n = startLine c + length (line_of t)"
  have cs: "checkState c \<noteq> CHECK_STATE_CONTENT" and ph: "phase_ok c ph"
    using "1.prems" by (auto simp: at_phase_def phase_ok_def split: phase.splits)
  note pl = parseLine_at_phase [OF "1.prems", folded n_def]
  show ?case
  proof (cases "line_status_of t = LINE_OK")
    case False
    have "process_loop st cont c s = Inr (NO_REQUEST, c\<lparr> checkedIdx := n \<rparr>)"
      using pl cs False by (simp add: process_loop.simps [of st cont c s] split: line_status.splits)
    moreover have "at_phase (c\<lparr> checkedIdx := n \<rparr>) ph t"
      unfolding n_def by (rule at_phase_scan [OF "1.prems"])
    ultimately show ?thesis
      using False by (simp add: conn_parse.simps [of _ t] computes_def same_conn_def same_rest_def)
  next
    case True
    define l where "l = before NUL (line_of t)"
    define c1 where "c1 = c\<lparr> checkedIdx := n + 2, readBuf := (readBuf c)[n := NUL, n + 1 := NUL],
      startLine := n + 2 \<rparr>"
    note ready = line_ready [OF "1.prems" True, folded n_def l_def]
    note nxt = at_phase_next [OF "1.prems" True, folded n_def, folded c1_def]
    have l: "str_at (readBuf c1) (startLine c) l" "phase_ok c1 ph" "same_conn c c1"
      using ready by (simp_all add: c1_def same_conn_def same_rest_def)
    have lp: "outside c1 (startLine c) (startLine c + length l) c2 \<Longrightarrow> outside c1 (startLine c) n c2" for c2
      using ready(2) by (auto simp: outside_def)
    have c1s: "checkState c1 = checkState c" "checkedIdx c1 = n + 2" "startLine c1 = n + 2" by (simp_all add: c1_def)
    have step: "process_loop st cont c s = (case checkState c1 of
         CHECK_STATE_REQUESTLINE \<Rightarrow>
           bindE (parseRequestLine (startLine c) c1) (\<lambda>(ret, c).
             if ret = BAD_REQUEST then Inr (BAD_REQUEST, c) else process_loop st cont c LINE_OK)
       | CHECK_STATE_HEADER \<Rightarrow>
           bindE (parseHeaders (startLine c) c1) (\<lambda>(ret, c).
             if ret = BAD_REQUEST then Inr (BAD_REQUEST, c)
             else if ret = GET_REQUEST then doRequest st cont c
             else process_loop st cont c LINE_OK)
       | CHECK_STATE_CONTENT \<Rightarrow> undefined)"
      using pl cs True starts_with_cstr [OF str_atD [OF l(1)]]
      by (simp add: process_loop.simps [of st cont c s] Let_def getLine_def c1_def split: check_state.splits)
    show ?thesis
    proof (cases ph)
      case AtRequestLine
      then have cs1: "checkState c1 = CHECK_STATE_REQUESTLINE" "\<not> linger c1" "contentLength c1 = 0"
        using l(2) by (simp_all add: phase_ok_def)
      obtain c2 where c2: "parseRequestLine (startLine c) c1 =
          Inr (if conn_line l = None then BAD_REQUEST else NO_REQUEST, c2)"
          "line_done c1 (startLine c) (length l) (conn_line l) c2"
        using conn_request_line_spec [OF l(1)] by blast
      note d = c2(2) [unfolded line_done_def]
      have line_same: "same_conn c1 c2"
        using d lp ready(3) by (intro same_conn_outside [of c1 c2 "startLine c" n]) (simp_all add: c1_def)
      show ?thesis
      proof (cases "conn_line l")
        case None
        then have "process_loop st cont c s = Inr (BAD_REQUEST, c2)" using c2(1) by (simp add: step cs1)
        moreover have "same_conn c c2" "\<not> linger c2"
          using d cs1 same_conn_trans [OF l(3) line_same] by auto
        ultimately show ?thesis
          using True AtRequestLine None by (auto simp: conn_parse.simps [of _ t] computes_def l_def)
      next
        case (Some u)
        have loop: "process_loop st cont c s = process_loop st cont c2 LINE_OK"
          using c2(1) Some by (simp add: step cs1)
        have "phase_ok c2 (AtHeaders u False 0)"
          using d Some cs1 c1s ready(2) by (fastforce simp: phase_ok_def)
        then have "at_phase c2 (AtHeaders u False 0) (drop (length (line_of t) + 2) t)"
          using d c1s lp by (intro nxt) simp_all
        from "1.IH"(1) [OF True l_def refl AtRequestLine Some this, of LINE_OK]
        show ?thesis
          using computes_step [OF same_conn_trans [OF l(3) line_same]] True AtRequestLine Some
          by (simp add: conn_parse.simps [of _ t] Let_def loop flip: l_def)
      qed
    next
      case (AtHeaders u lg cl)
      then have cs1: "checkState c1 = CHECK_STATE_HEADER" "linger c1 = lg" "contentLength c1 = cl"
          "\<exists>q. url c1 = Some q \<and> str_at (readBuf c1) q u \<and> q + length u < startLine c1"
        using l(2) by (simp_all add: phase_ok_def)
      show ?thesis
      proof (cases "l = []")
        case l0: True
        have first: "rd (readBuf c1) (startLine c) = Inr NUL" using first_char_at(1) [OF l(1)] l0 by simp
        have r: "length (readBuf c1) = READ_BUFFER_SIZE" "readIdx c1 = readIdx c" "n + 2 \<le> readIdx c"
            "readIdx c \<le> READ_BUFFER_SIZE" "drop (n + 2) (take (readIdx c) (readBuf c1)) = drop (length (line_of t) + 2) t"
            "readBuf c1 ! (n + 1) = NUL"
          using "1.prems" ready(3,5,6) by (simp_all add: at_phase_def c1_def)
        show ?thesis
        proof (cases "cl = 0")
          case True
          have "process_loop st cont c s = doRequest st cont c1"
            using first True cs1 by (simp add: step parseHeaders_def)
          moreover have "at_phase c1 (AtHeaders u lg 0) (drop (length (line_of t) + 2) t)"
            using True AtHeaders l(2) c1s by (intro nxt) (simp_all add: outside_def)
          ultimately show ?thesis
            using \<open>line_status_of t = LINE_OK\<close> AtHeaders l0 True l(3)
            by (auto simp: conn_parse.simps [of _ t] computes_def Let_def simp flip: l_def)
        next
          case False
          have "process_loop st cont c s = process_loop st cont (c1\<lparr> checkState := CHECK_STATE_CONTENT \<rparr>) LINE_OK"
            using first False cs1 by (simp add: step parseHeaders_def)
          moreover have "same_conn c (c1\<lparr> checkState := CHECK_STATE_CONTENT \<rparr>)"
            using l(3) by (simp add: same_conn_def same_rest_def)
          ultimately show ?thesis
            using \<open>line_status_of t = LINE_OK\<close> AtHeaders l0 False cs1 r c1s
            by (auto simp: conn_parse.simps [of _ t] computes_def url_at_def Let_def simp flip: l_def)
        qed
      next
        case ne: False
        obtain c2 where c2: "parseHeaders (startLine c) c1 = Inr (NO_REQUEST, c2)"
            "header_done c1 (conn_header l lg cl) c2"
          using parseHeaders_spec [OF l(1) ne] cs1 by auto
        obtain lg' cl' where h: "conn_header l lg cl = (lg', cl')" by fastforce
        note d = c2(2) [unfolded header_done_def h]
        have header_same: "same_conn c1 c2" using d by (simp add: same_conn_def)
        have loop: "process_loop st cont c s = process_loop st cont c2 LINE_OK"
          using c2(1) by (simp add: step cs1)
        have "phase_ok c2 (AtHeaders u lg' cl')" using d cs1 c1s by (auto simp: phase_ok_def)
        then have "at_phase c2 (AtHeaders u lg' cl') (drop (length (line_of t) + 2) t)"
          using d c1s by (intro nxt) (simp_all add: outside_def)
        from "1.IH"(2) [OF True l_def refl AtHeaders ne h [symmetric] this, of LINE_OK]
        show ?thesis
          using computes_step [OF same_conn_trans [OF l(3) header_same]] True AtHeaders ne h
          by (simp add: conn_parse.simps [of _ t] Let_def loop flip: l_def)
      qed
    qed
  qed
qed

end
