(* ===== verification/HttpConnServe.thy ===== *)
theory HttpConnServe
  imports HttpConnParser
begin

text \<open>
  What \<open>HttpConn\<close> does between the event that makes its socket readable and the answer on the wire:
  reading into the buffer, the texts of the answers and the space they take, and requests as they are
  served or not.
\<close>

section \<open>Receiving\<close>

text \<open>
  What the handler of the v0.1 server does when the socket is readable: \<open>read\<close>, then \<open>process\<close>, or
  \<open>closeConn\<close> when \<open>read\<close> says so.
\<close>

definition on_readable ::
    "(string \<Rightarrow> (32 word \<times> nat) option) \<Rightarrow> (string \<Rightarrow> string option) \<Rightarrow> http_conn \<Rightarrow> conn_world \<Rightarrow>
     (http_conn \<times> conn_world) res" where
  "on_readable st cont c w = (case conn_read c w of (ok, c, w) \<Rightarrow>
     if ok then process st cont c w else Inr (closeConn True c w))"

text \<open>Pieces of input that arrive one after the other, each of them as one event.\<close>

fun arrive ::
    "(string \<Rightarrow> (32 word \<times> nat) option) \<Rightarrow> (string \<Rightarrow> string option) \<Rightarrow> string list \<Rightarrow>
     http_conn \<Rightarrow> conn_world \<Rightarrow> (http_conn \<times> conn_world) res" where
  "arrive st cont [] c w = Inr (c, w)"
| "arrive st cont (p # ps) c w =
     bindE (on_readable st cont c (w\<lparr> recvs := (recvs w)(sockFd c := [Received p]) \<rparr>))
       (\<lambda>(c, w). arrive st cont ps c w)"

lemma arrive_append:
  "arrive st cont (ps @ qs) c w = bindE (arrive st cont ps c w) (\<lambda>(c, w). arrive st cont qs c w)"
  by (induction ps arbitrary: c w) (auto simp: bindE_def split: sum.split)

text \<open>The connection with \<open>s\<close> behind what it has read.\<close>

definition received :: "string \<Rightarrow> http_conn \<Rightarrow> http_conn" where
  "received s c = c\<lparr> readBuf := take (readIdx c) (readBuf c) @ s @ drop (readIdx c + length s) (readBuf c),
     readIdx := readIdx c + length s \<rparr>"

lemma recv_loop_delivers:
  assumes "i + length (concat ss) \<le> READ_BUFFER_SIZE" "length b = READ_BUFFER_SIZE" "\<forall>s \<in> set ss. s \<noteq> []"
  shows "recv_loop b i (map Received ss) =
    (True, take i b @ concat ss @ drop (i + length (concat ss)) b, i + length (concat ss), [])"
  using assms
proof (induction ss arbitrary: b i)
  case Nil
  then show ?case by (simp add: recv_loop.simps [of b i "[]"])
next
  case (Cons s ss)
  let ?b = "take i b @ s @ drop (i + length s) b"
  have k: "min (READ_BUFFER_SIZE - i) (length s) = length s" "length s \<noteq> 0"
    using Cons.prems by auto
  have "recv_loop b i (map Received (s # ss)) = recv_loop ?b (i + length s) (map Received ss)"
    using k by (simp add: recv_loop.simps [of b i "Received s # map Received ss"] Let_def)
  also have "\<dots> = (True, take (i + length s) ?b @ concat ss @ drop (i + length s + length (concat ss)) ?b,
      i + length s + length (concat ss), [])"
    using Cons.prems by (intro Cons.IH) auto
  finally show ?case using Cons.prems by (simp add: ac_simps)
qed

lemma conn_read_delivers:
  assumes "length (readBuf c) = READ_BUFFER_SIZE" "readIdx c + length s \<le> READ_BUFFER_SIZE" "s \<noteq> []"
    "recvs w (sockFd c) = [Received s]"
  shows "conn_read c w = (True, received s c, w\<lparr> recvs := (recvs w)(sockFd c := []) \<rparr>)"
  using recv_loop_delivers [of "readIdx c" "[s]" "readBuf c"] assms by (simp add: conn_read_def received_def)

lemma at_phase_received:
  assumes "at_phase c ph t" "readIdx c + length s \<le> READ_BUFFER_SIZE"
  shows "at_phase (received s c) ph (t @ s)"
proof -
  let ?b = "readBuf (received s c)"
  have a: "length (readBuf c) = READ_BUFFER_SIZE" "readIdx c \<le> READ_BUFFER_SIZE"
      "startLine c \<le> checkedIdx c" "checkedIdx c \<le> readIdx c"
      "drop (startLine c) (take (readIdx c) (readBuf c)) = t" "phase_ok c ph"
      "startLine c = 0 \<or> readBuf c ! (startLine c - 1) \<noteq> CR"
      "\<forall>x \<in> set (take (checkedIdx c - startLine c) t). x \<noteq> CR \<and> x \<noteq> LF"
    using assms(1) by (simp_all add: at_phase_def)
  have b: "length ?b = READ_BUFFER_SIZE" "take (readIdx c + length s) ?b = take (readIdx c) (readBuf c) @ s"
    using a(1,2) assms(2) by (simp_all add: received_def)
  have sel: "readIdx (received s c) = readIdx c + length s" "startLine (received s c) = startLine c"
      "checkedIdx (received s c) = checkedIdx c" by (simp_all add: received_def)
  have nth: "?b ! i = readBuf c ! i" if "i < readIdx c" for i
    using that a(1,2) by (simp add: received_def nth_append)
  have lt: "length t = readIdx c - startLine c" using a(1,2) by (simp flip: a(5))
  have "startLine c \<le> readIdx c" using a(3,4) by simp
  then have "phase_ok (received s c) ph"
    using a(6) nth b(1) a(1)
    by (auto simp: phase_ok_def received_def split: phase.splits intro!: str_at_cong [of "readBuf c" _ _ ?b, unfolded received_def, simplified])
  moreover have "drop (startLine c) (take (readIdx c + length s) ?b) = t @ s"
    using a(1-5) by (simp add: b(2))
  moreover have "startLine c = 0 \<or> ?b ! (startLine c - 1) \<noteq> CR" using a(3,4,7) nth by auto
  moreover have "take (checkedIdx c - startLine c) (t @ s) = take (checkedIdx c - startLine c) t"
    using a(4) lt by simp
  ultimately show ?thesis
    using a(3,4,8) b(1) assms(2) by (simp add: at_phase_def sel del: take_append)
qed

lemma at_phase_init: "at_phase (init_conn c) AtRequestLine []"
  by (simp add: at_phase_def init_conn_def phase_ok_def READ_BUFFER_SIZE_def)

section \<open>The write buffer\<close>

text \<open>The write buffer holds \<open>x\<close>; one place is always left for the terminating zero.\<close>

definition holds :: "http_conn \<Rightarrow> string \<Rightarrow> bool" where
  "holds c x \<longleftrightarrow> length (writeBuf c) = WRITE_BUFFER_SIZE \<and> writeIdx c = length x \<and>
     take (length x) (writeBuf c) = x \<and> length x < WRITE_BUFFER_SIZE - 1"

definition same_but_text :: "http_conn \<Rightarrow> http_conn \<Rightarrow> bool" where
  "same_but_text c c' \<longleftrightarrow> c' = c\<lparr> writeBuf := writeBuf c', writeIdx := writeIdx c' \<rparr>"

lemma same_but_text_trans: "same_but_text a b \<Longrightarrow> same_but_text b c \<Longrightarrow> same_but_text a c"
  by (cases a; cases b; cases c) (simp add: same_but_text_def)

lemma same_but_text_sel:
  assumes "same_but_text c c'"
  shows "sockFd c' = sockFd c" "linger c' = linger c" "fileAddress c' = fileAddress c" "st_size c' = st_size c"
    "readBuf c' = readBuf c" "url c' = url c" "checkState c' = checkState c" "readIdx c' = readIdx c"
    "readFile c' = readFile c"
  using arg_cong [OF assms [unfolded same_but_text_def], of sockFd]
    arg_cong [OF assms [unfolded same_but_text_def], of linger]
    arg_cong [OF assms [unfolded same_but_text_def], of fileAddress]
    arg_cong [OF assms [unfolded same_but_text_def], of st_size]
    arg_cong [OF assms [unfolded same_but_text_def], of readBuf]
    arg_cong [OF assms [unfolded same_but_text_def], of url]
    arg_cong [OF assms [unfolded same_but_text_def], of checkState]
    arg_cong [OF assms [unfolded same_but_text_def], of readIdx]
    arg_cong [OF assms [unfolded same_but_text_def], of readFile]
  by simp_all

lemma addResponse_holds:
  assumes "holds c x"
  shows "fst (addResponse s c) \<longleftrightarrow> length (x @ s) < WRITE_BUFFER_SIZE - 1"
    and "holds (snd (addResponse s c)) (if length (x @ s) < WRITE_BUFFER_SIZE - 1 then x @ s else x)"
    and "same_but_text c (snd (addResponse s c))"
proof -
  have h: "length (writeBuf c) = WRITE_BUFFER_SIZE" "writeIdx c = length x"
    "take (length x) (writeBuf c) = x" "length x < WRITE_BUFFER_SIZE - 1"
    using assms by (simp_all add: holds_def)
  define room k where "room = WRITE_BUFFER_SIZE - 1 - length x" and "k = min (length s) (room - 1)"
  have room: "0 < room" "k < room" "room + length x + 1 = WRITE_BUFFER_SIZE"
    using h(4) by (auto simp: room_def k_def)
  define b where "b = x @ take k s @ [NUL] @ drop (length x + k + 1) (writeBuf c)"
  have b: "length b = WRITE_BUFFER_SIZE" "take (length x) b = x"
    using room h(1) by (auto simp: b_def k_def)
  have e: "WRITE_BUFFER_SIZE - 1 - writeIdx c = room" "\<not> WRITE_BUFFER_SIZE \<le> writeIdx c" "room \<noteq> 0"
    using h(2,4) room(1) by (simp_all add: room_def)
  have a: "addResponse s c = (if room \<le> length s then (False, c\<lparr> writeBuf := b \<rparr>)
      else (True, c\<lparr> writeBuf := b, writeIdx := length x + length s \<rparr>))"
    unfolding addResponse_def Let_def e(1) using e(2,3) h(2,3) by (simp add: b_def k_def)
  have r: "room \<le> length s \<longleftrightarrow> \<not> length (x @ s) < WRITE_BUFFER_SIZE - 1"
    using room(3) by auto
  show "fst (addResponse s c) \<longleftrightarrow> length (x @ s) < WRITE_BUFFER_SIZE - 1"
    by (simp only: a) (use r in auto)
  have "take (length x + length s) b = x @ s" if "\<not> room \<le> length s"
  proof -
    have "k = length s" using that by (simp add: k_def)
    then show ?thesis by (simp add: b_def)
  qed
  then show "holds (snd (addResponse s c)) (if length (x @ s) < WRITE_BUFFER_SIZE - 1 then x @ s else x)"
    unfolding a using b h r by (auto simp: holds_def)
  show "same_but_text c (snd (addResponse s c))"
    unfolding a by (simp add: same_but_text_def)
qed

lemma addResponse_fits:
  assumes "holds c x" "length x + length s < WRITE_BUFFER_SIZE - 1"
  obtains c' where "addResponse s c = (True, c')" "holds c' (x @ s)" "same_but_text c c'"
  using addResponse_holds [OF assms(1), of s] assms(2) by (cases "addResponse s c") auto

section \<open>The texts of the answers\<close>

definition response_head :: "int \<Rightarrow> string \<Rightarrow> int \<Rightarrow> bool \<Rightarrow> string" where
  "response_head status title len lg = ''HTTP/1.1'' @ [SP] @ decimal status @ [SP] @ title @ CRLF @
     ''Content-Length: '' @ decimal len @ CRLF @
     ''Connection: '' @ (if lg then ''keep-alive'' else ''close'') @ CRLF @ CRLF"

lemma length_decimal_nat: "n < 10 ^ Suc k \<Longrightarrow> length (decimal_nat n) \<le> Suc k"
proof (induction k arbitrary: n)
  case 0
  then show ?case by (simp add: decimal_nat.simps [of n])
next
  case (Suc k)
  show ?case
  proof (cases "n < 10")
    case True
    then show ?thesis by (simp add: decimal_nat.simps [of n])
  next
    case False
    have "n div 10 < 10 ^ Suc k" using Suc.prems by (simp add: less_mult_imp_div_less mult.commute)
    then show ?thesis using Suc.IH [of "n div 10"] False by (simp add: decimal_nat.simps [of n])
  qed
qed

lemma length_decimal_int:
  assumes "INT_MIN \<le> i" "i \<le> INT_MAX"
  shows "length (decimal i) \<le> 11"
proof -
  have "nat \<bar>i\<bar> < 10 ^ Suc 9" using assms by (simp add: INT_MIN_def INT_MAX_def)
  then show ?thesis using length_decimal_nat [of "nat \<bar>i\<bar>" 9] by (auto simp: decimal_def)
qed

lemma add_head:
  assumes "holds c x" "length x + length title < 900" "INT_MIN \<le> status" "status \<le> INT_MAX"
    "INT_MIN \<le> len" "len \<le> INT_MAX"
  obtains c' where "addHeaders len (snd (addStatusLine status title c)) = c'"
    "holds c' (x @ response_head status title len (linger c))" "same_but_text c c'"
proof -
  have d: "length (decimal status) \<le> 11" "length (decimal len) \<le> 11"
    using assms(3-6) length_decimal_int by blast+
  note size = WRITE_BUFFER_SIZE_def
  obtain c1 where c1: "addStatusLine status title c = (True, c1)"
      "holds c1 (x @ (''HTTP/1.1'' @ [SP] @ decimal status @ [SP] @ title @ CRLF))" "same_but_text c c1"
    unfolding addStatusLine_def by (rule addResponse_fits [OF assms(1)]) (use d(1) assms(2) in \<open>auto simp: size\<close>)
  obtain c2 where c2: "addContentLength len c1 = (True, c2)"
      "holds c2 ((x @ (''HTTP/1.1'' @ [SP] @ decimal status @ [SP] @ title @ CRLF)) @
        (''Content-Length: '' @ decimal len @ CRLF))" "same_but_text c1 c2"
    unfolding addContentLength_def by (rule addResponse_fits [OF c1(2)]) (use d assms(2) in \<open>auto simp: size\<close>)
  have lg: "linger c2 = linger c" using same_but_text_sel(2) c1(3) c2(3) by metis
  obtain c3 where c3: "addLinger c2 = (True, c3)"
      "holds c3 (((x @ (''HTTP/1.1'' @ [SP] @ decimal status @ [SP] @ title @ CRLF)) @
        (''Content-Length: '' @ decimal len @ CRLF)) @
        (''Connection: '' @ (if linger c then ''keep-alive'' else ''close'') @ CRLF))" "same_but_text c2 c3"
    unfolding addLinger_def lg by (rule addResponse_fits [OF c2(2)]) (use d assms(2) in \<open>auto simp: size\<close>)
  obtain c4 where c4: "addBlankLine c3 = (True, c4)"
      "holds c4 ((((x @ (''HTTP/1.1'' @ [SP] @ decimal status @ [SP] @ title @ CRLF)) @
        (''Content-Length: '' @ decimal len @ CRLF)) @
        (''Connection: '' @ (if linger c then ''keep-alive'' else ''close'') @ CRLF)) @ CRLF)" "same_but_text c3 c4"
    unfolding addBlankLine_def by (rule addResponse_fits [OF c3(2)]) (use d assms(2) in \<open>auto simp: size\<close>)
  have "holds c4 (x @ response_head status title len (linger c))"
    using c4(2) by (simp add: response_head_def)
  moreover have "same_but_text c c4"
    using same_but_text_trans [OF same_but_text_trans [OF c1(3) c2(3)] same_but_text_trans [OF c3(3) c4(3)]] .
  ultimately show ?thesis
    using that [of c4] c1(1) c2(1) c3(1) c4(1) by (simp add: addHeaders_def)
qed

section \<open>The requested file\<close>

definition file_name :: "string \<Rightarrow> string" where
  "file_name u = docRoot @ take (FILENAME_LEN - length docRoot - 1) u"

definition file_ok :: "http_conn \<Rightarrow> bool" where
  "file_ok c \<longleftrightarrow> length (readFile c) = FILENAME_LEN \<and> drop 199 (readFile c) = [NUL]"

lemma doRequest_spec:
  assumes "url_at c u" "file_ok c"
  obtains f where "file_ok (c\<lparr> readFile := f \<rparr>)"
    "doRequest st cont c = Inr (case st (file_name u) of
       None \<Rightarrow> (NO_REQUEST, c\<lparr> readFile := f \<rparr>)
     | Some (mode, sz) \<Rightarrow>
         let c = c\<lparr> readFile := f, st_mode := mode, st_size := sz \<rparr> in
         if mode AND S_IROTH = 0 then (FORBIDDEN_REQUEST, c)
         else if S_ISDIR mode then (BAD_REQUEST, c)
         else (FILE_REQUEST, c\<lparr> fileAddress := (case cont (file_name u) of
           None \<Rightarrow> MapFailed | Some s \<Rightarrow> if sz = 0 then MapFailed else Mapped s) \<rparr>))"
proof -
  obtain q where q: "url c = Some q" "str_at (readBuf c) q u" using assms(1) by (auto simp: url_at_def)
  define s where "s = take 194 u"
  define f where "f = docRoot @ s @ replicate (194 - length s) NUL @ drop 199 (readFile c)"
  have d: "length docRoot = 5" "NUL \<notin> set docRoot" "docRoot \<noteq> []" by (simp_all add: docRoot_def)
  have s: "NUL \<notin> set s" "length s \<le> 194"
    using str_at_nth(4) [OF q(2)] by (auto simp: s_def dest: in_set_takeD)
  have f: "f = (docRoot @ s) @ NUL # (replicate (194 - length s) NUL)"
    using assms(2) by (simp add: f_def file_ok_def replicate_append_same)
  have "cstr f = Inr (docRoot @ s)"
    using d(2) s(1) by (intro starts_with_cstr) (auto simp: f starts_with_def)
  moreover have "strncpy_from (drop q (readBuf c)) 194 = Inr s"
    using strncpy_string [OF str_atD [OF q(2)]] by (simp add: s_def)
  moreover have "file_ok (c\<lparr> readFile := f \<rparr>)"
    using assms(2) d s by (simp add: file_ok_def f_def FILENAME_LEN_def)
  moreover have "docRoot @ s = file_name u" by (simp add: file_name_def s_def d FILENAME_LEN_def)
  ultimately show ?thesis
    using that [of f] q d by (cases "st (file_name u)") (auto simp: doRequest_def Let_def FILENAME_LEN_def f_def split: option.split)
qed

lemma doRequest_file:
  assumes "url_at c u" "file_ok c" "st (file_name u) = Some (mode, length d)" "mode AND S_IROTH \<noteq> 0"
    "\<not> S_ISDIR mode" "cont (file_name u) = Some d" "d \<noteq> []"
  shows "\<exists>f. doRequest st cont c = Inr (FILE_REQUEST, c\<lparr> readFile := f, st_mode := mode,
    st_size := length d, fileAddress := Mapped d \<rparr>)"
  by (rule doRequest_spec [OF assms(1,2), of st cont]) (use assms(3-7) in \<open>auto simp: Let_def\<close>)

lemma doRequest_missing:
  assumes "url_at c u" "file_ok c" "st (file_name u) = None"
  shows "\<exists>f. doRequest st cont c = Inr (NO_REQUEST, c\<lparr> readFile := f \<rparr>) \<and> file_ok (c\<lparr> readFile := f \<rparr>)"
  by (rule doRequest_spec [OF assms(1,2), of st cont]) (use assms(3) in auto)

lemma doRequest_denied:
  assumes "url_at c u" "file_ok c" "st (file_name u) = Some (mode, sz)" "mode AND S_IROTH = 0 \<or> S_ISDIR mode"
  shows "\<exists>f. doRequest st cont c = Inr (if mode AND S_IROTH = 0 then FORBIDDEN_REQUEST else BAD_REQUEST,
    c\<lparr> readFile := f, st_mode := mode, st_size := sz \<rparr>)"
  by (rule doRequest_spec [OF assms(1,2), of st cont]) (use assms(3,4) in \<open>auto simp: Let_def\<close>)

section \<open>Waiting for a request\<close>

definition tail_zero :: "http_conn \<Rightarrow> bool" where
  "tail_zero c \<longleftrightarrow> drop (readIdx c) (readBuf c) = replicate (READ_BUFFER_SIZE - readIdx c) NUL"

definition waits_for :: "http_conn \<Rightarrow> phase \<Rightarrow> string \<Rightarrow> bool" where
  "waits_for c ph t \<longleftrightarrow> at_phase c ph t \<and> holds c [] \<and> file_ok c \<and> tail_zero c"

lemma tail_zero_received:
  assumes "tail_zero c" "length (readBuf c) = READ_BUFFER_SIZE" "readIdx c + length s \<le> READ_BUFFER_SIZE"
  shows "tail_zero (received s c)"
proof -
  have "drop (readIdx c + length s) (readBuf c) = drop (length s) (replicate (READ_BUFFER_SIZE - readIdx c) NUL)"
    using assms(1) by (metis add.commute drop_drop tail_zero_def)
  then show ?thesis using assms(2,3) by (simp add: tail_zero_def received_def)
qed

lemma tail_zero_same: "same_conn c c' \<Longrightarrow> tail_zero c \<Longrightarrow> tail_zero c'"
  by (simp add: same_conn_def same_rest_def tail_zero_def)

definition conn_fresh :: "http_conn \<Rightarrow> bool" where
  "conn_fresh c \<longleftrightarrow> waits_for c AtRequestLine [] \<and> readIdx c = 0"

lemma init_fresh: "conn_fresh (init_conn c)"
  by (simp add: conn_fresh_def waits_for_def at_phase_init)
    (simp add: init_conn_def holds_def file_ok_def tail_zero_def WRITE_BUFFER_SIZE_def FILENAME_LEN_def)

lemma waits_for_rest:
  "same_rest c c' \<Longrightarrow> holds c x \<Longrightarrow> holds c' x"
  "same_rest c c' \<Longrightarrow> file_ok c \<Longrightarrow> file_ok c'"
  by (simp_all add: same_rest_def holds_def file_ok_def)

text \<open>The world as a connection leaves it that only read: its socket is armed for these events.\<close>

definition armed :: "32 word \<Rightarrow> int \<Rightarrow> conn_world \<Rightarrow> conn_world \<Rightarrow> bool" where
  "armed ev n w w' \<longleftrightarrow> listening ev n w' \<and> fds_ok w' \<and> out w' = out w \<and> writevs w' = writevs w \<and>
     userCount w' = userCount w \<and> (\<forall>m. m \<noteq> n \<longrightarrow> interests w' m = interests w m)"

lemma armed_registered: "armed ev n w w' \<Longrightarrow> interests w' n \<noteq> None"
  by (simp add: armed_def listening_def)

lemma armed_trans: "armed e n a b \<Longrightarrow> armed ev n b c \<Longrightarrow> armed ev n a c"
  by (simp add: armed_def)

lemma modFd_armed:
  assumes "fds_ok w" "interests w n \<noteq> None"
  shows "armed ev n w (modFd n ev (w\<lparr> recvs := r \<rparr>))"
proof -
  let ?w = "w\<lparr> recvs := r \<rparr>"
  have w: "fds_ok ?w" "interests ?w n \<noteq> None" using assms by (simp_all add: fds_ok_def)
  show ?thesis
    using fds_ok_modFd [OF w(1), of n ev] modFd_listening [OF w, of ev]
    by (simp add: armed_def) (simp add: modFd_registered [OF w])
qed

text \<open>What reading new characters leads to, by the outcome of the reference parser.\<close>

lemma on_readable_eq:
  assumes "waits_for c ph t" "readIdx c + length p \<le> READ_BUFFER_SIZE" "p \<noteq> []"
    "recvs w (sockFd c) = [Received p]"
  shows "on_readable st cont c w =
      process st cont (received p c) (w\<lparr> recvs := (recvs w)(sockFd c := []) \<rparr>)"
    and "computes (doRequest st cont) (\<lambda>c. process_loop st cont c LINE_OK) (received p c)
      (processRead st cont (received p c)) (conn_parse ph (t @ p))"
    and "holds (received p c) []" "file_ok (received p c)" "sockFd (received p c) = sockFd c"
    and "readIdx (received p c) = readIdx c + length p" "tail_zero (received p c)"
proof -
  have c: "at_phase c ph t" "holds c []" "file_ok c" "length (readBuf c) = READ_BUFFER_SIZE" "tail_zero c"
    using assms(1) by (simp_all add: waits_for_def at_phase_def)
  show "on_readable st cont c w =
      process st cont (received p c) (w\<lparr> recvs := (recvs w)(sockFd c := []) \<rparr>)"
    using conn_read_delivers [OF c(4) assms(2,3,4)] by (simp add: on_readable_def)
  show "computes (doRequest st cont) (\<lambda>c. process_loop st cont c LINE_OK) (received p c)
      (processRead st cont (received p c)) (conn_parse ph (t @ p))"
    unfolding processRead_def by (rule process_loop_spec [OF at_phase_received [OF c(1) assms(2)]])
  show "holds (received p c) []" "file_ok (received p c)" "sockFd (received p c) = sockFd c"
    "readIdx (received p c) = readIdx c + length p"
    using c by (simp_all add: received_def holds_def file_ok_def)
  show "tail_zero (received p c)" by (rule tail_zero_received [OF c(5,4) assms(2)])
qed

lemma conn_parse_body_more:
  "conn_parse ph t = HasBody u lg cl rest \<Longrightarrow> conn_parse ph (t @ s) = HasBody u lg cl (rest @ s)"
proof (induction ph t rule: conn_parse.induct)
  case (1 ph t)
  have True: "line_status_of t = LINE_OK"
    using "1.prems" by (auto simp: conn_parse.simps [of ph t] split: if_splits)
  show ?case
    using "1.prems" "1.IH" [OF True refl refl] True
    by (auto simp: conn_parse.simps [of ph t] conn_parse.simps [of ph "t @ s"] line_status_more [OF True]
        Let_def split: phase.splits option.splits if_splits prod.splits)
qed

lemma conn_parse_prefix_waits:
  assumes "conn_parse ph (s @ t) = Waiting ph' r"
  obtains ph1 r1 where "conn_parse ph s = Waiting ph1 r1" "conn_parse ph1 (r1 @ t) = Waiting ph' r"
proof (cases "conn_parse ph s")
  case (Waiting ph1 r1)
  then show ?thesis using that conn_parse_more [OF Waiting] assms by simp
next
  case Rejected
  then show ?thesis using conn_parse_final [OF Rejected] assms by simp
next
  case (Asks u lg)
  then show ?thesis using conn_parse_final [OF Asks] assms by simp
next
  case (HasBody u lg cl rest)
  then show ?thesis using conn_parse_body_more [OF HasBody] assms by simp
qed

lemma on_readable_waits:
  assumes "waits_for c ph t" "readIdx c + length p \<le> READ_BUFFER_SIZE" "p \<noteq> []"
    "recvs w (sockFd c) = [Received p]" "fds_ok w" "interests w (sockFd c) \<noteq> None"
    "conn_parse ph (t @ p) = Waiting ph' t'"
  shows "\<exists>c' w'. on_readable st cont c w = Inr (c', w') \<and> waits_for c' ph' t' \<and>
    sockFd c' = sockFd c \<and> readIdx c' = readIdx c + length p \<and> armed EPOLLIN (sockFd c) w w'"
proof -
  note e = on_readable_eq [OF assms(1-4)]
  obtain c' where c': "processRead st cont (received p c) = Inr (NO_REQUEST, c')" "at_phase c' ph' t'"
      "same_conn (received p c) c'"
    using e(2) [of st cont] assms(7) by (auto simp: computes_def)
  note r = same_conn_rest [OF c'(3)]
  have s: "sockFd c' = sockFd c" "readIdx c' = readIdx c + length p"
    using r e(5,6) by (simp_all add: same_rest_def)
  then show ?thesis
    using e(1) c' waits_for_rest [OF r] tail_zero_same [OF c'(3) e(7)] e(3,4) modFd_armed [OF assms(5,6)]
    by (simp add: process_def respond_def waits_for_def)
qed

lemma arrive_waits:
  assumes "waits_for c ph t" "readIdx c + length (concat ps) \<le> READ_BUFFER_SIZE" "\<forall>p \<in> set ps. p \<noteq> []"
    "fds_ok w" "interests w (sockFd c) \<noteq> None" "conn_parse ph (t @ concat ps) = Waiting ph' t'" "ps \<noteq> []"
  shows "\<exists>c' w'. arrive st cont ps c w = Inr (c', w') \<and> waits_for c' ph' t' \<and>
    sockFd c' = sockFd c \<and> readIdx c' = readIdx c + length (concat ps) \<and> armed EPOLLIN (sockFd c) w w'"
  using assms
proof (induction ps arbitrary: c w ph t)
  case (Cons p ps)
  let ?w = "w\<lparr> recvs := (recvs w)(sockFd c := [Received p]) \<rparr>"
  have w: "fds_ok ?w" "interests ?w (sockFd c) \<noteq> None" "recvs ?w (sockFd c) = [Received p]"
    using Cons.prems by (simp_all add: fds_ok_def)
  obtain ph1 r1 where r1: "conn_parse ph (t @ p) = Waiting ph1 r1"
      "conn_parse ph1 (r1 @ concat ps) = Waiting ph' t'"
    using conn_parse_prefix_waits [of ph "t @ p" "concat ps" ph' t'] Cons.prems(6) by auto
  obtain c1 w1 where c1: "on_readable st cont c ?w = Inr (c1, w1)" "waits_for c1 ph1 r1"
      "sockFd c1 = sockFd c" "readIdx c1 = readIdx c + length p" "armed EPOLLIN (sockFd c) ?w w1"
    using on_readable_waits [OF Cons.prems(1) _ _ w(3,1,2) r1(1), of st cont] Cons.prems(2,3) by auto
  have a: "armed EPOLLIN (sockFd c) w w1" using c1(5) by (simp add: armed_def)
  show ?case
  proof (cases "ps = []")
    case True
    then have "ph1 = ph'" "r1 = t'" using r1 conn_parse_more [OF r1(1), of "[]"] by auto
    then show ?thesis using c1 a True by simp
  next
    case False
    have w1: "fds_ok w1" "interests w1 (sockFd c1) \<noteq> None"
      using a armed_registered [OF a] c1(3) by (simp_all add: armed_def)
    obtain c2 w2 where "arrive st cont ps c1 w1 = Inr (c2, w2)" "waits_for c2 ph' t'" "sockFd c2 = sockFd c1"
        "readIdx c2 = readIdx c1 + length (concat ps)" "armed EPOLLIN (sockFd c1) w1 w2"
      using Cons.IH [OF c1(2) _ _ w1 r1(2) False] Cons.prems(2,3) c1(4) by (auto simp: add.assoc)
    then show ?thesis using c1 armed_trans [OF a] by simp
  qed
qed simp

section \<open>Answers\<close>

text \<open>The answers with a text: their code, title and text.\<close>

definition error_answer :: "http_code \<Rightarrow> (int \<times> string \<times> string) option" where
  "error_answer code = (case code of
     INTERNAL_ERROR \<Rightarrow> Some (500, ''Internal Error'',
       ''There was an unusual problem serving the request file.'' @ [LF])
   | BAD_REQUEST \<Rightarrow> Some (400, ''Bad Request'',
       ''Your request has bad syntax or is inherently impossible to satisfy.'' @ [LF])
   | NO_REQUEST \<Rightarrow> Some (404, ''Not Found'', ''The request file was not found on this server.'' @ [LF])
   | FORBIDDEN_REQUEST \<Rightarrow> Some (403, ''Forbidden'',
       ''You do not have permission to get file from this server.'' @ [LF])
   | _ \<Rightarrow> None)"

definition answer_ready :: "http_conn \<Rightarrow> string \<Rightarrow> http_conn \<Rightarrow> bool" where
  "answer_ready c s c' \<longleftrightarrow> holds c' s \<and> iv c' = [(WriteBuf, length s)] \<and> sockFd c' = sockFd c \<and>
     linger c' = linger c \<and> fileAddress c' = fileAddress c"

lemma answer_text_spec:
  assumes "holds c []" "length title < 100" "length form < 700" "INT_MIN \<le> status" "status \<le> INT_MAX"
  obtains c' where "answer_text status title form c = (True, c')"
    "answer_ready c (response_head status title (int (length form)) (linger c) @ form) c'"
proof -
  let ?h = "response_head status title (int (length form)) (linger c)"
  have l: "INT_MIN \<le> int (length form)" "int (length form) \<le> INT_MAX"
    using assms(3) by (simp_all add: INT_MIN_def INT_MAX_def)
  have d: "length (decimal status) \<le> 11" "length (decimal (int (length form))) \<le> 11"
    using assms(4,5) l length_decimal_int by blast+
  have "length ([] :: string) + length title < 900" using assms(2) by simp
  then obtain c1 where c1: "addHeaders (int (length form)) (snd (addStatusLine status title c)) = c1"
      "holds c1 ?h" "same_but_text c c1"
    using add_head [OF assms(1) _ assms(4,5) l] by (metis append_Nil)
  have "length ?h + length form < WRITE_BUFFER_SIZE - 1"
    using d assms(2,3) by (auto simp: response_head_def WRITE_BUFFER_SIZE_def)
  then obtain c2 where c2: "addContent form c1 = (True, c2)" "holds c2 (?h @ form)" "same_but_text c1 c2"
    unfolding addContent_def by (rule addResponse_fits [OF c1(2)])
  have s: "same_but_text c c2" using same_but_text_trans [OF c1(3) c2(3)] .
  show ?thesis
    by (rule that [of "c2\<lparr> iv := [(WriteBuf, writeIdx c2)] \<rparr>"])
      (use c1(1) c2 same_but_text_sel [OF s] in
        \<open>auto simp: answer_text_def Let_def answer_ready_def holds_def\<close>)
qed

lemma processWrite_error:
  assumes "holds c []" "error_answer code = Some (status, title, form)"
  shows "\<exists>c'. processWrite code c = (True, c') \<and>
    answer_ready c (response_head status title (int (length form)) (linger c) @ form) c'"
proof -
  have "processWrite code c = answer_text status title form c \<and> length title < 100 \<and> length form < 700 \<and>
      INT_MIN \<le> status \<and> status \<le> INT_MAX"
    using assms(2)
    by (auto simp: error_answer_def processWrite_def INT_MIN_def INT_MAX_def error_500_title_def
        error_500_form_def error_400_title_def error_400_form_def error_404_title_def error_404_form_def
        error_403_title_def error_403_form_def split: http_code.splits)
  then show ?thesis using answer_text_spec [OF assms(1), of title form status] by metis
qed

lemma processWrite_file:
  assumes "holds c []" "st_size c \<noteq> 0" "int (st_size c) \<le> INT_MAX"
  obtains c' where "processWrite FILE_REQUEST c = (True, c')"
    "holds c' (response_head 200 ''OK'' (int (st_size c)) (linger c))"
    "iv c' = [(WriteBuf, writeIdx c'), (FileMap, st_size c)]" "sockFd c' = sockFd c" "linger c' = linger c"
    "fileAddress c' = fileAddress c"
proof -
  let ?len = "to_int (int (st_size c))"
  have len: "?len = int (st_size c)" using assms(3) to_int_id by (simp add: INT_MIN_def)
  have l: "INT_MIN \<le> int (st_size c)" by (simp add: INT_MIN_def)
  have r: "INT_MIN \<le> (200 :: int)" "(200 :: int) \<le> INT_MAX" by (simp_all add: INT_MIN_def INT_MAX_def)
  have t: "length ([] :: string) + length ok_200_title < 900" by (simp add: ok_200_title_def)
  obtain c1 where c1: "addHeaders (int (st_size c)) (snd (addStatusLine 200 ok_200_title c)) = c1"
      "holds c1 (response_head 200 ''OK'' (int (st_size c)) (linger c))" "same_but_text c c1"
    using add_head [OF assms(1) t r l assms(3)] by (metis append_Nil ok_200_title_def)
  have "same_but_text c (snd (addStatusLine 200 ok_200_title c))"
    unfolding addStatusLine_def by (rule addResponse_holds(3) [OF assms(1)])
  then have sz: "st_size (snd (addStatusLine 200 ok_200_title c)) = st_size c"
    by (rule same_but_text_sel(4))
  show ?thesis
    by (rule that [of "c1\<lparr> iv := [(WriteBuf, writeIdx c1), (FileMap, st_size c)] \<rparr>"])
      (use c1 sz assms(2) len same_but_text_sel [OF c1(3)] in \<open>simp_all add: processWrite_def Let_def holds_def\<close>)
qed

section \<open>Sending an answer\<close>

lemma holds_slice: "holds c s \<Longrightarrow> slice (writeBuf c) 0 (length s) = Inr s"
  by (auto simp: holds_def slice_def)

lemma iov_data_text: "holds c s \<Longrightarrow> iov_data c [(WriteBuf, length s)] = Inr s"
  by (simp add: holds_slice)

lemma iov_data_file:
  "holds c s \<Longrightarrow> fileAddress c = Mapped d \<Longrightarrow>
   iov_data c [(WriteBuf, writeIdx c), (FileMap, length d)] = Inr (s @ d)"
  using holds_slice [of c s] by (simp add: holds_def)

text \<open>An answer that is queued: \<open>iv\<close> points to exactly these characters.\<close>

definition queued :: "http_conn \<Rightarrow> string \<Rightarrow> bool \<Rightarrow> http_conn \<Rightarrow> bool" where
  "queued c ans lg c' \<longleftrightarrow> iov_data c' (iv c') = Inr ans \<and> linger c' = lg \<and> sockFd c' = sockFd c \<and>
     (\<exists>x y. ans = x @ y \<and> holds c' x \<and> x \<noteq> [])"

lemma respond_file:
  assumes "holds c []" "st_size c = length d" "d \<noteq> []" "int (length d) \<le> INT_MAX" "fileAddress c = Mapped d"
  shows "\<exists>c'. respond FILE_REQUEST c w = (c', modFd (sockFd c) EPOLLOUT w) \<and>
    queued c (response_head 200 ''OK'' (int (length d)) (linger c) @ d) (linger c) c'"
proof -
  have sz: "st_size c \<noteq> 0" "int (st_size c) \<le> INT_MAX" using assms(2-4) by simp_all
  obtain c' where c': "processWrite FILE_REQUEST c = (True, c')"
      "holds c' (response_head 200 ''OK'' (int (length d)) (linger c))"
      "iv c' = [(WriteBuf, writeIdx c'), (FileMap, length d)]" "sockFd c' = sockFd c" "linger c' = linger c"
      "fileAddress c' = Mapped d"
    using processWrite_file [OF assms(1) sz] assms(2,5) by auto
  have "response_head 200 ''OK'' (int (length d)) (linger c) \<noteq> []" by (simp add: response_head_def)
  then show ?thesis
    using c' iov_data_file [OF c'(2,6)] by (auto simp: respond_def queued_def)
qed

lemma respond_error:
  assumes "holds c []" "error_answer code = Some (status, title, form)" "code \<noteq> NO_REQUEST"
  shows "\<exists>c'. respond code c w = (c', modFd (sockFd c) EPOLLOUT w) \<and>
    queued c (response_head status title (int (length form)) (linger c) @ form) (linger c) c'"
proof -
  let ?s = "response_head status title (int (length form)) (linger c) @ form"
  obtain c' where c': "processWrite code c = (True, c')" "answer_ready c ?s c'"
    using processWrite_error [OF assms(1,2)] by blast
  have "?s \<noteq> []" by (simp add: response_head_def)
  then show ?thesis
    using c' assms(3) iov_data_text [of c' ?s] by (auto simp: respond_def queued_def answer_ready_def)
qed

text \<open>
  A socket that takes the whole answer at once. Nothing is left of the request when the connection
  is kept; in both cases the socket is armed for reading.
\<close>

definition sends :: "int \<Rightarrow> string \<Rightarrow> conn_world \<Rightarrow> conn_world \<Rightarrow> bool" where
  "sends n s w w' \<longleftrightarrow> out w' = (out w)(n := out w n @ s) \<and> userCount w' = userCount w"

definition takes :: "nat \<Rightarrow> int \<Rightarrow> conn_world \<Rightarrow> conn_world" where
  "takes k n w = w\<lparr> writevs := (writevs w)(n := [Takes k]) \<rparr>"

lemma conn_write_takes:
  assumes "iov_data c (iv c) = Inr s" "holds c x" "x \<noteq> []" "int (length x) \<le> 2 * int (min k (length s))"
    "fds_ok w" "interests w (sockFd c) \<noteq> None"
  shows "\<exists>c' w'. conn_write c (takes k (sockFd c) w) = Inr (linger c, c', w') \<and>
    sends (sockFd c) (take k s) w w' \<and>
    listening EPOLLIN (sockFd c) w' \<and> fds_ok w' \<and> sockFd c' = sockFd c \<and> (linger c \<longrightarrow> conn_fresh c')"
proof -
  let ?w = "w\<lparr> writevs := (writevs w)(sockFd c := []), out := (out w)(sockFd c := out w (sockFd c) @ take k s) \<rparr>"
  let ?w' = "modFd (sockFd c) EPOLLIN ?w"
  have ok: "fds_ok ?w" "interests ?w (sockFd c) \<noteq> None" using assms(5,6) by (simp_all add: fds_ok_def)
  have u: "linger (unmap c) = linger c" "sockFd (unmap c) = sockFd c" by (simp_all add: unmap_def)
  have "conn_write c (takes k (sockFd c) w) = Inr (linger c, if linger c then init_conn (unmap c) else unmap c, ?w')"
    using assms(1-4) u by (simp add: conn_write_def holds_def Let_def init_conn_def takes_def)
  moreover have "sends (sockFd c) (take k s) w ?w'"
    by (simp add: sends_def modFd_registered [OF ok])
  ultimately show ?thesis
    using modFd_listening [OF ok] fds_ok_modFd [OF ok(1)] init_fresh u by (auto simp: init_conn_def)
qed

lemma queued_sent:
  assumes "queued c ans lg c'" "length ans \<le> k" "fds_ok w" "interests w (sockFd c) \<noteq> None"
  shows "\<exists>c2 w2. conn_write c' (takes k (sockFd c) w) = Inr (lg, c2, w2) \<and> sends (sockFd c) ans w w2 \<and>
    listening EPOLLIN (sockFd c) w2 \<and> (lg \<longrightarrow> conn_fresh c2)"
proof -
  obtain x y where q: "iov_data c' (iv c') = Inr ans" "linger c' = lg" "sockFd c' = sockFd c" "ans = x @ y"
      "holds c' x" "x \<noteq> []"
    using assms(1) by (auto simp: queued_def)
  then show ?thesis
    using conn_write_takes [OF q(1,5,6), of k w] assms(2-4) by auto
qed

lemma modFd_keeps:
  assumes "fds_ok w" "interests w n \<noteq> None"
  shows "fds_ok (modFd n ev w)" "interests (modFd n ev w) n \<noteq> None" "listening ev n (modFd n ev w)"
    "out (modFd n ev w) = out w" "userCount (modFd n ev w) = userCount w"
    "recvs (modFd n ev w) = recvs w" "writevs (modFd n ev w) = writevs w"
proof -
  show "fds_ok (modFd n ev w)" by (rule fds_ok_modFd [OF assms(1)])
  show l: "listening ev n (modFd n ev w)" by (rule modFd_listening [OF assms])
  then show "interests (modFd n ev w) n \<noteq> None" by (simp add: listening_def)
qed (simp_all add: modFd_registered [OF assms])

section \<open>A request that has arrived\<close>

lemma arrive_asks:
  assumes "conn_fresh c" "fds_ok w" "interests w (sockFd c) \<noteq> None"
    and "\<forall>p \<in> set ps. p \<noteq> []" "length (concat ps @ q) \<le> READ_BUFFER_SIZE" "q \<noteq> []"
    and "conn_parse AtRequestLine (concat ps) = Waiting ph t"
    and "conn_parse AtRequestLine (concat ps @ q) = out1"
  shows "\<exists>c0 w0. arrive st cont (ps @ [q]) c w = bindE (processRead st cont c0) (\<lambda>(code, c). Inr (respond code c w0)) \<and>
    computes (doRequest st cont) (\<lambda>c. process_loop st cont c LINE_OK) c0 (processRead st cont c0) out1 \<and>
    holds c0 [] \<and> file_ok c0 \<and> tail_zero c0 \<and> sockFd c0 = sockFd c \<and> readIdx c0 = length (concat ps @ q) \<and>
    fds_ok w0 \<and> interests w0 (sockFd c) \<noteq> None \<and> out w0 = out w \<and> userCount w0 = userCount w \<and>
    (\<forall>m. m \<noteq> sockFd c \<longrightarrow> interests w0 m = interests w m)"
proof -
  have c: "waits_for c AtRequestLine []" "readIdx c = 0" using assms(1) by (simp_all add: conn_fresh_def)
  obtain c0 w0 where c0: "arrive st cont ps c w = Inr (c0, w0)" "waits_for c0 ph t" "sockFd c0 = sockFd c"
      "readIdx c0 = length (concat ps)" "fds_ok w0" "interests w0 (sockFd c) \<noteq> None" "out w0 = out w"
      "userCount w0 = userCount w" "\<forall>m. m \<noteq> sockFd c \<longrightarrow> interests w0 m = interests w m"
  proof (cases "ps = []")
    case True
    then have "ph = AtRequestLine" "t = []" using assms(7) by (simp_all add: conn_parse.simps line_status_of_def)
    then show ?thesis using that [of c w] True c assms(2,3) by simp
  next
    case False
    then obtain c0 w0 where "arrive st cont ps c w = Inr (c0, w0)" "waits_for c0 ph t" "sockFd c0 = sockFd c"
        "readIdx c0 = length (concat ps)" "armed EPOLLIN (sockFd c) w w0"
      using arrive_waits [OF c(1), of ps w ph t st cont] assms(2-7) c(2) by auto
    then show ?thesis using that [of c0 w0] armed_registered [of EPOLLIN "sockFd c" w w0]
      by (simp add: armed_def)
  qed
  let ?w = "w0\<lparr> recvs := (recvs w0)(sockFd c := [Received q]) \<rparr>"
  let ?v = "?w\<lparr> recvs := (recvs ?w)(sockFd c0 := []) \<rparr>"
  have fits: "readIdx c0 + length q \<le> READ_BUFFER_SIZE" using c0(4) assms(5) by simp
  have got: "recvs ?w (sockFd c0) = [Received q]" by (simp add: c0(3))
  note e = on_readable_eq [OF c0(2) fits assms(6) got]
  have "arrive st cont (ps @ [q]) c w = process st cont (received q c0) ?v"
    using c0(1,3) e(1) by (simp add: arrive_append bindE_def split: sum.split)
  moreover have "conn_parse ph (t @ q) = out1" using conn_parse_more [OF assms(7)] assms(8) by simp
  moreover have "fds_ok ?v" "interests ?v (sockFd c) \<noteq> None" "out ?v = out w" "userCount ?v = userCount w"
      "\<forall>m. m \<noteq> sockFd c \<longrightarrow> interests ?v m = interests w m"
    using c0 by (simp_all add: fds_ok_def)
  ultimately show ?thesis
    using e(2) [of st cont] e(3-7) c0(3,4) unfolding process_def
    by (intro exI [of _ "received q c0"] exI [of _ ?v]) simp
qed

section \<open>Properties\<close>

text \<open>
  C4: a connection serves a file. A request without a body that arrives in any pieces, each one read
  and processed as its own event, keeps the socket armed for reading until the last piece is there.
  Then the answer is queued: the status line, the exact length of the file, whether the connection is
  kept, and the contents of the file under the document root; and a socket that takes it all gets
  exactly these characters. A kept connection is then as new.
\<close>

theorem conn_serves_file:
  assumes "conn_fresh c" "fds_ok w" "interests w (sockFd c) \<noteq> None"
    and "\<forall>p \<in> set ps. p \<noteq> []" "length (concat ps @ q) \<le> READ_BUFFER_SIZE" "q \<noteq> []"
    and "conn_parse AtRequestLine (concat ps) = Waiting ph t"
    and "conn_parse AtRequestLine (concat ps @ q) = Asks u lg"
    and "st (file_name u) = Some (mode, length d)" "mode AND S_IROTH \<noteq> 0" "\<not> S_ISDIR mode"
    and "cont (file_name u) = Some d" "d \<noteq> []" "int (length d) \<le> INT_MAX"
    and "answer = response_head 200 ''OK'' (int (length d)) lg @ d" "length answer \<le> k"
  shows "\<exists>c1 w1 c2 w2. arrive st cont (ps @ [q]) c w = Inr (c1, w1) \<and>
    listening EPOLLOUT (sockFd c) w1 \<and> out w1 = out w \<and>
    conn_write c1 (takes k (sockFd c) w1) = Inr (lg, c2, w2) \<and>
    sends (sockFd c) answer w w2 \<and> listening EPOLLIN (sockFd c) w2 \<and> (lg \<longrightarrow> conn_fresh c2)"
proof -
  obtain c0 w0 where a: "arrive st cont (ps @ [q]) c w =
        bindE (processRead st cont c0) (\<lambda>(code, c). Inr (respond code c w0))"
      "computes (doRequest st cont) (\<lambda>c. process_loop st cont c LINE_OK) c0 (processRead st cont c0) (Asks u lg)"
      "holds c0 []" "file_ok c0" "sockFd c0 = sockFd c" "fds_ok w0" "interests w0 (sockFd c) \<noteq> None"
      "out w0 = out w" "userCount w0 = userCount w"
    using arrive_asks [OF assms(1-8), of st cont] by blast
  obtain c1 where c1: "processRead st cont c0 = doRequest st cont c1" "linger c1 = lg" "url_at c1 u" "same_rest c0 c1"
    using a(2) at_headers same_conn_rest by (auto simp: computes_def)
  note k = waits_for_rest(1) [OF c1(4) a(3)] waits_for_rest(2) [OF c1(4) a(4)]
  obtain f where f: "doRequest st cont c1 = Inr (FILE_REQUEST, c1\<lparr> readFile := f, st_mode := mode,
      st_size := length d, fileAddress := Mapped d \<rparr>)"
    using doRequest_file [OF c1(3) k(2), of st mode d cont] assms(9-13) by blast
  let ?c = "c1\<lparr> readFile := f, st_mode := mode, st_size := length d, fileAddress := Mapped d \<rparr>"
  have c: "holds ?c []" "sockFd ?c = sockFd c" "linger ?c = lg"
    using k(1) c1(2,4) a(5) by (simp_all add: holds_def same_rest_def)
  let ?w1 = "modFd (sockFd c) EPOLLOUT w0"
  obtain c2 where c2: "respond FILE_REQUEST ?c w0 = (c2, ?w1)" "queued ?c answer lg c2"
    using respond_file [OF c(1), of d w0] assms(13-15) c(2,3) by auto
  have w1: "fds_ok ?w1" "interests ?w1 (sockFd c) \<noteq> None" "listening EPOLLOUT (sockFd c) ?w1"
      "out ?w1 = out w" "userCount ?w1 = userCount w"
    using modFd_keeps [OF a(6,7), of EPOLLOUT] a(8,9) by simp_all
  show ?thesis
    using queued_sent [OF c2(2) assms(16), of ?w1] w1 c(2) a(1) c1(1) f c2(1)
    by (fastforce simp: sends_def)
qed

text \<open>A world with one registered socket, and a request for the witnesses.\<close>

definition demo_world :: conn_world where
  "demo_world = \<lparr> interests = (\<lambda>n. if n = 5 then Some (EPOLLIN OR EPOLLET OR EPOLLONESHOT OR EPOLLRDHUP, 5) else None),
     nonblock = {5}, open_fds = {5}, userCount = 1, recvs = (\<lambda>_. []), writevs = (\<lambda>_. []), out = (\<lambda>_. []) \<rparr>"

definition demo_conn :: http_conn where
  "demo_conn = init_conn (HttpConn\<lparr> sockFd := 5 \<rparr>)"

definition demo_get :: string where
  "demo_get = ''GET /a HTTP/1.1'' @ CRLF @ ''Connection: keep-alive'' @ CRLF @ CRLF"

lemma demo_facts:
  "conn_fresh demo_conn" "fds_ok demo_world" "interests demo_world (sockFd demo_conn) \<noteq> None"
  "sockFd demo_conn = 5"
  unfolding demo_conn_def by (rule init_fresh, simp_all add: demo_world_def fds_ok_def init_conn_def)

lemma demo_parses:
  "conn_parse AtRequestLine (take 20 demo_get) = Waiting (AtHeaders ''/a'' False 0) (take 3 (drop 17 demo_get))"
  "conn_parse AtRequestLine (take 20 demo_get @ drop 20 demo_get) = Asks ''/a'' True"
  by code_simp+

theorem conn_serves_file_witness:
  "\<exists>c1 w1 c2 w2. arrive (\<lambda>f. if f = ''/work/a'' then Some (0x8004, 3) else None)
      (\<lambda>f. if f = ''/work/a'' then Some ''xyz'' else None) ([take 20 demo_get] @ [drop 20 demo_get])
      demo_conn demo_world = Inr (c1, w1) \<and>
    listening EPOLLOUT (sockFd demo_conn) w1 \<and> out w1 = out demo_world \<and>
    conn_write c1 (takes 1000 (sockFd demo_conn) w1) = Inr (True, c2, w2) \<and>
    sends (sockFd demo_conn) (response_head 200 ''OK'' (int (length ''xyz'')) True @ ''xyz'') demo_world w2 \<and>
    listening EPOLLIN (sockFd demo_conn) w2 \<and> (True \<longrightarrow> conn_fresh c2)"
proof (rule conn_serves_file [OF demo_facts(1-3), where mode = "0x8004" and d = "''xyz''" and u = "''/a''"])
  show "(0x8004 :: 32 word) AND S_IROTH \<noteq> 0" "\<not> S_ISDIR 0x8004" by code_simp+
  show "conn_parse AtRequestLine (concat [take 20 demo_get] @ drop 20 demo_get) = Asks ''/a'' True"
    using demo_parses(2) by simp
  show "conn_parse AtRequestLine (concat [take 20 demo_get]) =
      Waiting (AtHeaders ''/a'' False 0) (take 3 (drop 17 demo_get))"
    using demo_parses(1) by simp
  show "length (response_head 200 ''OK'' (int (length ''xyz'')) True @ ''xyz'') \<le> 1000" by code_simp
qed (simp_all add: demo_get_def READ_BUFFER_SIZE_def file_name_def docRoot_def FILENAME_LEN_def INT_MAX_def)

text \<open>
  C5: \<open>processRead\<close> computes what the reference parser says of the characters received since the last
  complete line: whether more input is needed (and then from where parsing goes on), that the request
  line is bad, or which path the request asks for and whether the connection is to be kept; and the
  reference parser gives the same result wherever the input is cut in two.
\<close>

theorem processRead_reference:
  assumes "at_phase c ph t"
  shows "(case conn_parse ph t of
      Waiting ph' t' \<Rightarrow> (\<exists>c'. processRead st cont c = Inr (NO_REQUEST, c') \<and> at_phase c' ph' t') \<and>
        (\<forall>s. conn_parse ph (t @ s) = conn_parse ph' (t' @ s))
    | Rejected \<Rightarrow> (\<exists>c'. processRead st cont c = Inr (BAD_REQUEST, c')) \<and>
        (\<forall>s. conn_parse ph (t @ s) = Rejected)
    | Asks u lg \<Rightarrow> (\<exists>c'. processRead st cont c = doRequest st cont c' \<and> url_at c' u \<and> linger c' = lg) \<and>
        (\<forall>s. conn_parse ph (t @ s) = Asks u lg)
    | HasBody u lg cl rest \<Rightarrow> (\<exists>c'. processRead st cont c = processRead st cont c' \<and>
          checkState c' = CHECK_STATE_CONTENT \<and> contentLength c' = cl \<and> url_at c' u \<and> linger c' = lg) \<and>
        (\<forall>s. conn_parse ph (t @ s) = HasBody u lg cl (rest @ s)))"
  using process_loop_spec [OF assms, of st cont LINE_OK] at_headers conn_parse_more [of ph t]
    conn_parse_final [of ph t Rejected] conn_parse_final [of ph t] conn_parse_body_more [of ph t]
  by (cases "conn_parse ph t") (auto simp: computes_def processRead_def)

theorem processRead_reference_witness:
  "\<exists>c'. processRead (\<lambda>_. None) (\<lambda>_. None) (received demo_get demo_conn) =
     doRequest (\<lambda>_. None) (\<lambda>_. None) c' \<and> url_at c' ''/a'' \<and> linger c'"
proof -
  have "at_phase demo_conn AtRequestLine []" "readIdx demo_conn + length demo_get \<le> READ_BUFFER_SIZE"
    using demo_facts(1) by (simp_all add: conn_fresh_def waits_for_def demo_get_def READ_BUFFER_SIZE_def)
  then have "at_phase (received demo_get demo_conn) AtRequestLine demo_get"
    using at_phase_received by fastforce
  moreover have "conn_parse AtRequestLine demo_get = Asks ''/a'' True" using demo_parses(2) by simp
  ultimately show ?thesis
    using processRead_reference [of _ AtRequestLine demo_get "\<lambda>_. None" "\<lambda>_. None"] by auto
qed

text \<open>Which requests are refused, and with which code.\<close>

definition refusal :: "(string \<Rightarrow> (32 word \<times> nat) option) \<Rightarrow> outcome \<Rightarrow> (http_code \<times> bool) option" where
  "refusal st oc = (case oc of
     Rejected \<Rightarrow> Some (BAD_REQUEST, False)
   | Asks u lg \<Rightarrow> (case st (file_name u) of None \<Rightarrow> None
       | Some (mode, sz) \<Rightarrow> if mode AND S_IROTH = 0 then Some (FORBIDDEN_REQUEST, lg)
           else if S_ISDIR mode then Some (BAD_REQUEST, lg) else None)
   | _ \<Rightarrow> None)"

lemma refusal_code:
  assumes "refusal st oc = Some (code, lg)" "computes (doRequest st cont) f c0 r oc" "holds c0 []" "file_ok c0"
  shows "\<exists>c1. r = Inr (code, c1) \<and> holds c1 [] \<and> sockFd c1 = sockFd c0 \<and> linger c1 = lg \<and>
    code \<noteq> NO_REQUEST"
proof (cases oc)
  case Rejected
  then show ?thesis
    using assms waits_for_rest same_conn_rest by (fastforce simp: computes_def refusal_def same_rest_def)
next
  case (Asks u lg')
  obtain c1 where c1: "r = doRequest st cont c1" "linger c1 = lg'" "url_at c1 u" "same_rest c0 c1"
    using assms(2) at_headers same_conn_rest unfolding Asks by (auto simp: computes_def)
  obtain mode sz where m: "st (file_name u) = Some (mode, sz)" "mode AND S_IROTH = 0 \<or> S_ISDIR mode" "lg' = lg"
      "code = (if mode AND S_IROTH = 0 then FORBIDDEN_REQUEST else BAD_REQUEST)"
    using assms(1) Asks by (auto simp: refusal_def split: option.splits if_splits)
  have k: "file_ok c1" "holds c1 []" using waits_for_rest [OF c1(4)] assms(3,4) by blast+
  obtain f where "doRequest st cont c1 = Inr (code, c1\<lparr> readFile := f, st_mode := mode, st_size := sz \<rparr>)"
    using doRequest_denied [OF c1(3) k(1), of st mode sz cont, OF m(1,2)] unfolding m(4) by blast
  then show ?thesis using c1 k(2) m(3,4) by (auto simp: holds_def same_rest_def)
qed (use assms(1) in \<open>simp_all add: refusal_def\<close>)

text \<open>
  C30: requests that are refused are answered. A bad request line gets the answer 400 and the
  connection is not kept; a file that others may not read gets 403, a directory 400, and the
  connection is kept if the request says so. The answer states the length of its text.
\<close>

theorem conn_refuses:
  assumes "conn_fresh c" "fds_ok w" "interests w (sockFd c) \<noteq> None"
    and "\<forall>p \<in> set ps. p \<noteq> []" "length (concat ps @ q) \<le> READ_BUFFER_SIZE" "q \<noteq> []"
    and "conn_parse AtRequestLine (concat ps) = Waiting ph t"
    and "refusal st (conn_parse AtRequestLine (concat ps @ q)) = Some (code, lg)"
    and "error_answer code = Some (status, title, form)"
    and "answer = response_head status title (int (length form)) lg @ form" "length answer \<le> k"
  shows "\<exists>c1 w1 c2 w2. arrive st cont (ps @ [q]) c w = Inr (c1, w1) \<and>
    listening EPOLLOUT (sockFd c) w1 \<and> out w1 = out w \<and>
    conn_write c1 (takes k (sockFd c) w1) = Inr (lg, c2, w2) \<and>
    sends (sockFd c) answer w w2 \<and> listening EPOLLIN (sockFd c) w2 \<and> (lg \<longrightarrow> conn_fresh c2)"
proof -
  obtain c0 w0 where a: "arrive st cont (ps @ [q]) c w =
        bindE (processRead st cont c0) (\<lambda>(code, c). Inr (respond code c w0))"
      "computes (doRequest st cont) (\<lambda>c. process_loop st cont c LINE_OK) c0 (processRead st cont c0)
        (conn_parse AtRequestLine (concat ps @ q))"
      "holds c0 []" "file_ok c0" "sockFd c0 = sockFd c" "fds_ok w0" "interests w0 (sockFd c) \<noteq> None"
      "out w0 = out w" "userCount w0 = userCount w"
    using arrive_asks [OF assms(1-7) refl, of st cont] by blast
  obtain c1 where c1: "processRead st cont c0 = Inr (code, c1)" "holds c1 []" "sockFd c1 = sockFd c"
      "linger c1 = lg" "code \<noteq> NO_REQUEST"
    using refusal_code [OF assms(8) a(2-4)] a(5) by auto
  let ?w1 = "modFd (sockFd c) EPOLLOUT w0"
  obtain c2 where c2: "respond code c1 w0 = (c2, ?w1)" "queued c1 answer lg c2"
    using respond_error [OF c1(2) assms(9) c1(5), of w0] c1(3,4) assms(10) by auto
  have w1: "fds_ok ?w1" "interests ?w1 (sockFd c) \<noteq> None" "listening EPOLLOUT (sockFd c) ?w1"
      "out ?w1 = out w" "userCount ?w1 = userCount w"
    using modFd_keeps [OF a(6,7), of EPOLLOUT] a(8,9) by simp_all
  show ?thesis
    using queued_sent [OF c2(2) assms(11), of ?w1] w1 c1(1,3) a(1) c2(1) by (fastforce simp: sends_def)
qed

theorem conn_refuses_witness:
  "\<exists>c1 w1 c2 w2. arrive (\<lambda>_. None) (\<lambda>_. None) ([] @ [''PUT /a HTTP/1.1'' @ CRLF]) demo_conn demo_world =
      Inr (c1, w1) \<and> listening EPOLLOUT (sockFd demo_conn) w1 \<and> out w1 = out demo_world \<and>
    conn_write c1 (takes 1000 (sockFd demo_conn) w1) = Inr (False, c2, w2) \<and>
    sends (sockFd demo_conn) (response_head 400 ''Bad Request'' (int (length error_400_form)) False @ error_400_form)
      demo_world w2 \<and> listening EPOLLIN (sockFd demo_conn) w2 \<and> (False \<longrightarrow> conn_fresh c2)"
proof (rule conn_refuses [OF demo_facts(1-3), where code = BAD_REQUEST and form = error_400_form])
  show "error_answer BAD_REQUEST = Some (400, ''Bad Request'', error_400_form)"
    by (simp add: error_answer_def error_400_form_def)
  show "refusal (\<lambda>_. None) (conn_parse AtRequestLine (concat [] @ ''PUT /a HTTP/1.1'' @ CRLF)) =
      Some (BAD_REQUEST, False)"
    "conn_parse AtRequestLine (concat []) = Waiting AtRequestLine []"
    "length (response_head 400 ''Bad Request'' (int (length error_400_form)) False @ error_400_form) \<le> 1000"
    by code_simp+
qed (simp_all add: READ_BUFFER_SIZE_def)

end
