(* ===== verification/HttpConnLimits.thy ===== *)
theory HttpConnLimits
  imports HttpConnServe
begin

text \<open>
  The limits of \<open>HttpConn\<close>: the bounds of its write buffer, files that are missing or empty, requests
  with a body, sockets that take an answer in parts, and a full read buffer.
\<close>

section \<open>The write buffer\<close>

text \<open>
  C35: \<open>addResponse\<close> never writes outside the write buffer and always leaves it a terminating zero.
  A text that fits is appended exactly; one that does not is refused, and what was there before it
  stays.
\<close>

theorem addResponse_in_bounds:
  assumes "length (writeBuf c) = WRITE_BUFFER_SIZE" "writeIdx c < WRITE_BUFFER_SIZE - 1"
  shows "(case addResponse s c of (ok, c') \<Rightarrow>
    length (writeBuf c') = WRITE_BUFFER_SIZE \<and> writeIdx c' < WRITE_BUFFER_SIZE - 1 \<and>
    take (writeIdx c) (writeBuf c') = take (writeIdx c) (writeBuf c) \<and>
    (if writeIdx c + length s < WRITE_BUFFER_SIZE - 1
     then ok \<and> take (writeIdx c') (writeBuf c') = take (writeIdx c) (writeBuf c) @ s
     else \<not> ok \<and> writeIdx c' = writeIdx c))"
proof -
  define x where "x = take (writeIdx c) (writeBuf c)"
  have h: "holds c x" "length x = writeIdx c" using assms by (simp_all add: holds_def x_def)
  obtain ok c' where r: "addResponse s c = (ok, c')" by fastforce
  note k = addResponse_holds [OF h(1), of s, unfolded r fst_conv snd_conv]
  have "take (length x) (writeBuf c') = x"
  proof (cases "length (x @ s) < WRITE_BUFFER_SIZE - 1")
    case True
    then have "take (length x + length s) (writeBuf c') = x @ s" using k(2) by (simp add: holds_def)
    then have "take (length x) (take (length x + length s) (writeBuf c')) = x" by simp
    then show ?thesis by (simp add: min_def)
  next
    case False
    then show ?thesis using k(2) by (simp add: holds_def)
  qed
  then show ?thesis using k(1,2) h(2) by (auto simp: r holds_def x_def split: if_splits)
qed

theorem addResponse_in_bounds_witness:
  "(case addResponse (replicate 2000 SP) demo_conn of (ok, c') \<Rightarrow>
    length (writeBuf c') = WRITE_BUFFER_SIZE \<and> writeIdx c' < WRITE_BUFFER_SIZE - 1 \<and>
    take (writeIdx demo_conn) (writeBuf c') = take (writeIdx demo_conn) (writeBuf demo_conn) \<and>
    (if writeIdx demo_conn + length (replicate 2000 SP) < WRITE_BUFFER_SIZE - 1
     then ok \<and> take (writeIdx c') (writeBuf c') = take (writeIdx demo_conn) (writeBuf demo_conn) @ replicate 2000 SP
     else \<not> ok \<and> writeIdx c' = writeIdx demo_conn))"
  by (rule addResponse_in_bounds) (simp_all add: demo_conn_def init_conn_def WRITE_BUFFER_SIZE_def)

section \<open>Files that are missing or empty\<close>

lemma adds_keep_socket [simp]:
  "sockFd (snd (addResponse s c)) = sockFd c" "sockFd (snd (addStatusLine i s c)) = sockFd c"
  "sockFd (addHeaders i c) = sockFd c" "sockFd (snd (addContent s c)) = sockFd c"
proof -
  show a: "sockFd (snd (addResponse s c)) = sockFd c" for s c by (simp add: addResponse_def Let_def)
  show "sockFd (snd (addStatusLine i s c)) = sockFd c" "sockFd (addHeaders i c) = sockFd c"
    "sockFd (snd (addContent s c)) = sockFd c"
    by (simp_all add: a addStatusLine_def addHeaders_def addContent_def addContentLength_def addLinger_def
        addBlankLine_def)
qed

lemma headers_forever:
  "conn_parse (AtHeaders u lg cl) t = r \<Longrightarrow>
   (case r of Waiting ph t' \<Rightarrow> \<exists>lg cl. ph = AtHeaders u lg cl | Rejected \<Rightarrow> False
    | Asks v lg \<Rightarrow> v = u | HasBody v lg cl b \<Rightarrow> v = u)"
proof (induction "AtHeaders u lg cl" t arbitrary: lg cl r rule: conn_parse.induct)
  case (1 t)
  show ?case
    using "1.prems" "1.hyps" by (auto simp: conn_parse.simps [of _ t] Let_def split: if_splits prod.splits)
qed

text \<open>
  C38: a request for a file that does not exist is never answered. \<open>doRequest\<close> reports it with the
  value that means that more input is needed, so the socket is armed for reading again and nothing is
  sent; the parser goes on as if it were still among the header lines of this request, and whatever
  comes next, another request included, is read as such lines.
\<close>

theorem missing_file_unanswered:
  assumes "conn_fresh c" "fds_ok w" "interests w (sockFd c) \<noteq> None"
    and "\<forall>p \<in> set ps. p \<noteq> []" "length (concat ps @ q) \<le> READ_BUFFER_SIZE" "q \<noteq> []"
    and "conn_parse AtRequestLine (concat ps) = Waiting ph t"
    and "conn_parse AtRequestLine (concat ps @ q) = Asks u lg" "st (file_name u) = None"
  shows "\<exists>c1 w1 rest. arrive st cont (ps @ [q]) c w = Inr (c1, w1) \<and>
    listening EPOLLIN (sockFd c) w1 \<and> out w1 = out w \<and> waits_for c1 (AtHeaders u lg 0) rest \<and>
    (\<forall>s. conn_parse (AtHeaders u lg 0) s \<noteq> Rejected \<and>
      (\<forall>v lg'. conn_parse (AtHeaders u lg 0) s = Asks v lg' \<longrightarrow> v = u))"
proof -
  obtain c0 w0 where a: "arrive st cont (ps @ [q]) c w =
        bindE (processRead st cont c0) (\<lambda>(code, c). Inr (respond code c w0))"
      "computes (doRequest st cont) (\<lambda>c. process_loop st cont c LINE_OK) c0 (processRead st cont c0) (Asks u lg)"
      "holds c0 []" "file_ok c0" "tail_zero c0" "sockFd c0 = sockFd c" "fds_ok w0"
      "interests w0 (sockFd c) \<noteq> None" "out w0 = out w"
    using arrive_asks [OF assms(1-8), of st cont] by blast
  obtain c1 rest where c1: "processRead st cont c0 = doRequest st cont c1" "at_phase c1 (AtHeaders u lg 0) rest"
      "same_conn c0 c1"
    using a(2) by (auto simp: computes_def)
  note r = same_conn_rest [OF c1(3)]
  have k: "holds c1 []" "file_ok c1" "tail_zero c1"
    using waits_for_rest [OF r] tail_zero_same [OF c1(3)] a(3-5) by blast+
  obtain f where f: "doRequest st cont c1 = Inr (NO_REQUEST, c1\<lparr> readFile := f \<rparr>)" "file_ok (c1\<lparr> readFile := f \<rparr>)"
    using doRequest_missing [of c1 u st cont] at_headers [OF c1(2)] k(2) assms(9) by blast
  have w: "waits_for (c1\<lparr> readFile := f \<rparr>) (AtHeaders u lg 0) rest"
    using c1(2) k f(2) by (simp add: waits_for_def at_phase_def phase_ok_def holds_def tail_zero_def)
  have "arrive st cont (ps @ [q]) c w = Inr (c1\<lparr> readFile := f \<rparr>, modFd (sockFd c) EPOLLIN w0)"
    using a(1,6) c1(1) f(1) r by (simp add: respond_def same_rest_def)
  moreover have "\<forall>s. conn_parse (AtHeaders u lg 0) s \<noteq> Rejected \<and>
      (\<forall>v lg'. conn_parse (AtHeaders u lg 0) s = Asks v lg' \<longrightarrow> v = u)"
    by (auto dest: headers_forever)
  ultimately show ?thesis using w modFd_keeps [OF a(7,8), of EPOLLIN] a(9) by auto
qed

theorem missing_file_unanswered_witness:
  "\<exists>c1 w1 rest. arrive (\<lambda>_. None) (\<lambda>_. None) ([] @ [demo_get]) demo_conn demo_world = Inr (c1, w1) \<and>
    listening EPOLLIN (sockFd demo_conn) w1 \<and> out w1 = out demo_world \<and>
    waits_for c1 (AtHeaders ''/a'' True 0) rest"
  using missing_file_unanswered [OF demo_facts(1-3), of "[]" demo_get AtRequestLine "[]" "''/a''" True
      "\<lambda>_. None" "\<lambda>_. None"] demo_parses(2)
  by (auto simp: demo_get_def READ_BUFFER_SIZE_def conn_parse.simps [of _ "[]"] line_status_of_def)

text \<open>
  A file of length 0 closes the connection without an answer: its case runs into the \<open>default\<close> of
  \<open>processWrite\<close>, which fails. The descriptor stays open and registered, since \<open>closeConn\<close> only
  forgets it.
\<close>

lemma empty_file_closes:
  assumes "conn_fresh c" "fds_ok w" "interests w (sockFd c) \<noteq> None" "interests w (- 1) = None"
    and "\<forall>p \<in> set ps. p \<noteq> []" "length (concat ps @ q) \<le> READ_BUFFER_SIZE" "q \<noteq> []"
    and "conn_parse AtRequestLine (concat ps) = Waiting ph t"
    and "conn_parse AtRequestLine (concat ps @ q) = Asks u lg"
    and "st (file_name u) = Some (mode, 0)" "mode AND S_IROTH \<noteq> 0" "\<not> S_ISDIR mode"
  shows "\<exists>c1 w1. arrive st cont (ps @ [q]) c w = Inr (c1, w1) \<and> out w1 = out w \<and> sockFd c1 = - 1 \<and>
    userCount w1 = userCount w - 1 \<and> sockFd c \<in> open_fds w1 \<and> interests w1 (sockFd c) \<noteq> None"
proof -
  obtain c0 w0 where a: "arrive st cont (ps @ [q]) c w =
        bindE (processRead st cont c0) (\<lambda>(code, c). Inr (respond code c w0))"
      "computes (doRequest st cont) (\<lambda>c. process_loop st cont c LINE_OK) c0 (processRead st cont c0) (Asks u lg)"
      "holds c0 []" "file_ok c0" "sockFd c0 = sockFd c" "fds_ok w0" "interests w0 (sockFd c) \<noteq> None"
      "out w0 = out w" "userCount w0 = userCount w" "\<forall>m. m \<noteq> sockFd c \<longrightarrow> interests w0 m = interests w m"
    using arrive_asks [OF assms(1-3,5-9), of st cont] by blast
  obtain c1 where c1: "processRead st cont c0 = doRequest st cont c1" "url_at c1 u" "same_rest c0 c1"
    using a(2) at_headers same_conn_rest by (auto simp: computes_def)
  obtain f where f: "doRequest st cont c1 = Inr (FILE_REQUEST, c1\<lparr> readFile := f, st_mode := mode,
      st_size := 0, fileAddress := MapFailed \<rparr>)"
    by (rule doRequest_spec [OF c1(2) waits_for_rest(2) [OF c1(3) a(4)], of st cont])
      (use assms(10-12) in \<open>auto simp: Let_def split: option.splits\<close>)
  let ?c = "c1\<lparr> readFile := f, st_mode := mode, st_size := 0, fileAddress := MapFailed \<rparr>"
  have s: "same_but_text ?c (snd (addStatusLine 200 ok_200_title ?c))"
    unfolding addStatusLine_def using waits_for_rest(1) [OF c1(3) a(3)]
    by (intro addResponse_holds(3) [of _ "[]"]) (simp add: holds_def)
  obtain c2 where c2: "processWrite FILE_REQUEST ?c = (False, c2)"
    using same_but_text_sel(4) [OF s] by (simp add: processWrite_def Let_def)
  have sk: "sockFd c2 = sockFd c"
    using arg_cong [OF c2, of "\<lambda>r. sockFd (snd r)"] c1(3) a(5) same_but_text_sel(4) [OF s]
    by (simp add: processWrite_def Let_def same_rest_def)
  have ne: "sockFd c \<noteq> - 1" using assms(3,4) by auto
  then have "interests w0 (- 1) = None" using a(10) assms(4) by auto
  then have "arrive st cont (ps @ [q]) c w = Inr (c2\<lparr> sockFd := - 1 \<rparr>, w0\<lparr> userCount := userCount w0 - 1 \<rparr>)"
    using a(1) c1(1) f c2 sk ne by (simp add: respond_def closeConn_def modFd_unregistered)
  moreover have "sockFd c \<in> open_fds w0" using a(6,7) fds_okD(1) by fastforce
  ultimately show ?thesis using a(7-9) by auto
qed


definition demo_stat :: "nat \<Rightarrow> string \<Rightarrow> (32 word \<times> nat) option" where
  "demo_stat n f = (if f = ''/work/a'' then Some (0x8004, n) else None)"

lemma demo_stat_facts:
  "demo_stat n (file_name ''/a'') = Some (0x8004, n)" "(0x8004 :: 32 word) AND S_IROTH \<noteq> 0" "\<not> S_ISDIR 0x8004"
proof -
  show "demo_stat n (file_name ''/a'') = Some (0x8004, n)"
    by (simp add: demo_stat_def file_name_def docRoot_def FILENAME_LEN_def)
  show "(0x8004 :: 32 word) AND S_IROTH \<noteq> 0" "\<not> S_ISDIR 0x8004" by code_simp+
qed

lemma demo_whole:
  "\<forall>p \<in> set []. p \<noteq> []" "length (concat [] @ demo_get) \<le> READ_BUFFER_SIZE" "demo_get \<noteq> []"
  "conn_parse AtRequestLine (concat []) = Waiting AtRequestLine []"
  "conn_parse AtRequestLine (concat [] @ demo_get) = Asks ''/a'' True"
  using demo_parses(2)
  by (simp_all add: demo_get_def READ_BUFFER_SIZE_def conn_parse.simps [of _ "[]"] line_status_of_def)

lemma empty_file_closes_witness:
  "\<exists>c1 w1. arrive (demo_stat 0) (\<lambda>_. Some []) ([] @ [demo_get]) demo_conn demo_world = Inr (c1, w1) \<and>
    out w1 = out demo_world \<and> sockFd c1 = - 1 \<and> userCount w1 = userCount demo_world - 1 \<and>
    sockFd demo_conn \<in> open_fds w1 \<and> interests w1 (sockFd demo_conn) \<noteq> None"
  by (rule empty_file_closes [OF demo_facts(1-3) _ demo_whole, where mode = "0x8004"])
    (simp_all add: demo_stat_facts demo_world_def)

section \<open>Sockets that take an answer in parts\<close>

lemma writev_loop_prefixes:
  assumes "iov_data c (iv c) = Inr s" "writevs w (sockFd c) = rs"
    "2 * (h + sum_list (map (\<lambda>k. int (min k (length s))) ks)) < n"
    "n \<le> 2 * (h + sum_list (map (\<lambda>k. int (min k (length s))) (ks @ [j])))"
  shows "\<exists>c' w'. writev_loop (n - h) h (map Takes (ks @ [j])) c w = Inr (linger c, c', w') \<and>
    out w' (sockFd c) = out w (sockFd c) @ concat (map (\<lambda>k. take k s) (ks @ [j]))"
  using assms
proof (induction ks arbitrary: h w rs)
  case Nil
  have "n - h - int (min j (length s)) \<le> h + int (min j (length s))" using Nil.prems(4) by simp
  then show ?case
    using Nil.prems(1) by (simp add: Let_def unmap_def init_conn_def modFd_def epoll_ctl_fd_def)
next
  case (Cons k ks)
  let ?m = "int (min k (length s))"
  let ?w = "w\<lparr> writevs := (writevs w)(sockFd c := map Takes (ks @ [j])),
    out := (out w)(sockFd c := out w (sockFd c) @ take k s) \<rparr>"
  have pos: "0 \<le> sum_list (map (\<lambda>k. int (min k (length s))) ks)" by (intro sum_list_nonneg) auto
  have more: "\<not> n - h - ?m \<le> h + ?m" using Cons.prems(3) pos by simp
  obtain c' w' where "writev_loop (n - (h + ?m)) (h + ?m) (map Takes (ks @ [j])) c ?w = Inr (linger c, c', w')"
      "out w' (sockFd c) = out ?w (sockFd c) @ concat (map (\<lambda>k. take k s) (ks @ [j]))"
    using Cons.IH [of ?w "map Takes (ks @ [j])" "h + ?m"] Cons.prems by (auto simp: algebra_simps)
  moreover have "writev_loop (n - h) h (map Takes ((k # ks) @ [j])) c w =
      writev_loop (n - (h + ?m)) (h + ?m) (map Takes (ks @ [j])) c ?w"
    using Cons.prems(1) more by (simp add: Let_def algebra_simps)
  ultimately show ?case by simp
qed

text \<open>
  \<open>write\<close> resends an answer from its beginning after a partial write, and takes it for sent as soon
  as what was sent, counted over all attempts, is half of the header (the file is not counted at all).
  So the client gets a beginning of the answer for every attempt, and the rest of the answer may be
  missing.
\<close>

lemma conn_write_prefixes:
  assumes "iov_data c (iv c) = Inr answer" "0 < writeIdx c"
    and "writevs w (sockFd c) = map Takes (ks @ [j])"
    and "2 * sum_list (map (\<lambda>k. int (min k (length answer))) ks) < int (writeIdx c)"
    and "int (writeIdx c) \<le> 2 * sum_list (map (\<lambda>k. int (min k (length answer))) (ks @ [j]))"
  shows "\<exists>c' w'. conn_write c w = Inr (linger c, c', w') \<and>
    out w' (sockFd c) = out w (sockFd c) @ concat (map (\<lambda>k. take k answer) (ks @ [j]))"
  using writev_loop_prefixes [OF assms(1,3), of 0 ks "int (writeIdx c)" j] assms(2-5)
  by (simp add: conn_write_def)

definition demo_full :: http_conn where
  "demo_full = demo_conn\<lparr> writeBuf := ''abcdef'' @ replicate 1018 NUL, writeIdx := 6, iv := [(WriteBuf, 6)] \<rparr>"

lemma conn_write_prefixes_witness:
  "\<exists>c' w'. conn_write demo_full (demo_world\<lparr> writevs := (\<lambda>_. map Takes ([1] @ [3])) \<rparr>) =
      Inr (linger demo_full, c', w') \<and>
    out w' (sockFd demo_full) = out (demo_world\<lparr> writevs := (\<lambda>_. map Takes ([1] @ [3])) \<rparr>) (sockFd demo_full) @
      concat (map (\<lambda>k. take k ''abcdef'') ([1] @ [3]))"
  by (rule conn_write_prefixes) (simp_all add: demo_full_def slice_def)

section \<open>Requests with a body\<close>

text \<open>Waiting for a body: everything received has been scanned.\<close>

definition in_body :: "http_conn \<Rightarrow> int \<Rightarrow> bool" where
  "in_body c cl \<longleftrightarrow> checkState c = CHECK_STATE_CONTENT \<and> contentLength c = cl \<and> checkedIdx c = readIdx c \<and>
     length (readBuf c) = READ_BUFFER_SIZE \<and> readIdx c < READ_BUFFER_SIZE \<and> startLine c \<le> readIdx c \<and>
     tail_zero c \<and> (readIdx c = 0 \<or> readBuf c ! (readIdx c - 1) \<noteq> CR)"

lemma tail_zero_nth:
  assumes "tail_zero c" "readIdx c \<le> i" "i < READ_BUFFER_SIZE" "length (readBuf c) = READ_BUFFER_SIZE"
  shows "readBuf c ! i = NUL"
  using arg_cong [OF assms(1) [unfolded tail_zero_def], of "\<lambda>xs. xs ! (i - readIdx c)"] assms(2-4) by simp

lemma tail_zero_cstr:
  assumes "tail_zero c" "length (readBuf c) = READ_BUFFER_SIZE" "readIdx c < READ_BUFFER_SIZE" "p \<le> readIdx c"
  shows "\<exists>s. cstr (drop p (readBuf c)) = Inr s"
proof -
  have "readBuf c ! readIdx c = NUL" using tail_zero_nth [OF assms(1)] assms(2,3) by simp
  then have "NUL \<in> set (drop p (readBuf c))"
    using assms(2-4) by (auto simp: in_set_conv_nth intro!: exI [of _ "readIdx c - p"])
  then show ?thesis by (simp add: cstr_def)
qed

lemma no_break_line:
  assumes "CR \<notin> set t" "LF \<notin> set t"
  shows "line_status_of t = LINE_OPEN" "line_of t = t"
  using assms by (induction t) (auto simp: line_status_of_def)

text \<open>
  One turn of the loop for a body that is not there: the check fails, the line scan runs to the end of
  the input, and the loop stops.
\<close>

lemma body_turn:
  assumes "checkState c = CHECK_STATE_CONTENT" "contentLength c = cl" "0 < cl" "cl + 2048 \<le> INT_MAX"
    and "checkedIdx c \<le> readIdx c" "length (readBuf c) = READ_BUFFER_SIZE" "readIdx c < READ_BUFFER_SIZE"
    and "startLine c \<le> checkedIdx c" "tail_zero c" "checkedIdx c = 0 \<or> readBuf c ! (checkedIdx c - 1) \<noteq> CR"
    and "CR \<notin> set t" "LF \<notin> set t" "drop (checkedIdx c) (take (readIdx c) (readBuf c)) = t"
    and "int (length t) < cl"
  shows "\<exists>c'. processRead st cont c = Inr (NO_REQUEST, c') \<and> same_conn c c' \<and> in_body c' cl"
proof -
  let ?c = "c\<lparr> startLine := checkedIdx c \<rparr>"
  have lt: "length t = readIdx c - checkedIdx c" using assms(6,7) by (simp flip: assms(13))
  have "\<not> cl + int (checkedIdx c) \<le> int (readIdx c)" using assms(5,14) lt by simp
  then have content: "parseContent (startLine c) ?c = Inr (NO_REQUEST, ?c)"
    using assms(2-5,7) by (auto simp: parseContent_def INT_MIN_def INT_MAX_def READ_BUFFER_SIZE_def)
  obtain s where s: "cstr (drop (startLine c) (readBuf c)) = Inr s"
    using tail_zero_cstr [OF assms(9,6,7)] assms(5,8) by (meson order_trans)
  have "parse_line (readBuf c) (readIdx c) (checkedIdx c) = Inr (LINE_OPEN, readBuf c, readIdx c)"
    using parse_line_spec [OF assms(5) _ assms(10)] no_break_line [OF assms(11,12)] assms(5-7,13) lt
    by (simp add: Let_def)
  then have line: "parseLine ?c = Inr (LINE_OPEN, ?c\<lparr> checkedIdx := readIdx c \<rparr>)"
    by (simp add: parseLine_def)
  have "processRead st cont c = process_loop st cont ?c LINE_OPEN"
    using assms(1) s content
    by (simp add: processRead_def process_loop.simps [of st cont c LINE_OK] getLine_def Let_def)
  also have "\<dots> = Inr (NO_REQUEST, ?c\<lparr> checkedIdx := readIdx c \<rparr>)"
    using line by (simp add: process_loop.simps [of st cont ?c LINE_OPEN])
  finally have r: "processRead st cont c = Inr (NO_REQUEST, ?c\<lparr> checkedIdx := readIdx c \<rparr>)" .
  have "readIdx c = 0 \<or> readBuf c ! (readIdx c - 1) \<noteq> CR"
  proof (cases "t = []")
    case True
    then show ?thesis using assms(5,10) lt by simp
  next
    case False
    then have "last t \<noteq> CR" using assms(11) by (metis last_in_set)
    moreover have "last t = readBuf c ! (readIdx c - 1)"
      using False lt assms(6,7) by (subst last_conv_nth) (simp_all flip: assms(13))
    ultimately show ?thesis by simp
  qed
  then have "in_body (?c\<lparr> checkedIdx := readIdx c \<rparr>) cl"
    using assms(1,2,5-9) by (simp add: in_body_def tail_zero_def)
  then show ?thesis using r by (auto simp: same_conn_def same_rest_def)
qed

lemma in_body_arrives:
  assumes "in_body c cl" "0 < cl" "cl + 2048 \<le> INT_MAX" "fds_ok w" "interests w (sockFd c) \<noteq> None"
    and "\<forall>q \<in> set qs. q \<noteq> [] \<and> int (length q) < cl \<and> CR \<notin> set q \<and> LF \<notin> set q"
    and "readIdx c + length (concat qs) < READ_BUFFER_SIZE"
  shows "\<exists>c' w'. arrive st cont qs c w = Inr (c', w') \<and> in_body c' cl \<and> sockFd c' = sockFd c \<and>
    out w' = out w \<and> fds_ok w' \<and> (listening EPOLLIN (sockFd c) w \<longrightarrow> listening EPOLLIN (sockFd c) w')"
  using assms
proof (induction qs arbitrary: c w)
  case (Cons q qs)
  let ?w = "w\<lparr> recvs := (recvs w)(sockFd c := [Received q]) \<rparr>"
  let ?v = "?w\<lparr> recvs := (recvs ?w)(sockFd c := []) \<rparr>"
  have b: "checkState c = CHECK_STATE_CONTENT" "contentLength c = cl" "checkedIdx c = readIdx c"
      "length (readBuf c) = READ_BUFFER_SIZE" "startLine c \<le> readIdx c" "tail_zero c"
      "readIdx c = 0 \<or> readBuf c ! (readIdx c - 1) \<noteq> CR"
    using Cons.prems(1) by (simp_all add: in_body_def)
  have q: "readIdx c + length q < READ_BUFFER_SIZE" using Cons.prems(7) by simp
  let ?r = "received q c"
  have "take (readIdx ?r) (readBuf ?r) = take (readIdx c) (readBuf c) @ q"
    using b(4) q by (simp add: received_def)
  then have rest: "drop (checkedIdx ?r) (take (readIdx ?r) (readBuf ?r)) = q"
    using b(3,4) q by (simp add: received_def)
  have prev: "checkedIdx ?r = 0 \<or> readBuf ?r ! (checkedIdx ?r - 1) \<noteq> CR"
    using b(3,4,7) q by (auto simp: received_def nth_append)
  have tz: "tail_zero ?r" using tail_zero_received [OF b(6,4)] q by simp
  obtain c1 where c1: "processRead st cont ?r = Inr (NO_REQUEST, c1)" "same_conn ?r c1" "in_body c1 cl"
    using body_turn [of ?r cl q st cont] b Cons.prems(2,3,6) q rest prev tz by (auto simp: received_def)
  have s: "sockFd c1 = sockFd c" "readIdx c1 = readIdx c + length q"
    using same_conn_rest [OF c1(2)] by (simp_all add: same_rest_def received_def)
  have "conn_read c ?w = (True, ?r, ?v)"
    using conn_read_delivers [OF b(4), of q ?w] q Cons.prems(6) by simp
  then have step: "on_readable st cont c ?w = Inr (c1, modFd (sockFd c) EPOLLIN ?v)"
    using c1(1) s(1) by (simp add: on_readable_def process_def respond_def)
  have v: "fds_ok ?v" "interests ?v (sockFd c) \<noteq> None" using Cons.prems(4,5) by (simp_all add: fds_ok_def)
  note m = modFd_keeps [OF v, of EPOLLIN]
  obtain c2 w2 where "arrive st cont qs c1 (modFd (sockFd c) EPOLLIN ?v) = Inr (c2, w2)" "in_body c2 cl"
      "sockFd c2 = sockFd c1" "out w2 = out (modFd (sockFd c) EPOLLIN ?v)" "fds_ok w2"
      "listening EPOLLIN (sockFd c1) (modFd (sockFd c) EPOLLIN ?v) \<longrightarrow> listening EPOLLIN (sockFd c1) w2"
    using Cons.IH [OF c1(3) Cons.prems(2,3) m(1)] m(2) Cons.prems(6,7) s by auto
  then show ?case using step s(1) m(3,4) by simp
qed simp

text \<open>
  C37: a body that arrives in short pieces is never complete. \<open>parseContent\<close> compares the announced
  length with what follows \<open>checkedIdx\<close>, which the scan for a line moves to the end of the input after
  every piece without a line end. So if every piece of the body (what follows the header in its piece,
  and each later one) is shorter than the announced length and has neither CR nor LF in it, the
  connection waits for more and nothing is sent, however many pieces come and although together they
  may be as long as was announced. (A piece that is as long as the announced length completes the
  request, and one with a line end may.)
\<close>

theorem split_body_never_completes:
  assumes "conn_fresh c" "fds_ok w" "interests w (sockFd c) \<noteq> None"
    and "\<forall>p \<in> set ps. p \<noteq> []" "length (concat ps @ q @ concat qs) < READ_BUFFER_SIZE" "q \<noteq> []"
    and "conn_parse AtRequestLine (concat ps) = Waiting ph t"
    and "conn_parse AtRequestLine (concat ps @ q) = HasBody u lg cl rest"
    and "0 < cl" "cl + 2048 \<le> INT_MAX"
    and "\<forall>q \<in> set (rest # qs). int (length q) < cl \<and> CR \<notin> set q \<and> LF \<notin> set q" "\<forall>q \<in> set qs. q \<noteq> []"
  shows "\<exists>c1 w1. arrive st cont (ps @ [q] @ qs) c w = Inr (c1, w1) \<and> listening EPOLLIN (sockFd c) w1 \<and>
    out w1 = out w \<and> checkState c1 = CHECK_STATE_CONTENT \<and> contentLength c1 = cl"
proof -
  have len: "length (concat ps @ q) \<le> READ_BUFFER_SIZE" using assms(5) by simp
  obtain c0 w0 where a: "arrive st cont (ps @ [q]) c w =
        bindE (processRead st cont c0) (\<lambda>(code, c). Inr (respond code c w0))"
      "computes (doRequest st cont) (\<lambda>c. process_loop st cont c LINE_OK) c0 (processRead st cont c0)
        (HasBody u lg cl rest)"
      "tail_zero c0" "sockFd c0 = sockFd c" "readIdx c0 = length (concat ps @ q)" "fds_ok w0"
      "interests w0 (sockFd c) \<noteq> None" "out w0 = out w"
    using arrive_asks [OF assms(1-4) len assms(6-8), of st cont] by blast
  obtain c1 where c1: "processRead st cont c0 = processRead st cont c1" "same_conn c0 c1"
      "contentLength c1 = cl" "checkState c1 = CHECK_STATE_CONTENT" "startLine c1 = checkedIdx c1"
      "drop (startLine c1) (take (readIdx c1) (readBuf c1)) = rest" "length (readBuf c1) = READ_BUFFER_SIZE"
      "checkedIdx c1 \<le> readIdx c1" "checkedIdx c1 = 0 \<or> readBuf c1 ! (checkedIdx c1 - 1) \<noteq> CR"
    using a(2) by (auto simp: computes_def processRead_def)
  note r = same_conn_rest [OF c1(2)]
  have i: "readIdx c1 = readIdx c0" "sockFd c1 = sockFd c" using r a(4) by (simp_all add: same_rest_def)
  obtain c2 where c2: "processRead st cont c1 = Inr (NO_REQUEST, c2)" "same_conn c1 c2" "in_body c2 cl"
    using body_turn [of c1 cl rest st cont] c1 assms(5,9-11) i(1) a(5) tail_zero_same [OF c1(2) a(3)] by auto
  have s: "sockFd c2 = sockFd c" "readIdx c2 = length (concat ps @ q)"
    using same_conn_rest [OF c2(2)] i a(5) by (simp_all add: same_rest_def)
  note m = modFd_keeps [OF a(6,7), of EPOLLIN]
  have first: "arrive st cont (ps @ [q]) c w = Inr (c2, modFd (sockFd c) EPOLLIN w0)"
    using a(1) c1(1) c2(1) s(1) by (simp add: respond_def)
  obtain c3 w3 where "arrive st cont qs c2 (modFd (sockFd c) EPOLLIN w0) = Inr (c3, w3)" "in_body c3 cl"
      "out w3 = out (modFd (sockFd c) EPOLLIN w0)" "listening EPOLLIN (sockFd c) w3"
    using in_body_arrives [OF c2(3) assms(9,10) m(1), of qs st cont] m(2,3) s assms(5,11,12) by auto
  then show ?thesis
    using first m(4) a(8) arrive_append [of st cont "ps @ [q]" qs c w] by (simp add: in_body_def)
qed

definition demo_body :: "string \<Rightarrow> string" where
  "demo_body n = ''GET /a HTTP/1.1'' @ CRLF @ ''Content-Length: '' @ n @ CRLF @ CRLF"

lemma demo_body_parses:
  "conn_parse AtRequestLine (concat [] @ demo_body ''4'' @ ''ab'') = HasBody ''/a'' False 4 ''ab''"
  "conn_parse AtRequestLine (concat [] @ demo_body ''-100'') = HasBody ''/a'' False (- 100) []"
  by code_simp+

theorem split_body_never_completes_witness:
  "\<exists>c1 w1. arrive (demo_stat 3) (\<lambda>_. Some ''xyz'') ([] @ [demo_body ''4'' @ ''ab''] @ [''cd''])
      demo_conn demo_world = Inr (c1, w1) \<and>
    listening EPOLLIN (sockFd demo_conn) w1 \<and> out w1 = out demo_world \<and>
    checkState c1 = CHECK_STATE_CONTENT \<and> contentLength c1 = 4"
  by (rule split_body_never_completes [OF demo_facts(1-3) demo_whole(1) _ _ demo_whole(4) demo_body_parses(1)])
    (simp_all add: demo_body_def READ_BUFFER_SIZE_def INT_MAX_def)

text \<open>
  C40: a \<open>Content-Length\<close> that is negative by more than the number of characters in front of the body
  makes \<open>parseContent\<close> write its zero in front of the read buffer: the request is taken for complete,
  since everything is longer than a negative number, and \<open>text + contentLength\<close> lies before the first
  character. (A smaller one makes it overwrite a character of the request instead.)
\<close>

theorem negative_length_writes_outside:
  assumes "conn_fresh c" "fds_ok w" "interests w (sockFd c) \<noteq> None"
    and "\<forall>p \<in> set ps. p \<noteq> []" "length (concat ps @ q) < READ_BUFFER_SIZE" "q \<noteq> []"
    and "conn_parse AtRequestLine (concat ps) = Waiting ph t"
    and "conn_parse AtRequestLine (concat ps @ q) = HasBody u lg cl rest"
    and "INT_MIN \<le> cl" "int (length (concat ps @ q)) - int (length rest) + cl < 0"
  shows "arrive st cont (ps @ [q]) c w = Inl Out_Of_Bounds"
proof -
  have len: "length (concat ps @ q) \<le> READ_BUFFER_SIZE" using assms(5) by simp
  obtain c0 w0 where a: "arrive st cont (ps @ [q]) c w =
        bindE (processRead st cont c0) (\<lambda>(code, c). Inr (respond code c w0))"
      "computes (doRequest st cont) (\<lambda>c. process_loop st cont c LINE_OK) c0 (processRead st cont c0)
        (HasBody u lg cl rest)"
      "tail_zero c0" "readIdx c0 = length (concat ps @ q)"
    using arrive_asks [OF assms(1-4) len assms(6-8), of st cont] by blast
  obtain c1 where c1: "processRead st cont c0 = process_loop st cont c1 LINE_OK" "same_conn c0 c1"
      "contentLength c1 = cl" "checkState c1 = CHECK_STATE_CONTENT" "startLine c1 = checkedIdx c1"
      "drop (startLine c1) (take (readIdx c1) (readBuf c1)) = rest" "length (readBuf c1) = READ_BUFFER_SIZE"
      "checkedIdx c1 \<le> readIdx c1"
    using a(2) by (auto simp: computes_def)
  have i: "readIdx c1 = length (concat ps @ q)"
    using same_conn_rest [OF c1(2)] a(4) by (simp add: same_rest_def)
  have "length rest = readIdx c1 - startLine c1" using c1(7) i len by (simp flip: c1(6))
  then have before: "int (startLine c1) + cl < 0" using assms(10) c1(5,8) i by simp
  obtain s where s: "cstr (drop (startLine c1) (readBuf c1)) = Inr s"
    using tail_zero_cstr [OF tail_zero_same [OF c1(2) a(3)] c1(7)] assms(5) i c1(5,8) by auto
  have sum: "INT_MIN \<le> cl + int (checkedIdx c1)" "cl + int (checkedIdx c1) \<le> INT_MAX"
      "cl + int (checkedIdx c1) \<le> int (readIdx c1)"
    using before assms(9) c1(5) by (simp_all add: INT_MAX_def)
  have "parseContent (startLine c1) (c1\<lparr> startLine := checkedIdx c1 \<rparr>) = Inl Out_Of_Bounds"
    using before sum c1(3) by (simp add: parseContent_def Let_def)
  then have "process_loop st cont c1 LINE_OK = Inl Out_Of_Bounds"
    using c1(4) s by (simp add: process_loop.simps [of st cont c1 LINE_OK] getLine_def Let_def)
  then show ?thesis using a(1) c1(1) by simp
qed

theorem negative_length_writes_outside_witness:
  "arrive (demo_stat 3) (\<lambda>_. Some ''xyz'') ([] @ [demo_body ''-100'']) demo_conn demo_world = Inl Out_Of_Bounds"
  by (rule negative_length_writes_outside [OF demo_facts(1-3) demo_whole(1) _ _ demo_whole(4) demo_body_parses(2)])
    (simp_all add: demo_body_def READ_BUFFER_SIZE_def INT_MIN_def)

section \<open>A full read buffer\<close>

text \<open>
  \<open>read\<close> takes a full buffer for the end of the stream: when more input is waiting than fits, it
  fills the buffer and reports failure, and the handler forgets the connection without an answer.
\<close>

lemma full_buffer_closes:
  assumes "length (readBuf c) = READ_BUFFER_SIZE" "readIdx c \<le> READ_BUFFER_SIZE"
    and "recvs w (sockFd c) = [Received s]" "READ_BUFFER_SIZE < readIdx c + length s" "sockFd c \<noteq> - 1"
  shows "\<exists>c' w'. on_readable st cont c w = Inr (c', w') \<and> sockFd c' = - 1 \<and> readIdx c' = READ_BUFFER_SIZE \<and>
    userCount w' = userCount w - 1 \<and> out w' = out w \<and> interests w' = interests w"
proof -
  define k where "k = READ_BUFFER_SIZE - readIdx c"
  have k: "k < length s" "min k (length s) = k" using assms(2,4) by (auto simp: k_def)
  have stop: "recv_loop b READ_BUFFER_SIZE (Received (drop k s) # []) =
      (False, b, READ_BUFFER_SIZE, [Received (drop k s)])" for b
    by (simp add: recv_loop.simps [of b READ_BUFFER_SIZE])
  have "\<exists>b rs. recv_loop (readBuf c) (readIdx c) [Received s] = (False, b, READ_BUFFER_SIZE, rs)"
  proof (cases "k = 0")
    case True
    then have "readIdx c = READ_BUFFER_SIZE" using assms(2) by (simp add: k_def)
    then show ?thesis by (simp add: recv_loop.simps [of _ READ_BUFFER_SIZE])
  next
    case False
    have "readIdx c + k = READ_BUFFER_SIZE" using assms(2) by (simp add: k_def)
    then show ?thesis
      using k False stop by (simp add: recv_loop.simps [of "readBuf c"] Let_def flip: k_def)
  qed
  then show ?thesis
    using assms(2,3,5) by (auto simp: on_readable_def conn_read_def closeConn_def)
qed

definition demo_flood :: string where "demo_flood = replicate 3000 SP"

lemma demo_flood_length: "length demo_flood = 3000"
  by (simp only: demo_flood_def length_replicate)

lemma full_buffer_closes_witness:
  "\<exists>c' w'. on_readable (\<lambda>_. None) (\<lambda>_. None) demo_conn
      (demo_world\<lparr> recvs := (\<lambda>_. [Received demo_flood]) \<rparr>) = Inr (c', w') \<and>
    sockFd c' = - 1 \<and> readIdx c' = READ_BUFFER_SIZE \<and>
    userCount w' = userCount (demo_world\<lparr> recvs := (\<lambda>_. [Received demo_flood]) \<rparr>) - 1 \<and>
    out w' = out (demo_world\<lparr> recvs := (\<lambda>_. [Received demo_flood]) \<rparr>) \<and>
    interests w' = interests (demo_world\<lparr> recvs := (\<lambda>_. [Received demo_flood]) \<rparr>)"
  by (rule full_buffer_closes [where s = demo_flood]) (simp_all add: demo_conn_def init_conn_def READ_BUFFER_SIZE_def HttpConn_def demo_flood_length)

end
