(* ===== verification/Transition.thy ===== *)
theory Transition
  imports Reactor_Prelude
begin

text \<open>
  Transition systems for the parts of the program that several threads run: reachable states, runs
  that count the steps of one kind, and two interfaces. \<open>invariant_system\<close> asks for an invariant of
  the steps; \<open>terminating_system\<close> extends it by a measure that working steps lower until a goal is
  reached, while idle steps (polling once more, say) do not raise it.
\<close>

section \<open>Reachable states and runs\<close>

inductive reachable :: "('s \<Rightarrow> bool) \<Rightarrow> ('s \<Rightarrow> 's \<Rightarrow> bool) \<Rightarrow> 's \<Rightarrow> bool" for init step where
  start: "init s \<Longrightarrow> reachable init step s"
| further: "reachable init step s \<Longrightarrow> step s t \<Longrightarrow> reachable init step t"

text \<open>A run with \<open>n\<close> working steps and any number of idle ones.\<close>

inductive run :: "('s \<Rightarrow> 's \<Rightarrow> bool) \<Rightarrow> ('s \<Rightarrow> 's \<Rightarrow> bool) \<Rightarrow> 's \<Rightarrow> nat \<Rightarrow> 's \<Rightarrow> bool" for work idle s where
  here: "run work idle s 0 s"
| working: "run work idle s n t \<Longrightarrow> work t u \<Longrightarrow> run work idle s (Suc n) u"
| idling: "run work idle s n t \<Longrightarrow> idle t u \<Longrightarrow> run work idle s n u"

lemma reachable_mono:
  assumes "reachable init step s" "\<And>s. init s \<Longrightarrow> init' s" "\<And>s t. step s t \<Longrightarrow> step' s t"
  shows "reachable init' step' s"
  using assms(1) by induction (auto intro: reachable.intros assms(2,3))

text \<open>Following a path: the state after a list of steps that each have been checked.\<close>

lemma reachable_path:
  assumes "reachable init step (p 0)" "\<forall>i < n. step (p i) (p (Suc i))"
  shows "reachable init step (p n)"
  using assms(2)
proof (induction n)
  case 0
  show ?case by (rule assms(1))
next
  case (Suc n)
  then show ?case by (auto intro: further)
qed

section \<open>Interfaces\<close>

locale invariant_system =
  fixes init :: "'s \<Rightarrow> bool" and step :: "'s \<Rightarrow> 's \<Rightarrow> bool" and inv :: "'s \<Rightarrow> bool"
  assumes inv_init: "init s \<Longrightarrow> inv s"
    and inv_step: "inv s \<Longrightarrow> step s t \<Longrightarrow> inv t"
begin

lemma reachable_inv: "reachable init step s \<Longrightarrow> inv s"
  by (induction rule: reachable.induct) (auto intro: inv_init inv_step)

lemma inv_stays:
  assumes "reachable init step s" "inv' s" "\<And>s t. inv s \<Longrightarrow> inv' s \<Longrightarrow> step s t \<Longrightarrow> inv' t"
    "reachable (\<lambda>t. t = s) step t"
  shows "inv' t"
proof -
  have "inv t \<and> inv' t"
    using assms(4) by induction (use assms reachable_inv inv_step in blast)+
  then show ?thesis ..
qed

end

locale terminating_system = invariant_system init step inv
  for init :: "'s \<Rightarrow> bool" and step :: "'s \<Rightarrow> 's \<Rightarrow> bool" and inv :: "'s \<Rightarrow> bool" +
  fixes work :: "'s \<Rightarrow> 's \<Rightarrow> bool" and idle :: "'s \<Rightarrow> 's \<Rightarrow> bool" and goal :: "'s \<Rightarrow> bool" and mu :: "'s \<Rightarrow> nat"
  assumes step_split: "step s t \<longleftrightarrow> work s t \<or> idle s t"
    and goal_stays: "inv s \<Longrightarrow> goal s \<Longrightarrow> step s t \<Longrightarrow> goal t"
    and work_lowers: "inv s \<Longrightarrow> \<not> goal s \<Longrightarrow> work s t \<Longrightarrow> mu t < mu s"
    and idle_keeps: "inv s \<Longrightarrow> \<not> goal s \<Longrightarrow> idle s t \<Longrightarrow> mu t \<le> mu s"
    and not_stuck: "inv s \<Longrightarrow> \<not> goal s \<Longrightarrow> \<exists>t. work s t"
begin

lemma run_inv: "inv s \<Longrightarrow> run work idle s n t \<Longrightarrow> inv t"
  by (rotate_tac 1, induction rule: run.induct) (auto intro: inv_step simp: step_split)

lemma run_measure: "inv s \<Longrightarrow> run work idle s n t \<Longrightarrow> goal t \<or> n + mu t \<le> mu s"
proof (rotate_tac 1, induction rule: run.induct)
  case (working n t u)
  then show ?case
    using run_inv [OF working.prems working.hyps(1)] work_lowers [of t u] goal_stays [of t u] step_split by fastforce
next
  case (idling n t u)
  then show ?case
    using run_inv [OF idling.prems idling.hyps(1)] idle_keeps [of t u] goal_stays [of t u] step_split by fastforce
qed simp

lemma run_ends:
  assumes "init s" "run work idle s n t"
  shows "goal t \<or> (n < mu s \<and> (\<exists>u. work t u))"
proof (cases "goal t")
  case False
  have "inv s" using inv_init assms(1) by blast
  then obtain u where "work t u" using not_stuck [OF run_inv [OF _ assms(2)] False] by blast
  moreover have "goal u \<or> Suc n + mu u \<le> mu s" 
    using run_measure [OF \<open>inv s\<close> run.working [OF assms(2) \<open>work t u\<close>]] .
  moreover have "mu u < mu t" using work_lowers [OF run_inv [OF \<open>inv s\<close> assms(2)] False \<open>work t u\<close>] .
  ultimately show ?thesis using run_measure [OF \<open>inv s\<close> assms(2)] False by fastforce
qed simp

end

end
