(* ===== verification/Mutex.thy ===== *)
theory Mutex
  imports Transition
begin

text \<open>
  src/Mutex.h and src/Mutex.cc: \<open>MutexLock\<close>, \<open>MutexLockGuard\<close>, \<open>Condition\<close> and \<open>CountDownLatch\<close>.
  A thread is a positive number, what \<open>gettid\<close> returns for it. An operation that may block is an
  option, \<open>None\<close> as long as it blocks. A guard is the pair of \<open>lock\<close> and \<open>unlock\<close> around its scope.
\<close>

section \<open>MutexLock\<close>

text \<open>\<open>owner\<close> is the state of the pthread mutex, \<open>holder\<close> the member that records who holds it.\<close>

record mutex_lock =
  holder :: nat
  owner :: "nat option"

definition MutexLock :: mutex_lock where
  "MutexLock = \<lparr> holder = 0, owner = None \<rparr>"

definition MutexLock_dtor :: "'a mutex_lock_scheme \<Rightarrow> unit res" where
  "MutexLock_dtor m = assertE (holder m = 0)"

definition pthread_mutex_lock :: "nat \<Rightarrow> 'a mutex_lock_scheme \<Rightarrow> 'a mutex_lock_scheme option" where
  "pthread_mutex_lock tid m = (if owner m = None then Some (m\<lparr> owner := Some tid \<rparr>) else None)"

definition pthread_mutex_unlock :: "'a mutex_lock_scheme \<Rightarrow> 'a mutex_lock_scheme" where
  "pthread_mutex_unlock m = m\<lparr> owner := None \<rparr>"

definition lock :: "nat \<Rightarrow> 'a mutex_lock_scheme \<Rightarrow> 'a mutex_lock_scheme option" where
  "lock tid m = map_option (\<lambda>m. m\<lparr> holder := tid \<rparr>) (pthread_mutex_lock tid m)"

definition unlock :: "'a mutex_lock_scheme \<Rightarrow> 'a mutex_lock_scheme" where
  "unlock m = pthread_mutex_unlock (m\<lparr> holder := 0 \<rparr>)"

definition isLockedByThisThread :: "nat \<Rightarrow> 'a mutex_lock_scheme \<Rightarrow> bool" where
  "isLockedByThisThread tid m = (holder m = tid)"

definition assertLocked :: "nat \<Rightarrow> 'a mutex_lock_scheme \<Rightarrow> unit res" where
  "assertLocked tid m = assertE (isLockedByThisThread tid m)"

section \<open>Condition\<close>

text \<open>
  A condition with its mutex; \<open>sleepers\<close> are the threads inside \<open>pthread_cond_wait\<close> that have not
  been woken. \<open>wait\<close> is in two halves: it gives the mutex up and sleeps, and once woken takes the
  mutex again. \<open>holder\<close> is not touched by either half.
\<close>

record monitor = mutex_lock +
  sleepers :: "nat set"

definition Condition :: monitor where
  "Condition = \<lparr> holder = 0, owner = None, sleepers = {} \<rparr>"

definition cond_wait :: "nat \<Rightarrow> 'a monitor_scheme \<Rightarrow> 'a monitor_scheme" where
  "cond_wait tid m = m\<lparr> owner := None, sleepers := insert tid (sleepers m) \<rparr>"

definition cond_resume :: "nat \<Rightarrow> 'a monitor_scheme \<Rightarrow> 'a monitor_scheme option" where
  "cond_resume tid m = (if tid \<in> sleepers m then None else pthread_mutex_lock tid m)"

text \<open>\<open>notify\<close> wakes one sleeper, if there is one: \<open>w\<close> says which.\<close>

definition wakeable :: "'a monitor_scheme \<Rightarrow> nat option \<Rightarrow> bool" where
  "wakeable m w = (case w of None \<Rightarrow> sleepers m = {} | Some t \<Rightarrow> t \<in> sleepers m)"

definition notify :: "nat option \<Rightarrow> 'a monitor_scheme \<Rightarrow> 'a monitor_scheme" where
  "notify w m = m\<lparr> sleepers := sleepers m - set_option w \<rparr>"

definition notifyAll :: "'a monitor_scheme \<Rightarrow> 'a monitor_scheme" where
  "notifyAll m = m\<lparr> sleepers := {} \<rparr>"

section \<open>CountDownLatch\<close>

record latch = monitor +
  count :: int

definition CountDownLatch :: "int \<Rightarrow> latch" where
  "CountDownLatch cnt = \<lparr> holder = 0, owner = None, sleepers = {}, count = cnt \<rparr>"

text \<open>The test of the loop in \<open>wait\<close>, and the scope of the guard in \<open>countDown\<close> and \<open>getCount\<close>.\<close>

definition must_wait :: "latch \<Rightarrow> bool" where
  "must_wait l = (count l > 0)"

definition count_down :: "latch \<Rightarrow> latch res" where
  "count_down l =
     (if count l = INT_MIN then Inl Signed_Overflow
      else let l = l\<lparr> count := count l - 1 \<rparr>
           in Inr (if count l = 0 then notifyAll l else l))"

definition getCount :: "nat \<Rightarrow> latch \<Rightarrow> (int \<times> latch) option" where
  "getCount tid l = map_option (\<lambda>l. (count l, unlock l)) (lock tid l)"

lemmas mutex_defs = MutexLock_def pthread_mutex_lock_def pthread_mutex_unlock_def lock_def unlock_def
  Condition_def cond_wait_def cond_resume_def wakeable_def notify_def notifyAll_def
  CountDownLatch_def must_wait_def count_down_def

text \<open>When the operations that may block do not.\<close>

lemma lock_eq: "lock t m = Some l \<longleftrightarrow> owner m = None \<and> l = m\<lparr> owner := Some t, holder := t \<rparr>"
  by (auto simp: lock_def pthread_mutex_lock_def)

lemma cond_resume_eq:
  "cond_resume t m = Some l \<longleftrightarrow> t \<notin> sleepers m \<and> owner m = None \<and> l = m\<lparr> owner := Some t \<rparr>"
  by (auto simp: cond_resume_def pthread_mutex_lock_def)

lemma unlock_eq: "unlock m = m\<lparr> holder := 0, owner := None \<rparr>"
  by (simp add: unlock_def pthread_mutex_unlock_def)

section \<open>Threads at one mutex\<close>

text \<open>
  Any number of threads that use one mutex and its condition in any order. \<open>lock\<close> and \<open>unlock\<close> are
  two steps each here, for the comments in the code say that their order matters: a thread is
  outside, between the two steps of \<open>lock\<close>, inside (with a flag that says whether it has not waited
  since it locked), between the two steps of \<open>unlock\<close>, or in \<open>wait\<close>. A sleeper may also wake for no
  reason.
\<close>

datatype lock_pc = Outside | Marking | Inside bool | Unmarked | Waiting

record locking =
  mon :: monitor
  place :: "nat \<Rightarrow> lock_pc"

definition move :: "locking \<Rightarrow> nat \<Rightarrow> monitor \<Rightarrow> lock_pc \<Rightarrow> locking" where
  "move s t m p = \<lparr> mon = m, place = (place s)(t := p) \<rparr>"

inductive lock_step :: "locking \<Rightarrow> nat \<Rightarrow> locking \<Rightarrow> bool" where
  acquire: "place s t = Outside \<Longrightarrow> pthread_mutex_lock t (mon s) = Some m \<Longrightarrow> lock_step s t (move s t m Marking)"
| mark: "place s t = Marking \<Longrightarrow> lock_step s t (move s t ((mon s)\<lparr> holder := t \<rparr>) (Inside True))"
| wait: "place s t = Inside b \<Longrightarrow> lock_step s t (move s t (cond_wait t (mon s)) Waiting)"
| resume: "place s t = Waiting \<Longrightarrow> cond_resume t (mon s) = Some m \<Longrightarrow> lock_step s t (move s t m (Inside False))"
| signal: "wakeable (mon s) w \<Longrightarrow> lock_step s t (move s t (notify w (mon s)) (place s t))"
| signal_all: "lock_step s t (move s t (notifyAll (mon s)) (place s t))"
| spurious: "place s t = Waiting \<Longrightarrow> lock_step s t (move s t (notify (Some t) (mon s)) Waiting)"
| unmark: "place s t = Inside b \<Longrightarrow> lock_step s t (move s t ((mon s)\<lparr> holder := 0 \<rparr>) Unmarked)"
| release: "place s t = Unmarked \<Longrightarrow> lock_step s t (move s t (pthread_mutex_unlock (mon s)) Outside)"

inductive_simps lock_step_simps: "lock_step s t u"

definition unlocked :: "locking \<Rightarrow> bool" where
  "unlocked s \<longleftrightarrow> mon s = Condition \<and> place s = (\<lambda>_. Outside)"

definition any_step :: "locking \<Rightarrow> locking \<Rightarrow> bool" where
  "any_step s u \<longleftrightarrow> (\<exists>t > 0. lock_step s t u)"

text \<open>The steps of the guards are the operations: \<open>lock\<close> and \<open>unlock\<close> are two steps in a row.\<close>

lemma lock_two_steps:
  "place s t = Outside \<Longrightarrow> lock t (mon s) = Some m \<Longrightarrow>
   \<exists>s1. lock_step s t s1 \<and> lock_step s1 t (move s t m (Inside True))"
  by (rule exI [of _ "move s t ((mon s)\<lparr> owner := Some t \<rparr>) Marking"])
    (auto simp: lock_step_simps lock_def pthread_mutex_lock_def move_def split: if_splits)

lemma unlock_two_steps:
  "place s t = Inside b \<Longrightarrow>
   \<exists>s1. lock_step s t s1 \<and> lock_step s1 t (move s t (unlock (mon s)) Outside)"
  by (rule exI [of _ "move s t ((mon s)\<lparr> holder := 0 \<rparr>) Unmarked"])
    (auto simp: lock_step_simps unlock_def pthread_mutex_unlock_def move_def)

definition owns :: "lock_pc \<Rightarrow> bool" where
  "owns p \<longleftrightarrow> p = Marking \<or> p = Unmarked \<or> (\<exists>b. p = Inside b)"

text \<open>What holds of every thread.\<close>

definition thread_ok :: "locking \<Rightarrow> nat \<Rightarrow> bool" where
  "thread_ok s t \<longleftrightarrow>
     (owns (place s t) \<longleftrightarrow> owner (mon s) = Some t) \<and>
     (holder (mon s) = t \<longrightarrow> place s t = Waiting \<or> (\<exists>b. place s t = Inside b)) \<and>
     (place s t = Inside True \<longrightarrow> holder (mon s) = t) \<and>
     (t \<in> sleepers (mon s) \<longrightarrow> place s t = Waiting)"

definition lock_inv :: "locking \<Rightarrow> bool" where
  "lock_inv s \<longleftrightarrow> (\<forall>t > 0. thread_ok s t)"

lemma owns_simps [simp]:
  "owns Marking" "owns Unmarked" "owns (Inside b)" "\<not> owns Outside" "\<not> owns Waiting"
  by (simp_all add: owns_def)

lemma lock_step_thread_ok:
  assumes "lock_step s t u" "t > 0" "t' > 0" "thread_ok s t" "thread_ok s t'"
  shows "thread_ok u t'"
  using assms
  by cases (auto simp: thread_ok_def move_def pthread_mutex_lock_def pthread_mutex_unlock_def
      cond_wait_def cond_resume_def notify_def notifyAll_def split: if_splits)

interpretation locks: invariant_system unlocked any_step lock_inv
proof
  fix s u
  assume "lock_inv s" "any_step s u"
  then show "lock_inv u" by (auto simp: lock_inv_def any_step_def intro: lock_step_thread_ok)
qed (auto simp: lock_inv_def thread_ok_def unlocked_def Condition_def)

section \<open>Properties\<close>

lemma any_step_reachable:
  "reachable unlocked any_step s \<Longrightarrow> lock_step s t u \<Longrightarrow> t > 0 \<Longrightarrow> reachable unlocked any_step u"
  by (rule further [of unlocked any_step s]) (auto simp: any_step_def)

lemma move_simps [simp]:
  "mon (move s t m p) = m" "place (move s t m p) = (place s)(t := p)"
  by (simp_all add: move_def)

text \<open>
  A thread \<open>t\<close> inside waits; \<open>u\<close> locks, wakes it and unlocks; then \<open>t\<close> is inside again.
\<close>

lemma holder_lost:
  assumes r: "reachable unlocked any_step s" and t: "t > 0" "u > 0" "t \<noteq> u"
    and p: "place s t = Inside b" "place s u = Outside"
  shows "\<exists>s'. reachable unlocked any_step s' \<and> place s' t = Inside False \<and> holder (mon s') = 0"
proof -
  note next_t = any_step_reachable [OF _ _ t(1)] and next_u = any_step_reachable [OF _ _ t(2)]
  obtain s1 where s1: "reachable unlocked any_step s1" "place s1 t = Waiting" "place s1 u = Outside"
      "owner (mon s1) = None" "t \<in> sleepers (mon s1)"
    using next_t [OF r wait [OF p(1)]] p t by (fastforce simp: cond_wait_def)
  then obtain s2 where s2: "reachable unlocked any_step s2" "place s2 t = Waiting" "place s2 u = Marking"
      "t \<in> sleepers (mon s2)"
    using next_u [OF s1(1) acquire [of s1 u]] t by (fastforce simp: pthread_mutex_lock_def)
  then obtain s3 where s3: "reachable unlocked any_step s3" "place s3 t = Waiting" "place s3 u = Inside True"
      "t \<in> sleepers (mon s3)"
    using next_u [OF s2(1) mark [OF s2(3)]] t by fastforce
  then obtain s4 where s4: "reachable unlocked any_step s4" "place s4 t = Waiting" "place s4 u = Inside True"
      "t \<notin> sleepers (mon s4)"
    using next_u [OF s3(1) signal [of s3 "Some t"]] t by (fastforce simp: wakeable_def notify_def)
  then obtain s5 where s5: "reachable unlocked any_step s5" "place s5 t = Waiting" "place s5 u = Unmarked"
      "t \<notin> sleepers (mon s5)" "holder (mon s5) = 0"
    using next_u [OF s4(1) unmark [OF s4(3)]] t by fastforce
  then obtain s6 where s6: "reachable unlocked any_step s6" "place s6 t = Waiting" "owner (mon s6) = None"
      "t \<notin> sleepers (mon s6)" "holder (mon s6) = 0"
    using next_u [OF s5(1) release [OF s5(3)]] t by (fastforce simp: pthread_mutex_unlock_def)
  then show ?thesis
    using next_t [OF s6(1) resume [OF s6(2)]] by (fastforce simp: cond_resume_def pthread_mutex_lock_def)
qed

text \<open>
  C32: the mutex under every interleaving of any number of threads that lock, unlock, wait, wake each
  other and wake up for no reason. At most one thread is inside; a thread outside is never told
  that it holds the mutex, not even between the two steps of \<open>lock\<close> and \<open>unlock\<close>; a thread inside that has
  not waited since it locked passes \<open>assertLocked\<close>; and a mutex that nobody uses can be destructed.
  But \<open>Condition::wait\<close> does not restore \<open>holder_\<close>: a thread that waited can be inside and fail
  \<open>assertLocked\<close>.
\<close>

theorem mutex_exclusive:
  assumes r: "reachable unlocked any_step s"
  shows "(\<forall>t > 0. \<forall>u > 0. owns (place s t) \<longrightarrow> owns (place s u) \<longrightarrow> t = u) \<and>
    (\<forall>t > 0. place s t \<in> {Outside, Marking, Unmarked} \<longrightarrow> \<not> isLockedByThisThread t (mon s)) \<and>
    (\<forall>t > 0. place s t = Inside True \<longrightarrow> assertLocked t (mon s) = Inr ()) \<and>
    ((\<forall>t > 0. place s t = Outside) \<longrightarrow> MutexLock_dtor (mon s) = Inr ()) \<and>
    (\<forall>t > 0. \<forall>u > 0. \<forall>b. t \<noteq> u \<and> place s t = Inside b \<and> place s u = Outside \<longrightarrow>
      (\<exists>s'. reachable unlocked any_step s' \<and> place s' t = Inside False \<and>
        assertLocked t (mon s') = Inl Assert_Failed))"
proof (intro conjI)
  have ok: "thread_ok s t" if "t > 0" for t
    using locks.reachable_inv [OF r] that by (simp add: lock_inv_def)
  show "\<forall>t > 0. \<forall>u > 0. owns (place s t) \<longrightarrow> owns (place s u) \<longrightarrow> t = u"
    using ok by (metis thread_ok_def option.inject)
  show "\<forall>t > 0. place s t \<in> {Outside, Marking, Unmarked} \<longrightarrow> \<not> isLockedByThisThread t (mon s)"
  proof (intro allI impI)
    fix t
    assume "0 < t" "place s t \<in> {Outside, Marking, Unmarked}"
    then show "\<not> isLockedByThisThread t (mon s)"
      using ok [of t] by (auto simp: thread_ok_def isLockedByThisThread_def)
  qed
  show "\<forall>t > 0. place s t = Inside True \<longrightarrow> assertLocked t (mon s) = Inr ()"
    using ok by (simp add: thread_ok_def isLockedByThisThread_def assertLocked_def)
  show "(\<forall>t > 0. place s t = Outside) \<longrightarrow> MutexLock_dtor (mon s) = Inr ()"
    using ok [of "holder (mon s)"] by (cases "holder (mon s) = 0") (auto simp: thread_ok_def MutexLock_dtor_def)
  show "\<forall>t > 0. \<forall>u > 0. \<forall>b. t \<noteq> u \<and> place s t = Inside b \<and> place s u = Outside \<longrightarrow>
      (\<exists>s'. reachable unlocked any_step s' \<and> place s' t = Inside False \<and>
        assertLocked t (mon s') = Inl Assert_Failed)"
  proof (intro allI impI)
    fix t u b
    assume t: "0 < t" "0 < u" and p: "t \<noteq> u \<and> place s t = Inside b \<and> place s u = Outside"
    then obtain s' where "reachable unlocked any_step s'" "place s' t = Inside False" "holder (mon s') = 0"
      using holder_lost [OF r t] by blast
    then show "\<exists>s'. reachable unlocked any_step s' \<and> place s' t = Inside False \<and>
        assertLocked t (mon s') = Inl Assert_Failed"
      using t by (intro exI [of _ s']) (simp add: assertLocked_def isLockedByThisThread_def)
  qed
qed

definition fresh_mutex :: locking where
  "fresh_mutex = \<lparr> mon = Condition, place = \<lambda>_. Outside \<rparr>"

definition one_inside :: locking where
  "one_inside = \<lparr> mon = \<lparr> holder = 7, owner = Some 7, sleepers = {} \<rparr>, place = (\<lambda>_. Outside)(7 := Inside True) \<rparr>"

lemma one_inside_reachable: "reachable unlocked any_step one_inside"
proof -
  have "reachable unlocked any_step fresh_mutex" by (rule start) (simp add: unlocked_def fresh_mutex_def)
  then have "reachable unlocked any_step
      (move fresh_mutex 7 \<lparr> holder = 0, owner = Some 7, sleepers = {} \<rparr> Marking)"
    by (rule any_step_reachable [OF _ acquire]) (simp_all add: fresh_mutex_def Condition_def pthread_mutex_lock_def)
  from any_step_reachable [OF this mark [of _ 7]] show ?thesis
    by (simp add: move_def fresh_mutex_def one_inside_def)
qed

theorem mutex_exclusive_witness:
  "\<not> isLockedByThisThread 8 (mon one_inside) \<and> assertLocked 7 (mon one_inside) = Inr () \<and>
   (\<exists>s'. reachable unlocked any_step s' \<and> place s' 7 = Inside False \<and>
      assertLocked 7 (mon s') = Inl Assert_Failed)"
proof -
  have p: "place one_inside 7 = Inside True" "place one_inside 8 = Outside" by (simp_all add: one_inside_def)
  note m = mutex_exclusive [OF one_inside_reachable]
  have "\<not> isLockedByThisThread 8 (mon one_inside)"
    using m [THEN conjunct2, THEN conjunct1, rule_format, of 8] p by simp
  moreover have "assertLocked 7 (mon one_inside) = Inr ()"
    using m [THEN conjunct2, THEN conjunct2, THEN conjunct1, rule_format, of 7] p by simp
  moreover have "\<exists>s'. reachable unlocked any_step s' \<and> place s' 7 = Inside False \<and>
      assertLocked 7 (mon s') = Inl Assert_Failed"
    using m [THEN conjunct2, THEN conjunct2, THEN conjunct2, THEN conjunct2, rule_format, of 7 8 True] p by simp
  ultimately show ?thesis by blast
qed

end
