(* ===== verification/EventLoopThread.thy ===== *)
theory EventLoopThread
  imports Mutex CLib
begin

text \<open>
  src/Thread.h, src/Thread.cc, src/EventLoopThread.h and src/EventLoopThread.cc: one thread that owns
  an event loop on its stack, from \<open>startLoop\<close> to the destructor. The thread that calls \<open>startLoop\<close>
  and the new one move in any order; a step is one operation on a mutex or a condition, or one access
  to a shared variable. Of the event loop only what \<open>quit\<close> and the loop test use is kept: theory
  EventLoop has the rest.
\<close>

section \<open>The thread object\<close>

record thread_obj =
  joined :: bool
  started :: bool
  tid :: nat
  name :: string

text \<open>\<open>numCreated\<close> is the static counter that unnamed threads are numbered with.\<close>

definition setDefaultName :: "int \<Rightarrow> thread_obj \<Rightarrow> thread_obj \<times> int" where
  "setDefaultName numCreated t =
     (if name t = [] then (t\<lparr> name := ''Thread-'' @ decimal numCreated \<rparr>, numCreated + 1)
      else (t, numCreated))"

definition Thread :: "string \<Rightarrow> int \<Rightarrow> thread_obj \<times> int" where
  "Thread nm numCreated = setDefaultName numCreated \<lparr> joined = False, started = False, tid = 0, name = nm \<rparr>"

text \<open>Whether the destructor detaches the pthread, which then goes on by itself.\<close>

definition Thread_dtor :: "thread_obj \<Rightarrow> bool" where
  "Thread_dtor t = (started t \<and> \<not> joined t)"

section \<open>States\<close>

text \<open>The two threads, and the address of the variable \<open>loop\<close> of \<open>threadFunc\<close>.\<close>

definition caller :: nat where "caller = 1"
definition child :: nat where "child = 2"
definition the_loop :: nat where "the_loop = 0"

text \<open>Where the calling thread is: in \<open>startLoop\<close> with \<open>Thread::start\<close>, or in the destructor.\<close>

datatype main_pc =
  AtStart | LatchLock | LatchTest | LatchWait | LatchUnlock | AssertTid |
  LoopLock | LoopTest | LoopWait | LoopUnlock | AtReturn | Returned ptr |
  AtCheck | AtQuit | InQuit nat | AtWakeup nat | AtJoin | Joining | Destructing | Destroyed |
  Failed c_error

text \<open>Where the new thread is: in \<open>runInThread\<close>, in \<open>threadFunc\<close> or in \<open>loop\<close> of its event loop.\<close>

datatype thread_pc =
  NotCreated | SetTid | CountLock | CountDown | CountUnlock |
  Construct | InitCB | SetLock | SetLoop | SetUnlock | CallLoop |
  EnterLoop nat | ClearQuit nat | TestQuit nat | Polling nat | LeaveLoop nat |
  ClearPtr | DestroyLoop | Exited | ThreadFailed c_error

record loop_obj =
  looping :: bool
  quit :: bool
  wakeups :: nat

definition new_loop :: loop_obj where
  "new_loop = \<lparr> looping = False, quit = False, wakeups = 0 \<rparr>"

text \<open>
  \<open>can_create\<close> says whether \<open>pthread_create\<close> will succeed, \<open>spurious\<close> how many more times a waiting
  thread may wake up for no reason.
\<close>

record loop_thread =
  main_at :: main_pc
  thread_at :: thread_pc
  thread :: thread_obj
  start_latch :: latch
  loop_lock :: monitor
  loop_ptr :: ptr
  exiting :: bool
  stack :: "loop_obj store"
  can_create :: bool
  spurious :: nat

definition EventLoopThread :: "string \<Rightarrow> int \<Rightarrow> bool \<Rightarrow> nat \<Rightarrow> loop_thread" where
  "EventLoopThread nm numCreated ok k =
     \<lparr> main_at = AtStart, thread_at = NotCreated, thread = fst (Thread nm numCreated),
       start_latch = CountDownLatch 1, loop_lock = Condition, loop_ptr = Null, exiting = False,
       stack = Map.empty, can_create = ok, spurious = k \<rparr>"

section \<open>The calling thread\<close>

definition on_loop_obj :: "loop_thread \<Rightarrow> nat \<Rightarrow> (loop_obj \<Rightarrow> loop_obj) \<Rightarrow> (loop_thread \<Rightarrow> loop_thread) \<Rightarrow>
    (c_error \<Rightarrow> loop_thread \<Rightarrow> loop_thread) \<Rightarrow> loop_thread" where
  "on_loop_obj s x f k err =
     (case stack s x of None \<Rightarrow> err Dangling s | Some l \<Rightarrow> k (s\<lparr> stack := (stack s)(x \<mapsto> f l) \<rparr>))"

definition go :: "main_pc \<Rightarrow> loop_thread \<Rightarrow> loop_thread" where
  "go p s = s\<lparr> main_at := p \<rparr>"

definition go_thread :: "thread_pc \<Rightarrow> loop_thread \<Rightarrow> loop_thread" where
  "go_thread p s = s\<lparr> thread_at := p \<rparr>"

definition fail :: "c_error \<Rightarrow> loop_thread \<Rightarrow> loop_thread" where
  "fail e = go (Failed e)"

inductive main_step :: "loop_thread \<Rightarrow> loop_thread \<Rightarrow> bool" where
  started_twice: "main_at s = AtStart \<Longrightarrow> started (thread s) \<Longrightarrow> main_step s (fail Assert_Failed s)"
| create: "main_at s = AtStart \<Longrightarrow> \<not> started (thread s) \<Longrightarrow> can_create s \<Longrightarrow>
    main_step s (go LatchLock (go_thread SetTid (s\<lparr> thread := (thread s)\<lparr> started := True \<rparr> \<rparr>)))"
| create_fails: "main_at s = AtStart \<Longrightarrow> \<not> started (thread s) \<Longrightarrow> \<not> can_create s \<Longrightarrow>
    main_step s (go LoopLock s)"
| latch_lock: "main_at s = LatchLock \<Longrightarrow> lock caller (start_latch s) = Some l \<Longrightarrow>
    main_step s (go LatchTest (s\<lparr> start_latch := l \<rparr>))"
| latch_wait: "main_at s = LatchTest \<Longrightarrow> must_wait (start_latch s) \<Longrightarrow>
    main_step s (go LatchWait (s\<lparr> start_latch := cond_wait caller (start_latch s) \<rparr>))"
| latch_resume: "main_at s = LatchWait \<Longrightarrow> cond_resume caller (start_latch s) = Some l \<Longrightarrow>
    main_step s (go LatchTest (s\<lparr> start_latch := l \<rparr>))"
| latch_done: "main_at s = LatchTest \<Longrightarrow> \<not> must_wait (start_latch s) \<Longrightarrow> main_step s (go LatchUnlock s)"
| latch_unlock: "main_at s = LatchUnlock \<Longrightarrow>
    main_step s (go AssertTid (s\<lparr> start_latch := unlock (start_latch s) \<rparr>))"
| assert_tid: "main_at s = AssertTid \<Longrightarrow>
    main_step s (if tid (thread s) > 0 then go LoopLock s else fail Assert_Failed s)"
| loop_locked: "main_at s = LoopLock \<Longrightarrow> lock caller (loop_lock s) = Some l \<Longrightarrow>
    main_step s (go LoopTest (s\<lparr> loop_lock := l \<rparr>))"
| loop_wait: "main_at s = LoopTest \<Longrightarrow> loop_ptr s = Null \<Longrightarrow>
    main_step s (go LoopWait (s\<lparr> loop_lock := cond_wait caller (loop_lock s) \<rparr>))"
| loop_resume: "main_at s = LoopWait \<Longrightarrow> cond_resume caller (loop_lock s) = Some l \<Longrightarrow>
    main_step s (go LoopTest (s\<lparr> loop_lock := l \<rparr>))"
| loop_done: "main_at s = LoopTest \<Longrightarrow> loop_ptr s \<noteq> Null \<Longrightarrow> main_step s (go LoopUnlock s)"
| loop_unlock: "main_at s = LoopUnlock \<Longrightarrow>
    main_step s (go AtReturn (s\<lparr> loop_lock := unlock (loop_lock s) \<rparr>))"
| return: "main_at s = AtReturn \<Longrightarrow> main_step s (go (Returned (loop_ptr s)) s)"
| destroy_unused: "main_at s = AtStart \<Longrightarrow> main_step s (go AtCheck (s\<lparr> exiting := True \<rparr>))"
| destroy: "main_at s = Returned p \<Longrightarrow> main_step s (go AtCheck (s\<lparr> exiting := True \<rparr>))"
| no_loop: "main_at s = AtCheck \<Longrightarrow> loop_ptr s = Null \<Longrightarrow> main_step s (go Destructing s)"
| has_loop: "main_at s = AtCheck \<Longrightarrow> loop_ptr s \<noteq> Null \<Longrightarrow> main_step s (go AtQuit s)"
| call_quit: "main_at s = AtQuit \<Longrightarrow>
    main_step s (case loop_ptr s of Ptr x \<Rightarrow> go (InQuit x) s | Null \<Rightarrow> fail Null_Deref s | Indet \<Rightarrow> fail Uninit_Read s)"
| quit_set: "main_at s = InQuit x \<Longrightarrow>
    main_step s (on_loop_obj s x (\<lambda>l. l\<lparr> quit := True \<rparr>) (go (AtWakeup x)) fail)"
| quit_wakeup: "main_at s = AtWakeup x \<Longrightarrow>
    main_step s (on_loop_obj s x (\<lambda>l. l\<lparr> wakeups := wakeups l + 1 \<rparr>) (go AtJoin) fail)"
| join: "main_at s = AtJoin \<Longrightarrow>
    main_step s (if started (thread s) \<and> \<not> joined (thread s)
      then go Joining (s\<lparr> thread := (thread s)\<lparr> joined := True \<rparr> \<rparr>) else fail Assert_Failed s)"
| thread_joined: "main_at s = Joining \<Longrightarrow> thread_at s = Exited \<Longrightarrow> main_step s (go Destructing s)"
| destruct: "main_at s = Destructing \<Longrightarrow>
    main_step s (case bindE (MutexLock_dtor (loop_lock s)) (\<lambda>_. MutexLock_dtor (start_latch s)) of
      Inl e \<Rightarrow> fail e s | Inr _ \<Rightarrow> go Destroyed s)"

section \<open>The new thread\<close>

definition fail_thread :: "c_error \<Rightarrow> loop_thread \<Rightarrow> loop_thread" where
  "fail_thread e = go_thread (ThreadFailed e)"

text \<open>
  \<open>InitCB\<close> is the callback; one turn of \<open>loop\<close> goes from the test to polling and, by an idle step,
  back to the test.
\<close>

inductive thread_step :: "loop_thread \<Rightarrow> loop_thread \<Rightarrow> bool" where
  set_tid: "thread_at s = SetTid \<Longrightarrow>
    thread_step s (go_thread CountLock (s\<lparr> thread := (thread s)\<lparr> tid := child \<rparr> \<rparr>))"
| count_lock: "thread_at s = CountLock \<Longrightarrow> lock child (start_latch s) = Some l \<Longrightarrow>
    thread_step s (go_thread CountDown (s\<lparr> start_latch := l \<rparr>))"
| count: "thread_at s = CountDown \<Longrightarrow>
    thread_step s (case count_down (start_latch s) of Inl e \<Rightarrow> fail_thread e s
      | Inr l \<Rightarrow> go_thread CountUnlock (s\<lparr> start_latch := l \<rparr>))"
| count_unlock: "thread_at s = CountUnlock \<Longrightarrow>
    thread_step s (go_thread Construct (s\<lparr> start_latch := unlock (start_latch s) \<rparr>))"
| construct: "thread_at s = Construct \<Longrightarrow>
    thread_step s (go_thread InitCB (s\<lparr> stack := (stack s)(the_loop \<mapsto> new_loop) \<rparr>))"
| init_cb: "thread_at s = InitCB \<Longrightarrow> thread_step s (go_thread SetLock s)"
| set_lock: "thread_at s = SetLock \<Longrightarrow> lock child (loop_lock s) = Some l \<Longrightarrow>
    thread_step s (go_thread SetLoop (s\<lparr> loop_lock := l \<rparr>))"
| set_loop: "thread_at s = SetLoop \<Longrightarrow> wakeable (loop_lock s) w \<Longrightarrow>
    thread_step s (go_thread SetUnlock (s\<lparr> loop_ptr := Ptr the_loop, loop_lock := notify w (loop_lock s) \<rparr>))"
| set_unlock: "thread_at s = SetUnlock \<Longrightarrow>
    thread_step s (go_thread CallLoop (s\<lparr> loop_lock := unlock (loop_lock s) \<rparr>))"
| call_loop: "thread_at s = CallLoop \<Longrightarrow>
    thread_step s (case loop_ptr s of Ptr x \<Rightarrow> go_thread (EnterLoop x) s
      | Null \<Rightarrow> fail_thread Null_Deref s | Indet \<Rightarrow> fail_thread Uninit_Read s)"
| enter_loop: "thread_at s = EnterLoop x \<Longrightarrow> stack s x = Some l \<Longrightarrow>
    thread_step s (if looping l then fail_thread Assert_Failed s
      else go_thread (ClearQuit x) (s\<lparr> stack := (stack s)(x \<mapsto> l\<lparr> looping := True \<rparr>) \<rparr>))"
| clear_quit: "thread_at s = ClearQuit x \<Longrightarrow> stack s x = Some l \<Longrightarrow>
    thread_step s (go_thread (TestQuit x) (s\<lparr> stack := (stack s)(x \<mapsto> l\<lparr> quit := False \<rparr>) \<rparr>))"
| end_loop: "thread_at s = TestQuit x \<Longrightarrow> stack s x = Some l \<Longrightarrow> quit l \<Longrightarrow>
    thread_step s (go_thread (LeaveLoop x) s)"
| leave_loop: "thread_at s = LeaveLoop x \<Longrightarrow> stack s x = Some l \<Longrightarrow>
    thread_step s (go_thread ClearPtr (s\<lparr> stack := (stack s)(x \<mapsto> l\<lparr> looping := False, quit := True \<rparr>) \<rparr>))"
| clear_ptr: "thread_at s = ClearPtr \<Longrightarrow> thread_step s (go_thread DestroyLoop (s\<lparr> loop_ptr := Null \<rparr>))"
| destroy_loop: "thread_at s = DestroyLoop \<Longrightarrow>
    thread_step s (go_thread Exited (s\<lparr> stack := (stack s)(the_loop := None) \<rparr>))"

inductive poll_step :: "loop_thread \<Rightarrow> loop_thread \<Rightarrow> bool" where
  poll: "thread_at s = TestQuit x \<Longrightarrow> stack s x = Some l \<Longrightarrow> \<not> quit l \<Longrightarrow>
    poll_step s (go_thread (Polling x) s)"
| polled: "thread_at s = Polling x \<Longrightarrow> poll_step s (go_thread (TestQuit x) s)"

inductive wake_step :: "loop_thread \<Rightarrow> loop_thread \<Rightarrow> bool" where
  wake_latch: "main_at s = LatchWait \<Longrightarrow> spurious s = Suc k \<Longrightarrow>
    wake_step s (s\<lparr> start_latch := notify (Some caller) (start_latch s), spurious := k \<rparr>)"
| wake_loop: "main_at s = LoopWait \<Longrightarrow> spurious s = Suc k \<Longrightarrow>
    wake_step s (s\<lparr> loop_lock := notify (Some caller) (loop_lock s), spurious := k \<rparr>)"

definition work_step :: "loop_thread \<Rightarrow> loop_thread \<Rightarrow> bool" where
  "work_step s t \<longleftrightarrow> main_step s t \<or> thread_step s t \<or> wake_step s t"

definition pair_step :: "loop_thread \<Rightarrow> loop_thread \<Rightarrow> bool" where
  "pair_step s t \<longleftrightarrow> work_step s t \<or> poll_step s t"

inductive_simps main_step_simps: "main_step s t"
inductive_simps thread_step_simps: "thread_step s t"
inductive_simps poll_step_simps: "poll_step s t"
inductive_simps wake_step_simps: "wake_step s t"

section \<open>The invariant\<close>

text \<open>How far the new thread has come; a poll of the loop does not count.\<close>

fun stage :: "thread_pc \<Rightarrow> nat" where
  "stage NotCreated = 0" | "stage SetTid = 1" | "stage CountLock = 2" | "stage CountDown = 3"
| "stage CountUnlock = 4" | "stage Construct = 5" | "stage InitCB = 6" | "stage SetLock = 7"
| "stage SetLoop = 8" | "stage SetUnlock = 9" | "stage CallLoop = 10" | "stage (EnterLoop x) = 11"
| "stage (ClearQuit x) = 12" | "stage (TestQuit x) = 13" | "stage (Polling x) = 13" | "stage (LeaveLoop x) = 14"
| "stage ClearPtr = 15" | "stage DestroyLoop = 16" | "stage Exited = 17" | "stage (ThreadFailed e) = 18"

abbreviation at_stage :: "loop_thread \<Rightarrow> nat" where
  "at_stage s \<equiv> stage (thread_at s)"

text \<open>The members of the object and the stack of the thread at every stage of the thread.\<close>

definition thread_ok :: "loop_thread \<Rightarrow> bool" where
  "thread_ok s \<longleftrightarrow> at_stage s \<le> 17 \<and>
     count (start_latch s) = (if at_stage s \<le> 3 then 1 else 0) \<and>
     tid (thread s) = (if at_stage s \<le> 1 then 0 else child) \<and>
     loop_ptr s = (if 9 \<le> at_stage s \<and> at_stage s \<le> 15 then Ptr the_loop else Null) \<and>
     (\<forall>x. thread_at s \<in> {EnterLoop x, ClearQuit x, TestQuit x, Polling x, LeaveLoop x} \<longrightarrow> x = the_loop)"

definition stack_ok :: "loop_thread \<Rightarrow> bool" where
  "stack_ok s \<longleftrightarrow>
     (case stack s the_loop of
        None \<Rightarrow> at_stage s \<le> 5 \<or> 17 \<le> at_stage s
      | Some l \<Rightarrow> 6 \<le> at_stage s \<and> at_stage s \<le> 16 \<and> (looping l \<longleftrightarrow> 12 \<le> at_stage s \<and> at_stage s \<le> 14))"

text \<open>
  A mutex with its condition, as the two threads use it: the caller is inside or waiting, the new
  thread is inside; \<open>pending\<close> says whether what the caller waits for is still to come.
\<close>

definition monitor_ok :: "'a monitor_scheme \<Rightarrow> bool \<Rightarrow> bool \<Rightarrow> bool \<Rightarrow> bool \<Rightarrow> bool" where
  "monitor_ok m inside waiting other pending \<longleftrightarrow>
     (owner m = Some caller \<longleftrightarrow> inside) \<and> (owner m = Some child \<longleftrightarrow> other) \<and>
     owner m \<in> {None, Some caller, Some child} \<and>
     sleepers m \<subseteq> {caller} \<and> (caller \<in> sleepers m \<longrightarrow> waiting \<and> pending) \<and>
     (holder m = 0 \<or> holder m = caller \<and> (inside \<or> waiting) \<or> holder m = child \<and> other)"

lemma monitor_ok_steps:
  "monitor_ok m False w other p \<Longrightarrow> owner m = None \<Longrightarrow>
     monitor_ok (m\<lparr> owner := Some caller, holder := caller \<rparr>) True w other p"
  "monitor_ok m inside w False p \<Longrightarrow> owner m = None \<Longrightarrow>
     monitor_ok (m\<lparr> owner := Some child, holder := child \<rparr>) inside w True p"
  "monitor_ok m False True other p \<Longrightarrow> owner m = None \<Longrightarrow> caller \<notin> sleepers m \<Longrightarrow>
     monitor_ok (m\<lparr> owner := Some caller \<rparr>) True False other p"
  "monitor_ok m True False other p \<Longrightarrow> p \<Longrightarrow>
     monitor_ok (m\<lparr> owner := None, sleepers := insert caller (sleepers m) \<rparr>) False True other p"
  "monitor_ok m True False other p \<Longrightarrow> monitor_ok (m\<lparr> holder := 0, owner := None \<rparr>) False False other p"
  "monitor_ok m inside w True p \<Longrightarrow> monitor_ok (m\<lparr> holder := 0, owner := None \<rparr>) inside w False p"
  "monitor_ok m inside w True True \<Longrightarrow> monitor_ok (m\<lparr> sleepers := {} \<rparr>) inside w True False"
  "monitor_ok m inside w other p \<Longrightarrow>
     monitor_ok (m\<lparr> sleepers := sleepers m - {caller} \<rparr>) inside w other p"
  by (auto simp: monitor_ok_def caller_def child_def)

lemma monitor_ok_count [simp]: "monitor_ok (l\<lparr> count := c \<rparr>) = monitor_ok (l :: latch)"
  by (simp add: monitor_ok_def fun_eq_iff)

lemma monitor_notify:
  "monitor_ok m inside waiting other pending \<Longrightarrow> wakeable m w \<Longrightarrow> sleepers m - set_option w = {}"
  by (auto simp: monitor_ok_def wakeable_def split: option.splits)

definition latch_ok :: "loop_thread \<Rightarrow> bool" where
  "latch_ok s \<longleftrightarrow> monitor_ok (start_latch s) (main_at s = LatchTest \<or> main_at s = LatchUnlock) (main_at s = LatchWait)
     (thread_at s = CountDown \<or> thread_at s = CountUnlock) (at_stage s \<le> 3)"

definition lock_ok :: "loop_thread \<Rightarrow> bool" where
  "lock_ok s \<longleftrightarrow> monitor_ok (loop_lock s) (main_at s = LoopTest \<or> main_at s = LoopUnlock) (main_at s = LoopWait)
     (thread_at s = SetLoop \<or> thread_at s = SetUnlock) (at_stage s \<le> 8)"

text \<open>
  What the place of the caller says of the other thread. \<open>Destructing\<close> and \<open>Destroyed\<close> are also
  reached when \<open>startLoop\<close> was never called.
\<close>

definition quit_of :: "loop_thread \<Rightarrow> bool" where
  "quit_of s = (case stack s the_loop of None \<Rightarrow> False | Some l \<Rightarrow> quit l)"

definition waiting_to_quit :: "loop_thread \<Rightarrow> bool" where
  "waiting_to_quit s \<longleftrightarrow> at_stage s \<le> 13 \<and> \<not> quit_of s"

fun main_ok :: "main_pc \<Rightarrow> loop_thread \<Rightarrow> bool" where
  "main_ok AtStart s = (at_stage s = 0 \<and> \<not> started (thread s))"
| "main_ok LatchLock s = (1 \<le> at_stage s \<and> waiting_to_quit s)"
| "main_ok LatchTest s = (1 \<le> at_stage s \<and> waiting_to_quit s)"
| "main_ok LatchWait s = (1 \<le> at_stage s \<and> waiting_to_quit s)"
| "main_ok LatchUnlock s = (4 \<le> at_stage s \<and> waiting_to_quit s)"
| "main_ok AssertTid s = (4 \<le> at_stage s \<and> waiting_to_quit s)"
| "main_ok LoopLock s = ((if can_create s then 4 \<le> at_stage s else at_stage s = 0) \<and> waiting_to_quit s)"
| "main_ok LoopTest s = ((if can_create s then 4 \<le> at_stage s else at_stage s = 0) \<and> waiting_to_quit s)"
| "main_ok LoopWait s = ((if can_create s then 4 \<le> at_stage s else at_stage s = 0) \<and> waiting_to_quit s)"
| "main_ok LoopUnlock s = (9 \<le> at_stage s \<and> waiting_to_quit s)"
| "main_ok AtReturn s = (9 \<le> at_stage s \<and> waiting_to_quit s)"
| "main_ok (Returned p) s = (9 \<le> at_stage s \<and> waiting_to_quit s \<and> p = Ptr the_loop)"
| "main_ok AtCheck s = ((9 \<le> at_stage s \<or> at_stage s = 0 \<and> \<not> started (thread s)) \<and> waiting_to_quit s)"
| "main_ok AtQuit s = (9 \<le> at_stage s \<and> waiting_to_quit s)"
| "main_ok (InQuit x) s = (9 \<le> at_stage s \<and> waiting_to_quit s \<and> x = the_loop)"
| "main_ok (AtWakeup x) s = (9 \<le> at_stage s \<and> x = the_loop)"
| "main_ok AtJoin s = (9 \<le> at_stage s)"
| "main_ok Joining s = (9 \<le> at_stage s)"
| "main_ok Destructing s = (at_stage s = 17 \<or> at_stage s = 0)"
| "main_ok Destroyed s = (at_stage s = 17 \<or> at_stage s = 0)"
| "main_ok (Failed e) s = (at_stage s = 17 \<and> e = Dangling)"

definition flags_ok :: "loop_thread \<Rightarrow> bool" where
  "flags_ok s \<longleftrightarrow> (started (thread s) \<longleftrightarrow> 1 \<le> at_stage s) \<and>
     (joined (thread s) \<longrightarrow> main_at s \<in> {Joining, Destructing, Destroyed}) \<and>
     (main_at s \<in> {Joining, Destructing, Destroyed} \<longrightarrow> started (thread s) \<longrightarrow> joined (thread s)) \<and> (1 \<le> at_stage s \<longrightarrow> can_create s)"

definition pair_inv :: "loop_thread \<Rightarrow> bool" where
  "pair_inv s \<longleftrightarrow> thread_ok s \<and> stack_ok s \<and> latch_ok s \<and> lock_ok s \<and> main_ok (main_at s) s \<and> flags_ok s"

lemmas pair_defs = thread_ok_def stack_ok_def latch_ok_def lock_ok_def flags_ok_def waiting_to_quit_def
  quit_of_def caller_def child_def the_loop_def

lemma go_simps [simp]:
  "main_at (go p s) = p" "thread_at (go p s) = thread_at s" "thread (go p s) = thread s"
  "start_latch (go p s) = start_latch s" "loop_lock (go p s) = loop_lock s" "loop_ptr (go p s) = loop_ptr s"
  "stack (go p s) = stack s" "can_create (go p s) = can_create s" "spurious (go p s) = spurious s"
  "exiting (go p s) = exiting s"
  by (simp_all add: go_def)

lemma go_thread_simps [simp]:
  "main_at (go_thread q s) = main_at s" "thread_at (go_thread q s) = q" "thread (go_thread q s) = thread s"
  "start_latch (go_thread q s) = start_latch s" "loop_lock (go_thread q s) = loop_lock s"
  "loop_ptr (go_thread q s) = loop_ptr s" "stack (go_thread q s) = stack s"
  "can_create (go_thread q s) = can_create s" "spurious (go_thread q s) = spurious s"
  "exiting (go_thread q s) = exiting s"
  by (simp_all add: go_thread_def)

lemmas sync_eqs = lock_eq cond_resume_eq unlock_eq cond_wait_def notify_def wakeable_def must_wait_def

lemma stage_eq [simp]:
  "stage p = 0 \<longleftrightarrow> p = NotCreated" "stage p = 17 \<longleftrightarrow> p = Exited"
  by (cases p; simp)+

lemmas step_splits = option.splits ptr.splits sum.splits

lemma main_step_thread:
  assumes "main_step s t" "thread_ok s" "main_ok (main_at s) s"
  shows "thread_ok t"
  using assms
  by cases (simp_all add: thread_ok_def on_loop_obj_def fail_def sync_eqs split: step_splits)

lemma main_step_stack:
  assumes "main_step s t" "stack_ok s" "main_ok (main_at s) s"
  shows "stack_ok t"
  using assms
  by cases (simp_all add: stack_ok_def on_loop_obj_def fail_def the_loop_def sync_eqs split: step_splits)

lemma must_wait_early: "thread_ok s \<Longrightarrow> 0 < count (start_latch s) \<Longrightarrow> at_stage s \<le> 3"
  by (simp add: thread_ok_def split: if_splits)

lemma no_loop_early:
  "thread_ok s \<Longrightarrow> main_ok LoopTest s \<Longrightarrow> loop_ptr s = Null \<Longrightarrow> at_stage s \<le> 8"
  by (auto simp: thread_ok_def waiting_to_quit_def split: if_splits)

lemma main_step_latch:
  assumes "main_step s t" "latch_ok s" "main_ok (main_at s) s" "thread_ok s"
  shows "latch_ok t"
  using assms
  by cases (simp_all add: latch_ok_def on_loop_obj_def fail_def sync_eqs monitor_ok_steps must_wait_early
      split: step_splits)

lemma main_step_lock:
  assumes "main_step s t" "lock_ok s" "main_ok (main_at s) s" "thread_ok s"
  shows "lock_ok t"
  using assms
  by cases (simp_all add: lock_ok_def on_loop_obj_def fail_def sync_eqs monitor_ok_steps
      no_loop_early [simplified] split: step_splits)

lemma idle_monitor: "monitor_ok m False False False p \<Longrightarrow> MutexLock_dtor m = Inr ()"
  by (simp add: monitor_ok_def MutexLock_dtor_def)

lemma destruct_ok:
  assumes "main_at s = Destructing" "main_ok Destructing s" "latch_ok s" "lock_ok s"
  shows "bindE (MutexLock_dtor (loop_lock s)) (\<lambda>_. MutexLock_dtor (start_latch s)) = Inr ()"
proof -
  have "\<exists>p. monitor_ok (loop_lock s) False False False p" "\<exists>p. monitor_ok (start_latch s) False False False p"
    using assms by (auto simp: latch_ok_def lock_ok_def)
  then show ?thesis by (auto simp: idle_monitor)
qed

lemma null_early:
  "thread_ok s \<Longrightarrow> waiting_to_quit s \<Longrightarrow> loop_ptr s = Null \<Longrightarrow> at_stage s \<le> 8"
  by (auto simp: thread_ok_def waiting_to_quit_def split: if_splits)

lemma main_step_flags:
  assumes "main_step s t" "flags_ok s" "main_ok (main_at s) s" "thread_ok s" "latch_ok s" "lock_ok s"
  shows "flags_ok t"
proof (cases "main_at s = Destructing")
  case True
  then have "bindE (MutexLock_dtor (loop_lock s)) (\<lambda>_. MutexLock_dtor (start_latch s)) = Inr ()"
    using destruct_ok assms by simp
  then show ?thesis using assms(1,2) True by (simp add: main_step_simps flags_ok_def)
next
  case False
  show ?thesis
    using assms(1-3) False null_early [OF assms(4)]
    by cases (simp_all add: flags_ok_def on_loop_obj_def fail_def split: step_splits)
qed

lemma main_step_main:
  assumes "main_step s t" "main_ok (main_at s) s" "thread_ok s" "stack_ok s" "flags_ok s" "latch_ok s" "lock_ok s"
  shows "main_ok (main_at t) t"
proof (cases "main_at s = Destructing")
  case True
  then have "bindE (MutexLock_dtor (loop_lock s)) (\<lambda>_. MutexLock_dtor (start_latch s)) = Inr ()"
    using destruct_ok assms by simp
  then show ?thesis using assms(1,2) True by (simp add: main_step_simps)
next
  case False
  have "child > 0" by (simp add: child_def)
  show ?thesis
    using assms(1-5) False \<open>child > 0\<close>
    by cases (simp_all add: thread_ok_def stack_ok_def flags_ok_def waiting_to_quit_def quit_of_def
        on_loop_obj_def fail_def sync_eqs split: step_splits, simp_all split: if_splits)
qed

lemma thread_step_thread:
  assumes "thread_step s t" "thread_ok s" "stack_ok s"
  shows "thread_ok t"
  using assms
  by cases (simp_all add: thread_ok_def stack_ok_def fail_thread_def sync_eqs count_down_def notifyAll_def INT_MIN_def
      split: step_splits)

lemma thread_step_stack:
  assumes "thread_step s t" "thread_ok s" "stack_ok s"
  shows "stack_ok t"
  using assms
  by cases (simp_all add: thread_ok_def stack_ok_def fail_thread_def new_loop_def split: step_splits)

lemma count_down_ok:
  "thread_ok s \<Longrightarrow> at_stage s = 3 \<Longrightarrow>
   count_down (start_latch s) = Inr ((start_latch s)\<lparr> count := 0, sleepers := {} \<rparr>)"
  by (simp add: thread_ok_def count_down_def notifyAll_def INT_MIN_def)

lemma thread_step_latch:
  assumes "thread_step s t" "thread_ok s" "latch_ok s"
  shows "latch_ok t"
  using assms
  by cases (simp_all add: latch_ok_def fail_thread_def sync_eqs monitor_ok_steps count_down_ok split: step_splits)

lemma thread_step_lock:
  assumes "thread_step s t" "thread_ok s" "lock_ok s"
  shows "lock_ok t"
  using assms
  by cases (simp_all add: lock_ok_def fail_thread_def notify_def lock_eq unlock_eq monitor_ok_steps monitor_notify count_down_ok
      split: step_splits)

text \<open>A step of the new thread keeps what its stage says and what the caller relies on.\<close>

lemma main_ok_mono:
  assumes "main_ok p s" "at_stage s \<le> at_stage t" "waiting_to_quit s \<longrightarrow> waiting_to_quit t"
    "started (thread t) = started (thread s)" "can_create t = can_create s" "0 < at_stage s" "at_stage s < 17"
  shows "main_ok p t"
  using assms by (cases p) (auto split: if_splits)

lemma thread_step_frame:
  assumes "thread_step s t" "thread_ok s" "stack_ok s"
  shows "main_at t = main_at s \<and> at_stage s < at_stage t \<and> 0 < at_stage s \<and> at_stage s < 17 \<and>
    (waiting_to_quit s \<longrightarrow> waiting_to_quit t) \<and> started (thread t) = started (thread s) \<and>
    joined (thread t) = joined (thread s) \<and> can_create t = can_create s \<and> spurious t = spurious s"
  using assms
  by cases (simp_all add: thread_ok_def stack_ok_def waiting_to_quit_def quit_of_def fail_thread_def count_down_ok
      new_loop_def count_down_def notifyAll_def INT_MIN_def split: step_splits)

lemma thread_step_main:
  "thread_step s t \<Longrightarrow> thread_ok s \<Longrightarrow> stack_ok s \<Longrightarrow> main_ok (main_at s) s \<Longrightarrow> main_ok (main_at t) t"
  using thread_step_frame [of s t] main_ok_mono [of "main_at s" s t] by auto

lemma thread_step_flags:
  "thread_step s t \<Longrightarrow> thread_ok s \<Longrightarrow> stack_ok s \<Longrightarrow> flags_ok s \<Longrightarrow> flags_ok t"
  using thread_step_frame [of s t] by (auto simp: flags_ok_def)

lemma poll_step_frame:
  assumes "poll_step s t" "thread_ok s"
  shows "main_at t = main_at s \<and> at_stage t = 13 \<and> at_stage s = 13 \<and> thread_ok t \<and> stack t = stack s \<and>
    start_latch t = start_latch s \<and> loop_lock t = loop_lock s \<and> thread t = thread s \<and>
    can_create t = can_create s \<and> spurious t = spurious s \<and>
    thread_at s \<notin> {CountDown, CountUnlock, SetLoop, SetUnlock} \<and>
    thread_at t \<notin> {CountDown, CountUnlock, SetLoop, SetUnlock}"
  using assms by cases (simp_all add: thread_ok_def)

lemma poll_step_inv:
  assumes "poll_step s t" "pair_inv s"
  shows "pair_inv t"
proof -
  have inv: "thread_ok s" "stack_ok s" "latch_ok s" "lock_ok s" "main_ok (main_at s) s" "flags_ok s"
    using assms(2) by (simp_all add: pair_inv_def)
  note f = poll_step_frame [OF assms(1) inv(1)]
  have "main_ok (main_at s) t"
    by (rule main_ok_mono [OF inv(5)]) (use f in \<open>simp_all add: waiting_to_quit_def quit_of_def\<close>)
  moreover have "stack_ok t" "latch_ok t" "lock_ok t" "flags_ok t"
    using f inv by (simp_all add: stack_ok_def latch_ok_def lock_ok_def flags_ok_def split: option.splits)
  ultimately show ?thesis using f by (simp add: pair_inv_def)
qed

lemma wake_step_inv:
  assumes "wake_step s t" "pair_inv s"
  shows "pair_inv t"
  using assms
  by cases (simp_all add: pair_inv_def thread_ok_def stack_ok_def latch_ok_def lock_ok_def flags_ok_def
      notify_def monitor_ok_steps waiting_to_quit_def quit_of_def split: option.splits, auto)

lemma main_step_inv: "main_step s t \<Longrightarrow> pair_inv s \<Longrightarrow> pair_inv t"
  by (simp add: pair_inv_def main_step_thread main_step_stack main_step_latch main_step_lock main_step_main
      main_step_flags)

lemma thread_step_inv: "thread_step s t \<Longrightarrow> pair_inv s \<Longrightarrow> pair_inv t"
  by (simp add: pair_inv_def thread_step_thread thread_step_stack thread_step_latch thread_step_lock
      thread_step_main thread_step_flags)

lemma pair_step_inv: "pair_step s t \<Longrightarrow> pair_inv s \<Longrightarrow> pair_inv t"
  unfolding pair_step_def work_step_def
  by (elim disjE) (simp_all add: main_step_inv thread_step_inv wake_step_inv poll_step_inv)

text \<open>A new object, and one that will get its thread.\<close>

definition constructed :: "loop_thread \<Rightarrow> bool" where
  "constructed s \<longleftrightarrow> (\<exists>nm i ok k. s = EventLoopThread nm i ok k)"

definition creatable :: "loop_thread \<Rightarrow> bool" where
  "creatable s \<longleftrightarrow> (\<exists>nm i k. s = EventLoopThread nm i True k)"

lemma new_object_inv: "pair_inv (EventLoopThread nm i ok k)"
  by (simp add: EventLoopThread_def Thread_def setDefaultName_def pair_inv_def thread_ok_def stack_ok_def
      latch_ok_def lock_ok_def monitor_ok_def flags_ok_def CountDownLatch_def Condition_def split: prod.split)

interpretation threads: invariant_system constructed pair_step pair_inv
  by standard (auto simp: constructed_def new_object_inv pair_step_inv)

section \<open>Termination of \<open>startLoop\<close>\<close>

fun to_return :: "main_pc \<Rightarrow> bool \<Rightarrow> nat" where
  "to_return AtStart asleep = 14" | "to_return LatchLock asleep = 13"
| "to_return LatchWait asleep = (if asleep then 10 else 12)" | "to_return LatchTest asleep = 11"
| "to_return LatchUnlock asleep = 9" | "to_return AssertTid asleep = 8" | "to_return LoopLock asleep = 7"
| "to_return LoopWait asleep = (if asleep then 4 else 6)" | "to_return LoopTest asleep = 5"
| "to_return LoopUnlock asleep = 3" | "to_return AtReturn asleep = 2" | "to_return _ asleep = 0"

definition asleep :: "loop_thread \<Rightarrow> bool" where
  "asleep s \<longleftrightarrow> (if main_at s = LatchWait then caller \<in> sleepers (start_latch s) else caller \<in> sleepers (loop_lock s))"

text \<open>How many steps are left: every step of the new thread and every wake-up may cost the caller two more.\<close>

definition start_measure :: "loop_thread \<Rightarrow> nat" where
  "start_measure s = 3 * spurious s + 3 * (17 - at_stage s) + to_return (main_at s) (asleep s)"

definition returned :: "loop_thread \<Rightarrow> bool" where
  "returned s \<longleftrightarrow> to_return (main_at s) False = 0"

definition start_inv :: "loop_thread \<Rightarrow> bool" where
  "start_inv s \<longleftrightarrow> pair_inv s \<and> can_create s"

lemma to_return_le: "to_return p b \<le> to_return p c + 2"
  by (cases p) simp_all

lemma thread_step_lowers:
  assumes "pair_inv s" "thread_step s t"
  shows "start_measure t < start_measure s"
proof -
  have "main_at t = main_at s \<and> at_stage s < at_stage t \<and> at_stage s < 17 \<and> spurious t = spurious s"
    using thread_step_frame [OF assms(2)] assms(1) by (auto simp: pair_inv_def)
  moreover from this have "17 - at_stage t < 17 - at_stage s" by auto
  ultimately show ?thesis
    using to_return_le [of "main_at s" "asleep t" "asleep s"] by (simp add: start_measure_def)
qed

lemma wake_step_lowers: "wake_step s t \<Longrightarrow> start_measure t < start_measure s"
  by (erule wake_step.cases) (simp_all add: start_measure_def)

lemma main_step_lowers:
  assumes "pair_inv s" "can_create s" "\<not> returned s" "main_step s t"
  shows "start_measure t < start_measure s"
proof -
  have "main_ok (main_at s) s" using assms(1) by (simp add: pair_inv_def)
  show ?thesis
    using assms(4,2,3) \<open>main_ok (main_at s) s\<close>
    by cases (simp_all add: start_measure_def returned_def asleep_def sync_eqs fail_def)
qed

text \<open>
  As long as \<open>startLoop\<close> has not returned, one of the threads can go on: the caller, unless it waits
  for a mutex or sleeps, and else the new thread.
\<close>

lemma main_can_move:
  assumes "pair_inv s" "can_create s" "\<not> returned s"
    "main_at s \<in> {LatchLock, LatchWait} \<Longrightarrow> owner (start_latch s) = None"
    "main_at s \<in> {LoopLock, LoopWait} \<Longrightarrow> owner (loop_lock s) = None"
    "main_at s = LatchWait \<Longrightarrow> caller \<notin> sleepers (start_latch s)"
    "main_at s = LoopWait \<Longrightarrow> caller \<notin> sleepers (loop_lock s)"
  shows "\<exists>t. main_step s t"
proof (cases "main_at s")
  case LatchTest
  then show ?thesis using latch_wait [of s] latch_done [of s] by blast
next
  case LoopTest
  then show ?thesis using loop_wait [of s] loop_done [of s] by blast
qed (use assms in \<open>auto simp: main_step_simps lock_eq cond_resume_eq returned_def pair_inv_def\<close>)

lemma thread_can_move:
  assumes "pair_inv s" "0 < at_stage s" "at_stage s < 13"
    "thread_at s = CountLock \<Longrightarrow> owner (start_latch s) = None"
    "thread_at s = SetLock \<Longrightarrow> owner (loop_lock s) = None"
  shows "\<exists>t. thread_step s t"
proof (cases "thread_at s")
  case SetLoop
  have "\<exists>w. wakeable (loop_lock s) w"
    by (cases "sleepers (loop_lock s) = {}") (auto simp: wakeable_def split: option.split)
  then show ?thesis using set_loop [OF SetLoop] by blast
qed (use assms in \<open>auto simp: thread_step_simps lock_eq pair_inv_def thread_ok_def stack_ok_def split: option.splits\<close>)

lemma latch_owner:
  assumes "latch_ok s"
  shows "main_at s \<in> {LatchLock, LatchWait} \<Longrightarrow> owner (start_latch s) = None \<or> thread_at s \<in> {CountDown, CountUnlock}"
    and "main_at s = LatchWait \<Longrightarrow> caller \<in> sleepers (start_latch s) \<Longrightarrow> at_stage s \<le> 3"
    and "main_at s = LatchWait \<Longrightarrow> thread_at s = CountLock \<Longrightarrow> owner (start_latch s) = None"
  using assms by (auto simp: latch_ok_def monitor_ok_def)

lemma lock_owner:
  assumes "lock_ok s"
  shows "main_at s \<in> {LoopLock, LoopWait} \<Longrightarrow> owner (loop_lock s) = None \<or> thread_at s \<in> {SetLoop, SetUnlock}"
    and "main_at s = LoopWait \<Longrightarrow> caller \<in> sleepers (loop_lock s) \<Longrightarrow> at_stage s \<le> 8"
    and "main_at s = LoopWait \<Longrightarrow> thread_at s = SetLock \<Longrightarrow> owner (loop_lock s) = None"
  using assms by (auto simp: lock_ok_def monitor_ok_def)

lemma start_not_stuck:
  assumes "pair_inv s" "can_create s" "\<not> returned s"
  shows "\<exists>t. work_step s t"
proof (cases "\<exists>t. thread_step s t")
  case True
  then show ?thesis by (auto simp: work_step_def)
next
  case False
  have inv: "latch_ok s" "lock_ok s" "main_ok (main_at s) s" using assms(1) by (simp_all add: pair_inv_def)
  have no: "thread_at s \<noteq> CountDown" "thread_at s \<noteq> CountUnlock" "thread_at s \<noteq> SetLoop" "thread_at s \<noteq> SetUnlock"
    using thread_can_move [OF assms(1)] False by fastforce+
  have "owner (start_latch s) = None" if "main_at s \<in> {LatchLock, LatchWait}"
    using latch_owner(1) [OF inv(1) that] no by simp
  moreover have "owner (loop_lock s) = None" if "main_at s \<in> {LoopLock, LoopWait}"
    using lock_owner(1) [OF inv(2) that] no by simp
  moreover have "caller \<notin> sleepers (start_latch s)" if m: "main_at s = LatchWait"
  proof
    assume "caller \<in> sleepers (start_latch s)"
    then have st: "at_stage s \<le> 3" by (rule latch_owner(2) [OF inv(1) m])
    then have "thread_at s \<noteq> SetLock" by auto
    then show False
      using thread_can_move [OF assms(1)] False st inv(3) m latch_owner(3) [OF inv(1) m] by simp
  qed
  moreover have "caller \<notin> sleepers (loop_lock s)" if m: "main_at s = LoopWait"
  proof
    assume "caller \<in> sleepers (loop_lock s)"
    then have st: "at_stage s \<le> 8" by (rule lock_owner(2) [OF inv(2) m])
    have "4 \<le> at_stage s" using inv(3) m assms(2) by simp
    moreover from this have "thread_at s \<noteq> CountLock" by auto
    ultimately show False
      using thread_can_move [OF assms(1)] False st lock_owner(3) [OF inv(2) m] by simp
  qed
  ultimately show ?thesis using main_can_move [OF assms] by (auto simp: work_step_def)
qed

lemma others_keep_main: "thread_step s t \<or> wake_step s t \<or> poll_step s t \<Longrightarrow> main_at t = main_at s"
  by (elim disjE thread_step.cases wake_step.cases poll_step.cases)
    (simp_all add: fail_thread_def split: step_splits)

lemma returned_stays: "returned s \<Longrightarrow> pair_step s t \<Longrightarrow> returned t"
  unfolding pair_step_def work_step_def
proof (elim disjE)
  assume r: "returned s"
  show "main_step s t \<Longrightarrow> returned t"
    by (erule main_step.cases) (use r in \<open>simp_all add: returned_def on_loop_obj_def fail_def split: step_splits\<close>)
  show "thread_step s t \<Longrightarrow> returned t" "wake_step s t \<Longrightarrow> returned t" "poll_step s t \<Longrightarrow> returned t"
    using r others_keep_main [of s t] by (auto simp: returned_def)
qed

lemma create_kept: "pair_step s t \<Longrightarrow> can_create t = can_create s"
  unfolding pair_step_def work_step_def
proof (elim disjE)
  show "main_step s t \<Longrightarrow> can_create t = can_create s"
    by (erule main_step.cases) (simp_all add: on_loop_obj_def fail_def split: step_splits)
  show "thread_step s t \<Longrightarrow> can_create t = can_create s"
    by (erule thread_step.cases) (simp_all add: fail_thread_def split: step_splits)
qed (auto simp: wake_step_simps poll_step_simps)

interpretation starting: terminating_system creatable pair_step start_inv work_step poll_step returned start_measure
proof
  fix s t
  show "creatable s \<Longrightarrow> start_inv s"
    by (auto simp: creatable_def start_inv_def new_object_inv) (simp add: EventLoopThread_def)
  show "start_inv s \<Longrightarrow> pair_step s t \<Longrightarrow> start_inv t"
    by (simp add: start_inv_def pair_step_inv create_kept)
  show "pair_step s t \<longleftrightarrow> work_step s t \<or> poll_step s t" by (simp add: pair_step_def)
  show "start_inv s \<Longrightarrow> returned s \<Longrightarrow> pair_step s t \<Longrightarrow> returned t" by (rule returned_stays)
  show "start_inv s \<Longrightarrow> \<not> returned s \<Longrightarrow> work_step s t \<Longrightarrow> start_measure t < start_measure s"
    by (auto simp: start_inv_def work_step_def intro: main_step_lowers thread_step_lowers wake_step_lowers)
  show "start_inv s \<Longrightarrow> \<not> returned s \<Longrightarrow> \<exists>t. work_step s t"
    by (simp add: start_inv_def start_not_stuck)
  assume "start_inv s" "poll_step s t"
  then have "main_at t = main_at s \<and> at_stage t = at_stage s \<and> spurious t = spurious s \<and>
      start_latch t = start_latch s \<and> loop_lock t = loop_lock s"
    using poll_step_frame by (auto simp: start_inv_def pair_inv_def)
  then show "start_measure t \<le> start_measure s" by (simp add: start_measure_def asleep_def)
qed

section \<open>Termination of the destructor\<close>

text \<open>
  The quit flag is set while the thread is in its loop, past the point where \<open>loop\<close> clears the flag;
  the destructor is at its wake-up call or further.
\<close>

fun to_destroyed :: "main_pc \<Rightarrow> nat" where
  "to_destroyed (AtWakeup x) = 4" | "to_destroyed AtJoin = 3" | "to_destroyed Joining = 2"
| "to_destroyed Destructing = 1" | "to_destroyed _ = 0"

definition ended :: "loop_thread \<Rightarrow> bool" where
  "ended s \<longleftrightarrow> main_at s = Destroyed \<or> main_at s = Failed Dangling"

definition quit_inv :: "loop_thread \<Rightarrow> bool" where
  "quit_inv s \<longleftrightarrow> pair_inv s \<and> 13 \<le> at_stage s \<and> (at_stage s = 13 \<longrightarrow> quit_of s) \<and>
     (to_destroyed (main_at s) > 0 \<or> ended s)"

definition quit_measure :: "loop_thread \<Rightarrow> nat" where
  "quit_measure s = to_destroyed (main_at s) + (17 - at_stage s) + (case thread_at s of Polling x \<Rightarrow> 1 | _ \<Rightarrow> 0)"

lemma quit_main_step:
  assumes "quit_inv s" "main_step s t"
  shows "\<not> ended s \<and> quit_inv t \<and> quit_measure t < quit_measure s"
proof -
  have inv: "pair_inv s" "13 \<le> at_stage s" "main_ok (main_at s) s" "latch_ok s" "lock_ok s" "flags_ok s"
    using assms(1) by (simp_all add: quit_inv_def pair_inv_def)
  have "pair_inv t" using main_step_inv [OF assms(2) inv(1)] .
  show ?thesis
  proof (cases "main_at s = Destructing")
    case True
    then show ?thesis
      using assms inv(2) destruct_ok [OF True] inv \<open>pair_inv t\<close>
      by (simp add: main_step_simps quit_inv_def ended_def quit_measure_def quit_of_def)
  next
    case False
    show ?thesis
      using assms(2,1) False \<open>pair_inv t\<close> inv(3,6)
      by cases (simp_all add: quit_inv_def ended_def quit_measure_def quit_of_def on_loop_obj_def fail_def flags_ok_def
          split: step_splits)
  qed
qed

lemma quit_thread_step:
  assumes "quit_inv s" "thread_step s t"
  shows "quit_inv t \<and> quit_measure t < quit_measure s"
proof -
  have "pair_inv t" using thread_step_inv [OF assms(2)] assms(1) by (simp add: quit_inv_def)
  show ?thesis
    using assms(2,1) \<open>pair_inv t\<close>
    by cases (simp_all add: quit_inv_def ended_def quit_measure_def fail_thread_def split: step_splits)
qed

lemma quit_poll_step:
  assumes "quit_inv s" "poll_step s t"
  shows "quit_inv t \<and> quit_measure t < quit_measure s"
proof -
  have p: "pair_inv t" "thread_ok s"
    using poll_step_inv [OF assms(2)] assms(1) by (simp_all add: quit_inv_def pair_inv_def)
  show ?thesis
    using assms(2,1) p
    by cases (auto simp: quit_inv_def ended_def quit_measure_def quit_of_def thread_ok_def)
qed

lemma quit_wake_step: "quit_inv s \<Longrightarrow> \<not> wake_step s t"
  by (auto simp: wake_step_simps quit_inv_def ended_def)

lemma quit_step:
  "quit_inv s \<Longrightarrow> pair_step s t \<Longrightarrow> quit_inv t \<and> quit_measure t < quit_measure s"
  unfolding pair_step_def work_step_def
  using quit_main_step quit_thread_step quit_poll_step quit_wake_step by blast

lemma quit_not_stuck:
  assumes "quit_inv s" "\<not> ended s"
  shows "\<exists>t. pair_step s t"
proof -
  have inv: "thread_ok s" "stack_ok s" "13 \<le> at_stage s" "at_stage s = 13 \<longrightarrow> quit_of s"
    using assms(1) by (simp_all add: quit_inv_def pair_inv_def)
  have "\<exists>t. thread_step s t \<or> poll_step s t" if "at_stage s < 17"
    using inv that
    by (cases "thread_at s") (auto simp: thread_ok_def stack_ok_def quit_of_def thread_step_simps poll_step_simps
        split: option.splits)
  moreover have "thread_at s = Exited" if "\<not> at_stage s < 17"
    using inv(1) that by (simp add: thread_ok_def flip: stage_eq(2))
  moreover have "\<exists>t. main_step s t" if "thread_at s = Exited"
    using assms that by (cases "main_at s") (auto simp: quit_inv_def main_step_simps ended_def)
  ultimately show ?thesis unfolding pair_step_def work_step_def by blast
qed

interpretation quitting: terminating_system quit_inv pair_step quit_inv pair_step "\<lambda>s t. False" ended quit_measure
proof
  fix s t
  show "quit_inv s \<Longrightarrow> ended s \<Longrightarrow> pair_step s t \<Longrightarrow> ended t"
    unfolding pair_step_def work_step_def
    using quit_main_step [of s t] others_keep_main [of s t] by (auto simp: ended_def)
qed (use quit_step quit_not_stuck in auto)

section \<open>The threads as functions\<close>

text \<open>
  The next step of either thread, if it can make one: the caller goes on to the destructor as soon as
  \<open>startLoop\<close> has returned, and a notification wakes the caller. A schedule says whose turn it is.
\<close>

definition main_next :: "loop_thread \<Rightarrow> loop_thread option" where
  "main_next s = (case main_at s of
     AtStart \<Rightarrow> Some (if started (thread s) then fail Assert_Failed s
       else if can_create s then go LatchLock (go_thread SetTid (s\<lparr> thread := (thread s)\<lparr> started := True \<rparr> \<rparr>))
       else go LoopLock s)
   | LatchLock \<Rightarrow> map_option (\<lambda>l. go LatchTest (s\<lparr> start_latch := l \<rparr>)) (lock caller (start_latch s))
   | LatchTest \<Rightarrow> Some (if must_wait (start_latch s)
       then go LatchWait (s\<lparr> start_latch := cond_wait caller (start_latch s) \<rparr>) else go LatchUnlock s)
   | LatchWait \<Rightarrow> map_option (\<lambda>l. go LatchTest (s\<lparr> start_latch := l \<rparr>)) (cond_resume caller (start_latch s))
   | LatchUnlock \<Rightarrow> Some (go AssertTid (s\<lparr> start_latch := unlock (start_latch s) \<rparr>))
   | AssertTid \<Rightarrow> Some (if tid (thread s) > 0 then go LoopLock s else fail Assert_Failed s)
   | LoopLock \<Rightarrow> map_option (\<lambda>l. go LoopTest (s\<lparr> loop_lock := l \<rparr>)) (lock caller (loop_lock s))
   | LoopTest \<Rightarrow> Some (if loop_ptr s = Null
       then go LoopWait (s\<lparr> loop_lock := cond_wait caller (loop_lock s) \<rparr>) else go LoopUnlock s)
   | LoopWait \<Rightarrow> map_option (\<lambda>l. go LoopTest (s\<lparr> loop_lock := l \<rparr>)) (cond_resume caller (loop_lock s))
   | LoopUnlock \<Rightarrow> Some (go AtReturn (s\<lparr> loop_lock := unlock (loop_lock s) \<rparr>))
   | AtReturn \<Rightarrow> Some (go (Returned (loop_ptr s)) s)
   | Returned p \<Rightarrow> Some (go AtCheck (s\<lparr> exiting := True \<rparr>))
   | AtCheck \<Rightarrow> Some (go (if loop_ptr s = Null then Destructing else AtQuit) s)
   | AtQuit \<Rightarrow> Some (case loop_ptr s of Ptr x \<Rightarrow> go (InQuit x) s | Null \<Rightarrow> fail Null_Deref s | Indet \<Rightarrow> fail Uninit_Read s)
   | InQuit x \<Rightarrow> Some (on_loop_obj s x (\<lambda>l. l\<lparr> quit := True \<rparr>) (go (AtWakeup x)) fail)
   | AtWakeup x \<Rightarrow> Some (on_loop_obj s x (\<lambda>l. l\<lparr> wakeups := wakeups l + 1 \<rparr>) (go AtJoin) fail)
   | AtJoin \<Rightarrow> Some (if started (thread s) \<and> \<not> joined (thread s)
       then go Joining (s\<lparr> thread := (thread s)\<lparr> joined := True \<rparr> \<rparr>) else fail Assert_Failed s)
   | Joining \<Rightarrow> if thread_at s = Exited then Some (go Destructing s) else None
   | Destructing \<Rightarrow> Some (case bindE (MutexLock_dtor (loop_lock s)) (\<lambda>_. MutexLock_dtor (start_latch s)) of
       Inl e \<Rightarrow> fail e s | Inr _ \<Rightarrow> go Destroyed s)
   | Destroyed \<Rightarrow> None | Failed e \<Rightarrow> None)"

definition thread_next :: "loop_thread \<Rightarrow> loop_thread option" where
  "thread_next s = (case thread_at s of
     NotCreated \<Rightarrow> None
   | SetTid \<Rightarrow> Some (go_thread CountLock (s\<lparr> thread := (thread s)\<lparr> tid := child \<rparr> \<rparr>))
   | CountLock \<Rightarrow> map_option (\<lambda>l. go_thread CountDown (s\<lparr> start_latch := l \<rparr>)) (lock child (start_latch s))
   | CountDown \<Rightarrow> Some (case count_down (start_latch s) of Inl e \<Rightarrow> fail_thread e s
       | Inr l \<Rightarrow> go_thread CountUnlock (s\<lparr> start_latch := l \<rparr>))
   | CountUnlock \<Rightarrow> Some (go_thread Construct (s\<lparr> start_latch := unlock (start_latch s) \<rparr>))
   | Construct \<Rightarrow> Some (go_thread InitCB (s\<lparr> stack := (stack s)(the_loop \<mapsto> new_loop) \<rparr>))
   | InitCB \<Rightarrow> Some (go_thread SetLock s)
   | SetLock \<Rightarrow> map_option (\<lambda>l. go_thread SetLoop (s\<lparr> loop_lock := l \<rparr>)) (lock child (loop_lock s))
   | SetLoop \<Rightarrow> (let w = (if caller \<in> sleepers (loop_lock s) then Some caller else None)
       in if wakeable (loop_lock s) w
          then Some (go_thread SetUnlock (s\<lparr> loop_ptr := Ptr the_loop, loop_lock := notify w (loop_lock s) \<rparr>))
          else None)
   | SetUnlock \<Rightarrow> Some (go_thread CallLoop (s\<lparr> loop_lock := unlock (loop_lock s) \<rparr>))
   | CallLoop \<Rightarrow> Some (case loop_ptr s of Ptr x \<Rightarrow> go_thread (EnterLoop x) s
       | Null \<Rightarrow> fail_thread Null_Deref s | Indet \<Rightarrow> fail_thread Uninit_Read s)
   | EnterLoop x \<Rightarrow> map_option (\<lambda>l. if looping l then fail_thread Assert_Failed s
       else go_thread (ClearQuit x) (s\<lparr> stack := (stack s)(x \<mapsto> l\<lparr> looping := True \<rparr>) \<rparr>)) (stack s x)
   | ClearQuit x \<Rightarrow> map_option (\<lambda>l. go_thread (TestQuit x) (s\<lparr> stack := (stack s)(x \<mapsto> l\<lparr> quit := False \<rparr>) \<rparr>)) (stack s x)
   | TestQuit x \<Rightarrow> map_option (\<lambda>l. if quit l then go_thread (LeaveLoop x) s else go_thread (Polling x) s) (stack s x)
   | Polling x \<Rightarrow> Some (go_thread (TestQuit x) s)
   | LeaveLoop x \<Rightarrow> map_option (\<lambda>l. go_thread ClearPtr (s\<lparr> stack := (stack s)(x \<mapsto> l\<lparr> looping := False, quit := True \<rparr>) \<rparr>))
       (stack s x)
   | ClearPtr \<Rightarrow> Some (go_thread DestroyLoop (s\<lparr> loop_ptr := Null \<rparr>))
   | DestroyLoop \<Rightarrow> Some (go_thread Exited (s\<lparr> stack := (stack s)(the_loop := None) \<rparr>))
   | Exited \<Rightarrow> None | ThreadFailed e \<Rightarrow> None)"

lemma main_next_step: "main_next s = Some t \<Longrightarrow> main_step s t"
  by (cases "main_at s") (auto simp: main_next_def main_step_simps split: if_splits)

lemma thread_next_step: "thread_next s = Some t \<Longrightarrow> thread_step s t \<or> poll_step s t"
  by (cases "thread_at s") (auto simp: thread_next_def thread_step_simps poll_step_simps Let_def split: if_splits)

fun schedule :: "bool list \<Rightarrow> loop_thread \<Rightarrow> loop_thread option" where
  "schedule [] s = Some s"
| "schedule (m # ms) s = Option.bind (if m then main_next s else thread_next s) (schedule ms)"

lemma schedule_reachable:
  "schedule ms s = Some t \<Longrightarrow> reachable init pair_step s \<Longrightarrow> reachable init pair_step t"
proof (induction ms arbitrary: s)
  case (Cons m ms)
  then obtain u where u: "(if m then main_next s else thread_next s) = Some u" "schedule ms u = Some t"
    by (auto simp: bind_eq_Some_conv)
  have "pair_step s u"
    using u(1) main_next_step [of s u] thread_next_step [of s u]
    by (auto simp: pair_step_def work_step_def split: if_splits)
  then show ?case using Cons.IH [OF u(2)] Cons.prems(2) by (blast intro: further)
qed simp

definition demo_thread :: loop_thread where
  "demo_thread = EventLoopThread ''io'' 0 True 1"

text \<open>The new thread has set the pointer; the caller has it.\<close>

definition up_to_set :: "bool list" where
  "up_to_set = [True] @ replicate 4 False @ replicate 4 True @ replicate 5 False"

definition view :: "loop_thread \<Rightarrow> main_pc \<times> thread_pc \<times> bool" where
  "view s = (main_at s, thread_at s, quit_of s)"

lemma demo_early_quit:
  "map_option view (schedule (up_to_set @ replicate 10 True @ replicate 3 False) demo_thread) =
     Some (Joining, TestQuit the_loop, False)"
  by code_simp

lemma demo_dangling:
  "map_option view (schedule (up_to_set @ replicate 3 False @ replicate 8 True @ replicate 4 False @ [True]) demo_thread) =
     Some (Failed Dangling, Exited, False)"
  by code_simp

lemma demo_late_quit:
  "map_option view (schedule (up_to_set @ replicate 3 False @ replicate 8 True) demo_thread) =
     Some (AtWakeup the_loop, TestQuit the_loop, True)"
  by code_simp

lemma demo_returned:
  "map_option view (schedule (up_to_set @ replicate 4 True) demo_thread) =
     Some (Returned (Ptr the_loop), CallLoop, False)"
  by code_simp

lemma demo_reachable: "reachable constructed pair_step demo_thread"
  by (rule start) (auto simp: constructed_def demo_thread_def)

lemma view_reachable:
  assumes "map_option view (schedule ms demo_thread) = Some (p, q, b)"
  shows "\<exists>s. reachable constructed pair_step s \<and> main_at s = p \<and> thread_at s = q \<and> quit_of s = b"
  using assms schedule_reachable [OF _ demo_reachable] by (auto simp: view_def)

section \<open>Properties\<close>

text \<open>
  C17: under every interleaving the states of the two threads are well-formed: \<open>loop_\<close> is null or points
  to a live event loop, the two threads are never both inside one of the mutexes, no assertion of
  \<open>Thread\<close> or \<open>EventLoop::loop\<close> fails, and what \<open>startLoop\<close> returns is the live loop of the new
  thread, whose id is set. The destructor never leaves a thread that was not joined. The only thing that can go wrong is in \<open>quit\<close>: the thread may have ended
  its loop, which lives on its stack, before the destructor makes the wake-up call.
\<close>

theorem loop_thread_states:
  assumes "reachable constructed pair_step s"
  shows "(loop_ptr s = Null \<or> (\<exists>x l. loop_ptr s = Ptr x \<and> stack s x = Some l)) \<and>
    \<not> (main_at s \<in> {LatchTest, LatchUnlock} \<and> thread_at s \<in> {CountDown, CountUnlock}) \<and>
    \<not> (main_at s \<in> {LoopTest, LoopUnlock} \<and> thread_at s \<in> {SetLoop, SetUnlock}) \<and>
    (\<forall>e. thread_at s \<noteq> ThreadFailed e) \<and>
    (\<forall>p. main_at s = Returned p \<longrightarrow>
       (\<exists>x l. p = Ptr x \<and> stack s x = Some l \<and> \<not> quit l) \<and> 0 < tid (thread s) \<and> started (thread s)) \<and>
    (main_at s = Destroyed \<longrightarrow> \<not> Thread_dtor (thread s)) \<and>
    (\<forall>e. main_at s = Failed e \<longrightarrow> e = Dangling \<and> thread_at s = Exited)"
proof -
  have inv: "thread_ok s" "stack_ok s" "latch_ok s" "lock_ok s" "main_ok (main_at s) s" "flags_ok s"
    using threads.reachable_inv [OF assms] by (simp_all add: pair_inv_def)
  have "loop_ptr s = Null \<or> (\<exists>x l. loop_ptr s = Ptr x \<and> stack s x = Some l)"
    using inv(1,2) by (auto simp: thread_ok_def stack_ok_def split: option.splits if_splits)
  moreover have "\<not> (main_at s \<in> {LatchTest, LatchUnlock} \<and> thread_at s \<in> {CountDown, CountUnlock})"
    using inv(3) by (auto simp: latch_ok_def monitor_ok_def caller_def child_def)
  moreover have "\<not> (main_at s \<in> {LoopTest, LoopUnlock} \<and> thread_at s \<in> {SetLoop, SetUnlock})"
    using inv(4) by (auto simp: lock_ok_def monitor_ok_def caller_def child_def)
  moreover have "thread_at s \<noteq> ThreadFailed e" for e
    using inv(1) by (auto simp: thread_ok_def)
  moreover have "(\<exists>x l. p = Ptr x \<and> stack s x = Some l \<and> \<not> quit l) \<and> 0 < tid (thread s) \<and> started (thread s)"
    if "main_at s = Returned p" for p
    using inv(1,2,5,6) that
    by (auto simp: thread_ok_def stack_ok_def flags_ok_def waiting_to_quit_def quit_of_def child_def split: option.splits)
  moreover have "\<not> Thread_dtor (thread s)" if "main_at s = Destroyed"
    using inv(6) that by (simp add: flags_ok_def Thread_dtor_def)
  moreover have "e = Dangling \<and> thread_at s = Exited" if "main_at s = Failed e" for e
    using inv(5) that by simp
  ultimately show ?thesis by blast
qed

theorem loop_thread_states_witness:
  "\<exists>s l. reachable constructed pair_step s \<and> main_at s = Returned (Ptr the_loop) \<and>
    stack s the_loop = Some l \<and> \<not> quit l \<and> 0 < tid (thread s)"
proof -
  obtain s where s: "reachable constructed pair_step s" "main_at s = Returned (Ptr the_loop)"
    using view_reachable [OF demo_returned] by blast
  then show ?thesis using loop_thread_states [OF s(1)] by fastforce
qed

text \<open>
  C16: \<open>startLoop\<close> terminates. If the thread can be created, then after at most \<open>3 k + 65\<close> steps of the
  two threads, in whatever order, and however often the new loop polls in between, the caller has left
  it, where \<open>k\<close> bounds the spurious wake-ups; and until then one of the threads can always make a step.
  If \<open>pthread_create\<close> fails it never returns: it waits for a thread that does not exist.
\<close>

theorem startLoop_terminates:
  "(run work_step poll_step (EventLoopThread nm i True k) n t \<longrightarrow>
      returned t \<or> (n < 3 * k + 65 \<and> (\<exists>u. work_step t u))) \<and>
   (reachable (\<lambda>s. s = EventLoopThread nm i False k) pair_step t \<longrightarrow> (\<forall>p. main_at t \<noteq> Returned p))"
proof (intro conjI impI allI notI)
  let ?s = "EventLoopThread nm i True k"
  assume "run work_step poll_step ?s n t"
  moreover have "creatable ?s" by (auto simp: creatable_def)
  moreover have "start_measure ?s = 3 * k + 65" by (simp add: start_measure_def EventLoopThread_def)
  ultimately show "returned t \<or> (n < 3 * k + 65 \<and> (\<exists>u. work_step t u))"
    using starting.run_ends [of ?s n t] by simp
next
  fix p
  assume r: "reachable (\<lambda>s. s = EventLoopThread nm i False k) pair_step t" "main_at t = Returned p"
  have "\<not> can_create t"
    using r(1) by induction (simp_all add: EventLoopThread_def create_kept)
  moreover have "pair_inv t"
    using r(1) by induction (simp_all add: new_object_inv pair_step_inv)
  ultimately show False using r(2) by (auto simp: pair_inv_def flags_ok_def)
qed

theorem startLoop_terminates_witness:
  "(\<exists>u. work_step demo_thread u) \<and> main_at (EventLoopThread ''io'' 0 False 1) \<noteq> Returned Null"
proof
  have "run work_step poll_step (EventLoopThread ''io'' 0 True 1) 0 demo_thread"
    unfolding demo_thread_def by (rule run.here)
  moreover have "\<not> returned demo_thread" by (simp add: returned_def demo_thread_def EventLoopThread_def)
  ultimately show "\<exists>u. work_step demo_thread u"
    using startLoop_terminates [THEN conjunct1, rule_format] by blast
  have "reachable (\<lambda>s. s = EventLoopThread ''io'' 0 False 1) pair_step (EventLoopThread ''io'' 0 False 1)"
    by (rule start) (rule refl)
  then show "main_at (EventLoopThread ''io'' 0 False 1) \<noteq> Returned Null"
    by (rule startLoop_terminates [THEN conjunct2, rule_format])
qed

text \<open>
  C31: the destructor. If it sets the quit flag while the thread is in its loop, every run ends within
  ten steps and the object is destructed, unless the loop has ended before the wake-up call, which then
  goes to an object that does not exist any more. And if it sets the flag before the thread has entered
  \<open>loop\<close>, which clears it, the thread never ends and the destructor waits for it forever; both can
  happen.
\<close>

theorem destructor_outcomes:
  assumes "reachable constructed pair_step s" "main_at s = AtWakeup x" "thread_at s \<in> {TestQuit y, Polling y}"
    "quit_of s" "run pair_step (\<lambda>s t. False) s n t"
  shows "(ended t \<or> (n < 10 \<and> (\<exists>u. pair_step t u))) \<and>
    (\<exists>f. reachable constructed pair_step f \<and> main_at f = Failed Dangling) \<and>
    (\<exists>h. reachable constructed pair_step h \<and> main_at h = Joining \<and>
      (\<forall>u. reachable (\<lambda>s. s = h) pair_step u \<longrightarrow> main_at u = Joining))"
proof (intro conjI)
  have "quit_inv s"
    using threads.reachable_inv [OF assms(1)] assms(2-4) by (auto simp: quit_inv_def)
  moreover have "quit_measure s \<le> 9" using assms(2,3) by (auto simp: quit_measure_def)
  ultimately show "ended t \<or> (n < 10 \<and> (\<exists>u. pair_step t u))"
    using quitting.run_ends [OF _ assms(5)] by fastforce
  show "\<exists>f. reachable constructed pair_step f \<and> main_at f = Failed Dangling"
    using view_reachable [OF demo_dangling] by blast
  obtain h where h: "reachable constructed pair_step h" "main_at h = Joining" "thread_at h = TestQuit the_loop" "\<not> quit_of h"
    using view_reachable [OF demo_early_quit] by blast
  have "main_at u = Joining \<and> thread_at u \<in> {TestQuit the_loop, Polling the_loop} \<and> \<not> quit_of u"
    if "reachable (\<lambda>s. s = h) pair_step u" for u
    using that
  proof induction
    case (further u v)
    then show ?case
      by (auto simp: pair_step_def work_step_def main_step_simps thread_step_simps wake_step_simps poll_step_simps quit_of_def)
  qed (use h in auto)
  then show "\<exists>h. reachable constructed pair_step h \<and> main_at h = Joining \<and>
      (\<forall>u. reachable (\<lambda>s. s = h) pair_step u \<longrightarrow> main_at u = Joining)"
    using h by blast
qed

theorem destructor_outcomes_witness:
  "\<exists>s. reachable constructed pair_step s \<and> main_at s = AtWakeup the_loop \<and>
    (\<forall>n t. run pair_step (\<lambda>s t. False) s n t \<longrightarrow> ended t \<or> (n < 10 \<and> (\<exists>u. pair_step t u)))"
proof -
  obtain s where s: "reachable constructed pair_step s" "main_at s = AtWakeup the_loop"
      "thread_at s = TestQuit the_loop" "quit_of s"
    using view_reachable [OF demo_late_quit] by blast
  then show ?thesis
    using destructor_outcomes [OF s(1,2), of the_loop] by blast
qed

end
