(* ===== verification/Channel.thy ===== *)
theory Channel
  imports SysCalls
begin

text \<open>
  src/Channel.h and src/Channel.cc: a file descriptor with the events it waits for, its status in
  the poller and its callbacks. The event masks are 32-bit words. A callback is a value of the
  type \<open>'f\<close> of functors; what running one does is a parameter of the operations that run it.
  \<open>enableRead\<close> and the other operations that call \<open>update\<close> are in the theory \<open>EventLoop\<close>, behind the
  poller they call; here is the assignment to \<open>events_\<close> each of them makes.
\<close>

unbundle bit_operations_syntax

section \<open>Event masks\<close>

definition CNoneEvent :: "32 word" where "CNoneEvent = 0"
definition CReadEvent :: "32 word" where
  "CReadEvent = EPOLLIN OR EPOLLPRI OR EPOLLHUP OR EPOLLET"
definition CWriteEvent :: "32 word" where "CWriteEvent = EPOLLOUT"

lemmas channel_masks = CNoneEvent_def CReadEvent_def CWriteEvent_def

text \<open>The values of \<open>status_\<close>, which EpollPoller.h names.\<close>

definition CNew :: int where "CNew = - 1"
definition CAdded :: int where "CAdded = 1"
definition CDeleted :: int where "CDeleted = 2"

lemma status_distinct [simp]:
  "CNew \<noteq> CAdded" "CNew \<noteq> CDeleted" "CAdded \<noteq> CDeleted"
  "CAdded \<noteq> CNew" "CDeleted \<noteq> CNew" "CDeleted \<noteq> CAdded"
  by (simp_all add: CNew_def CAdded_def CDeleted_def)

section \<open>Channels\<close>

text \<open>\<open>owner\<close> is the object a channel is tied to; it may be gone while the channel is there.\<close>

record 'f channel =
  fd :: int
  status :: int
  events :: "32 word"
  rcvEvents :: "32 word"
  owner :: nat
  tied :: bool
  logHup :: bool
  addToLoop :: bool
  ch_handling :: bool
  readCB :: "'f option"
  writeCB :: "'f option"
  errorCB :: "'f option"
  closeCB :: "'f option"

definition Channel :: "int \<Rightarrow> 'f channel" where
  "Channel n = \<lparr> fd = n, status = - 1, events = 0, rcvEvents = 0, owner = 0, tied = False,
     logHup = True, addToLoop = False, ch_handling = False, readCB = None, writeCB = None,
     errorCB = None, closeCB = None \<rparr>"

definition setReadCB :: "'f \<Rightarrow> 'f channel \<Rightarrow> 'f channel" where
  "setReadCB f c = c\<lparr> readCB := Some f \<rparr>"
definition setWriteCB :: "'f \<Rightarrow> 'f channel \<Rightarrow> 'f channel" where
  "setWriteCB f c = c\<lparr> writeCB := Some f \<rparr>"
definition setErrorCB :: "'f \<Rightarrow> 'f channel \<Rightarrow> 'f channel" where
  "setErrorCB f c = c\<lparr> errorCB := Some f \<rparr>"
definition setCloseCB :: "'f \<Rightarrow> 'f channel \<Rightarrow> 'f channel" where
  "setCloseCB f c = c\<lparr> closeCB := Some f \<rparr>"
text \<open>
  \<open>setStatus\<close> and \<open>setEvents\<close> are declared with the result \<open>int\<close> and have no \<open>return\<close>, so by the standard
  every call has undefined behaviour. No caller uses the value; the model gives the assignment, which
  is what the functions are for and what compilers make of them without optimisation.
\<close>

definition setStatus :: "int \<Rightarrow> 'f channel \<Rightarrow> 'f channel" where
  "setStatus s c = c\<lparr> status := s \<rparr>"
definition setEvents :: "32 word \<Rightarrow> 'f channel \<Rightarrow> 'f channel" where
  "setEvents e c = c\<lparr> rcvEvents := e \<rparr>"
definition dontLogHup :: "'f channel \<Rightarrow> 'f channel" where
  "dontLogHup c = c\<lparr> logHup := False \<rparr>"
definition tie :: "nat \<Rightarrow> 'f channel \<Rightarrow> 'f channel" where
  "tie obj c = c\<lparr> owner := obj, tied := True \<rparr>"

lemmas setter_defs = setReadCB_def setWriteCB_def setErrorCB_def setCloseCB_def setStatus_def
  setEvents_def dontLogHup_def tie_def

definition isReading :: "'f channel \<Rightarrow> bool" where
  "isReading c \<longleftrightarrow> events c AND CReadEvent \<noteq> 0"
definition isWriting :: "'f channel \<Rightarrow> bool" where
  "isWriting c \<longleftrightarrow> events c AND CWriteEvent \<noteq> 0"
definition isNonEvent :: "'f channel \<Rightarrow> bool" where
  "isNonEvent c \<longleftrightarrow> events c = CNoneEvent"

text \<open>The assignments of \<open>enableRead\<close>, \<open>disableRead\<close>, \<open>enableWrite\<close>, \<open>disableWrite\<close>, \<open>disableAll\<close>.\<close>

datatype event_change = EnableRead | DisableRead | EnableWrite | DisableWrite | DisableAll

fun change_events :: "event_change \<Rightarrow> 32 word \<Rightarrow> 32 word" where
  "change_events EnableRead e = e OR CReadEvent"
| "change_events DisableRead e = e AND NOT CReadEvent"
| "change_events EnableWrite e = e OR CWriteEvent"
| "change_events DisableWrite e = e AND CWriteEvent"
| "change_events DisableAll e = CNoneEvent"

lemma masks_disjoint [simp]:
  "CReadEvent AND CWriteEvent = 0" "CWriteEvent AND CReadEvent = 0"
  "NOT CReadEvent AND CWriteEvent = CWriteEvent" "NOT CReadEvent AND CReadEvent = 0"
  "CReadEvent \<noteq> 0" "CWriteEvent \<noteq> 0"
  by (simp_all add: channel_masks epoll_masks)

declare change_events.simps [simp del]

lemma change_events_reading [simp]:
  "change_events DisableRead e AND CReadEvent = 0"
  "change_events EnableRead e AND CReadEvent = CReadEvent"
  "change_events EnableWrite e AND CReadEvent = e AND CReadEvent"
  "change_events DisableWrite e AND CReadEvent = 0"
  "change_events DisableAll e AND CReadEvent = 0"
  by (simp_all add: change_events.simps bit.conj_disj_distrib2 and.assoc CNoneEvent_def)

lemma change_events_writing [simp]:
  "change_events EnableWrite e AND CWriteEvent = CWriteEvent"
  "change_events EnableRead e AND CWriteEvent = e AND CWriteEvent"
  "change_events DisableRead e AND CWriteEvent = e AND CWriteEvent"
  "change_events DisableWrite e AND CWriteEvent = e AND CWriteEvent"
  "change_events DisableAll e AND CWriteEvent = 0"
  by (simp_all add: change_events.simps bit.conj_disj_distrib2 and.assoc CNoneEvent_def)

text \<open>
  \<open>enableRead\<close>, \<open>disableRead\<close>, \<open>enableWrite\<close> and \<open>disableAll\<close> switch exactly the
  direction they name and leave the other one as it was; \<open>disableWrite\<close> does the opposite of its
  name: it keeps the write interest as it was and drops the read interest.
\<close>

lemma event_changes:
  "isReading (c\<lparr> events := change_events EnableRead e \<rparr>) \<and>
   isWriting (c\<lparr> events := change_events EnableRead e \<rparr>) = isWriting (c\<lparr> events := e \<rparr>) \<and>
   \<not> isReading (c\<lparr> events := change_events DisableRead e \<rparr>) \<and>
   isWriting (c\<lparr> events := change_events DisableRead e \<rparr>) = isWriting (c\<lparr> events := e \<rparr>) \<and>
   isWriting (c\<lparr> events := change_events EnableWrite e \<rparr>) \<and>
   isReading (c\<lparr> events := change_events EnableWrite e \<rparr>) = isReading (c\<lparr> events := e \<rparr>) \<and>
   isNonEvent (c\<lparr> events := change_events DisableAll e \<rparr>) \<and>
   isWriting (c\<lparr> events := change_events DisableWrite e \<rparr>) = isWriting (c\<lparr> events := e \<rparr>) \<and>
   \<not> isReading (c\<lparr> events := change_events DisableWrite e \<rparr>)"
  by (simp_all add: isReading_def isWriting_def isNonEvent_def change_events.simps(5))

end
