(* ===== verification/StdMap.thy ===== *)
theory StdMap
  imports Main "HOL-Library.List_Lexorder" "HOL-Library.Char_ord"
begin

text \<open>
  \<open>std::map\<close>: an association list in strictly increasing order of its keys, which is the order
  its iterators run in. Keys that are strings compare lexicographically by unsigned characters, as
  \<open>std::less<std::string>\<close> does.
\<close>

type_synonym ('k, 'v) std_map = "('k \<times> 'v) list"

fun put :: "'k :: linorder \<Rightarrow> 'v \<Rightarrow> ('k, 'v) std_map \<Rightarrow> ('k, 'v) std_map" where
  "put k v [] = [(k, v)]"
| "put k v ((k', v') # m) =
     (if k < k' then (k, v) # (k', v') # m
      else if k = k' then (k, v) # m
      else (k', v') # put k v m)"

text \<open>\<open>insert\<close> keeps the value of a key that is there.\<close>

definition put_new :: "'k :: linorder \<Rightarrow> 'v \<Rightarrow> ('k, 'v) std_map \<Rightarrow> ('k, 'v) std_map" where
  "put_new k v m = (if map_of m k = None then put k v m else m)"

fun erase :: "'k :: linorder \<Rightarrow> ('k, 'v) std_map \<Rightarrow> ('k, 'v) std_map" where
  "erase k [] = []"
| "erase k ((k', v') # m) = (if k = k' then m else (k', v') # erase k m)"

definition keys_sorted :: "('k :: linorder, 'v) std_map \<Rightarrow> bool" where
  "keys_sorted m \<longleftrightarrow> sorted_wrt (<) (map fst m)"

lemma keys_sorted_simps [simp]:
  "keys_sorted []"
  "keys_sorted ((k, v) # m) \<longleftrightarrow> (\<forall>k' \<in> fst ` set m. k < k') \<and> keys_sorted m"
  by (auto simp: keys_sorted_def)

lemma fst_set_put: "fst ` set (put k v m) = insert k (fst ` set m)"
  by (induction k v m rule: put.induct) auto

lemma set_put_subset: "set (put k v m) \<subseteq> insert (k, v) (set m)"
  by (induction k v m rule: put.induct) auto

lemma put_sorted: "keys_sorted m \<Longrightarrow> keys_sorted (put k v m)"
  by (induction k v m rule: put.induct) (auto simp: fst_set_put)

lemma map_of_put: "keys_sorted m \<Longrightarrow> map_of (put k v m) = (map_of m)(k \<mapsto> v)"
proof (induction m)
  case (Cons p m)
  obtain k' v' where p: "p = (k', v')" by fastforce
  have "map_of m k = None" if "k < k'"
    using Cons.prems p that by (force simp: map_of_eq_None_iff)
  then show ?case using Cons p by (auto simp: fun_eq_iff)
qed simp

lemma put_new_sorted: "keys_sorted m \<Longrightarrow> keys_sorted (put_new k v m)"
  by (simp add: put_new_def put_sorted)

lemma map_of_put_new:
  "keys_sorted m \<Longrightarrow>
   map_of (put_new k v m) = (if map_of m k = None then (map_of m)(k \<mapsto> v) else map_of m)"
  by (simp add: put_new_def map_of_put)

lemma set_erase: "keys_sorted m \<Longrightarrow> set (erase k m) = {p \<in> set m. fst p \<noteq> k}"
proof (induction k m rule: erase.induct)
  case (2 k k' v' m)
  then show ?case by (cases "k = k'") force+
qed simp

lemma erase_sorted: "keys_sorted m \<Longrightarrow> keys_sorted (erase k m)"
  by (induction k m rule: erase.induct) (auto simp: set_erase)

lemma map_of_erase: "keys_sorted m \<Longrightarrow> map_of (erase k m) = (map_of m)(k := None)"
proof (induction m)
  case (Cons p m)
  then show ?case
    by (cases p) (force simp: fun_eq_iff map_of_eq_None_iff)
qed simp

lemma length_erase: "keys_sorted m \<Longrightarrow> map_of m k \<noteq> None \<Longrightarrow> length m = Suc (length (erase k m))"
  by (induction k m rule: erase.induct) (auto split: if_splits)

text \<open>The order makes the representation canonical: equal contents, equal iteration.\<close>

lemma keys_sorted_distinct: "keys_sorted m \<Longrightarrow> distinct (map fst m)"
  by (simp add: keys_sorted_def strict_sorted_iff)

lemma keys_sorted_canonical:
  assumes "keys_sorted m" "keys_sorted n" "map_of m = map_of n"
  shows "m = n"
proof -
  have "set m = set n"
    using keys_sorted_distinct [OF assms(1)] keys_sorted_distinct [OF assms(2)] assms(3)
    by (simp add: map_of_inject_set)
  then show ?thesis
    using assms(1,2) by (intro map_sorted_distinct_set_unique [of fst])
      (auto simp: keys_sorted_def strict_sorted_iff distinct_map)
qed

end
