(* ===== verification/EpollPoller.thy ===== *)
theory EpollPoller
  imports Channel StdMap
begin

text \<open>
  src/EpollPoller.h and src/EpollPoller.cc: the map from descriptors to channels and the calls that
  keep the kernel's interest list in step with it. A \<open>Channel *\<close> is the address of the channel in
  the store \<open>chans\<close>. \<open>interest\<close> is the interest list of the epoll instance: for a registered
  descriptor its event mask and \<open>data.ptr\<close>. The behaviour of the system calls is the one their
  manual pages document: \<open>epoll_ctl\<close> fails and changes nothing when it adds a registered descriptor
  or modifies or deletes one that is not; what \<open>epoll_wait\<close> reports is an argument of \<open>poll\<close>.
\<close>

section \<open>The poller\<close>

record 'f poller =
  chans :: "'f channel store"
  chmap :: "(int, nat) std_map"
  eventVec_size :: nat
  interest :: "int \<Rightarrow> (32 word \<times> nat) option"

definition CInitEventVecSize :: nat where "CInitEventVecSize = 16"

definition EpollPoller :: "'f channel store \<Rightarrow> 'f poller" where
  "EpollPoller m = \<lparr> chans = m, chmap = [], eventVec_size = CInitEventVecSize, interest = (\<lambda>_. None) \<rparr>"

definition update :: "epoll_op \<Rightarrow> nat \<Rightarrow> 'f poller \<Rightarrow> 'f poller res" where
  "update op a p = bindE (deref (chans p) (Ptr a)) (\<lambda>c.
     Inr (p\<lparr> interest := snd (epoll_ctl op (fd c) (EPOLLET OR events c, a) (interest p)) \<rparr>))"

definition modify_chan :: "nat \<Rightarrow> ('f channel \<Rightarrow> 'f channel) \<Rightarrow> 'f poller \<Rightarrow> 'f poller res" where
  "modify_chan a g p = bindE (modify (chans p) (Ptr a) g) (\<lambda>m. Inr (p\<lparr> chans := m \<rparr>))"

text \<open>\<open>assert(channels_[fd] = channel)\<close> is an assignment, and its value is not null.\<close>

definition updateChannel :: "nat \<Rightarrow> 'f poller \<Rightarrow> 'f poller res" where
  "updateChannel a p = bindE (deref (chans p) (Ptr a)) (\<lambda>c.
     let index = status c; n = fd c in
     if index = CNew \<or> index = CDeleted then
       bindE (if index = CNew then
                bindE (assertE (map_of (chmap p) n = None)) (\<lambda>_. Inr (p\<lparr> chmap := put n a (chmap p) \<rparr>))
              else
                bindE (assertE (map_of (chmap p) n \<noteq> None)) (\<lambda>_.
                bindE (assertE (map_of (chmap p) n = Some a)) (\<lambda>_. Inr p))) (\<lambda>p.
       bindE (modify_chan a (setStatus CAdded) p) (update EPOLL_CTL_ADD a))
     else
       bindE (assertE (map_of (chmap p) n \<noteq> None)) (\<lambda>_.
         let p = p\<lparr> chmap := put n a (chmap p) \<rparr> in
         bindE (assertE (status c = CAdded)) (\<lambda>_.
           if isNonEvent c then
             bindE (update EPOLL_CTL_DEL a p) (modify_chan a (setStatus CDeleted))
           else update EPOLL_CTL_MOD a p)))"

text \<open>\<open>in_loop\<close> is \<open>ownerLoop_->isInLoopThread()\<close>.\<close>

definition removeChannel :: "bool \<Rightarrow> nat \<Rightarrow> 'f poller \<Rightarrow> 'f poller res" where
  "removeChannel in_loop a p = bindE (deref (chans p) (Ptr a)) (\<lambda>c.
     let n = fd c; index = status c in
     bindE (assertE in_loop) (\<lambda>_.
     bindE (assertE (isNonEvent c)) (\<lambda>_.
     bindE (assertE (map_of (chmap p) n \<noteq> None)) (\<lambda>_.
     bindE (assertE (map_of (chmap p) n = Some a)) (\<lambda>_.
     bindE (assertE (index = CAdded \<or> index = CDeleted)) (\<lambda>_.
       let k = length (chmap p); p = p\<lparr> chmap := erase n (chmap p) \<rparr> in
       bindE (assertE (k - length (chmap p) = 1)) (\<lambda>_.
         bindE (if index = CAdded then update EPOLL_CTL_DEL a p else Inr p)
           (modify_chan a (setStatus CNew)))))))))"

definition hasChannel :: "nat \<Rightarrow> 'f poller \<Rightarrow> bool res" where
  "hasChannel a p = bindE (deref (chans p) (Ptr a)) (\<lambda>c. Inr (map_of (chmap p) (fd c) = Some a))"

fun fill_loop :: "(32 word \<times> nat) list \<Rightarrow> nat list \<Rightarrow> 'f poller \<Rightarrow> (nat list \<times> 'f poller) res" where
  "fill_loop [] act p = Inr (act, p)"
| "fill_loop ((e, a) # evs) act p = bindE (deref (chans p) (Ptr a)) (\<lambda>c.
     bindE (assertE (map_of (chmap p) (fd c) \<noteq> None)) (\<lambda>_.
     bindE (assertE (map_of (chmap p) (fd c) = Some a)) (\<lambda>_.
     bindE (modify_chan a (setEvents e) p) (\<lambda>p. fill_loop evs (act @ [a]) p))))"

definition fillActiveChannel ::
    "(32 word \<times> nat) list \<Rightarrow> nat list \<Rightarrow> 'f poller \<Rightarrow> (nat list \<times> 'f poller) res" where
  "fillActiveChannel evs act p =
     bindE (assertE (length evs < eventVec_size p)) (\<lambda>_. fill_loop evs act p)"

text \<open>
  \<open>r\<close> is what \<open>epoll_wait\<close> returns: \<open>None\<close> for an error, otherwise the events it stored.
  \<open>eventVec_.reserve\<close> changes the capacity, not the size.
\<close>

definition reserve_events :: "nat \<Rightarrow> 'f poller \<Rightarrow> 'f poller" where
  "reserve_events n p = p"

definition poll ::
    "(32 word \<times> nat) list option \<Rightarrow> nat list \<Rightarrow> 'f poller \<Rightarrow> (nat list \<times> 'f poller) res" where
  "poll r act p = (case r of
     None \<Rightarrow> Inr (act, p)
   | Some evs \<Rightarrow>
       if evs \<noteq> [] then
         bindE (fillActiveChannel evs act p) (\<lambda>(act, p).
           Inr (act, if length evs = eventVec_size p then reserve_events (eventVec_size p * 2) p else p))
       else Inr (act, p))"

section \<open>The invariant\<close>

text \<open>
  What the kernel should watch: the channels in the map whose status is \<open>CAdded\<close>, with their
  events. \<open>poller_inv x\<close> allows the channel at \<open>x\<close> to have changed its events since the last
  \<open>update\<close>.
\<close>

definition kernel_view :: "'f poller \<Rightarrow> int \<Rightarrow> (32 word \<times> nat) option" where
  "kernel_view p n = (case map_of (chmap p) n of
     None \<Rightarrow> None
   | Some a \<Rightarrow> (case chans p a of
       None \<Rightarrow> None
     | Some c \<Rightarrow> if status c = CAdded then Some (EPOLLET OR events c, a) else None))"

definition poller_inv :: "nat option \<Rightarrow> 'f poller \<Rightarrow> bool" where
  "poller_inv x p \<longleftrightarrow> keys_sorted (chmap p) \<and>
     (\<forall>n a. map_of (chmap p) n = Some a \<longrightarrow> (\<exists>c. chans p a = Some c \<and> fd c = n \<and> status c \<noteq> CNew)) \<and>
     (\<forall>a c. chans p a = Some c \<longrightarrow> status c \<in> {CNew, CAdded, CDeleted} \<and>
        (status c \<noteq> CNew \<longrightarrow> map_of (chmap p) (fd c) = Some a)) \<and>
     (\<forall>n. (interest p n = None \<longleftrightarrow> kernel_view p n = None) \<and>
        (map_of (chmap p) n \<noteq> x \<or> x = None \<longrightarrow> interest p n = kernel_view p n))"

lemma poller_inv_interest: "poller_inv None p \<Longrightarrow> interest p = kernel_view p"
  by (auto simp: poller_inv_def)

lemma mapped_channel:
  "poller_inv x p \<Longrightarrow> map_of (chmap p) n = Some a \<Longrightarrow>
   \<exists>c. chans p a = Some c \<and> fd c = n \<and> status c \<noteq> CNew"
  by (simp add: poller_inv_def)

lemma poller_inv_weaken: "poller_inv None p \<Longrightarrow> poller_inv x p"
  by (auto simp: poller_inv_def)

lemma put_same: "map_of m k = Some v \<Longrightarrow> keys_sorted m \<Longrightarrow> put k v m = m"
  by (rule keys_sorted_canonical) (auto simp: put_sorted map_of_put)

definition next_status :: "'f channel \<Rightarrow> int" where
  "next_status c = (if status c = CAdded \<and> isNonEvent c then CDeleted else CAdded)"

text \<open>The effect of \<open>updateChannel\<close>, and that it puts the kernel back in step.\<close>

definition updated :: "nat \<Rightarrow> 'f channel \<Rightarrow> 'f poller \<Rightarrow> 'f poller" where
  "updated a c p = p\<lparr> chans := (chans p)(a \<mapsto> c\<lparr> status := next_status c \<rparr>),
     chmap := put (fd c) a (chmap p),
     interest := (interest p)(fd c := if next_status c = CAdded then Some (EPOLLET OR events c, a) else None) \<rparr>"

lemma updated_simps [simp]:
  "chans (updated a c p) = (chans p)(a \<mapsto> c\<lparr> status := next_status c \<rparr>)"
  "interest (updated a c p) =
     (interest p)(fd c := if next_status c = CAdded then Some (EPOLLET OR events c, a) else None)"
  "eventVec_size (updated a c p) = eventVec_size p"
  by (simp_all add: updated_def)

lemma chmap_updated: "chmap (updated a c p) = put (fd c) a (chmap p)"
  by (simp add: updated_def)

lemma next_status_not_new [simp]: "next_status c \<noteq> CNew"
  by (simp add: next_status_def)

lemma next_status_cases: "next_status c = CAdded \<or> next_status c = CDeleted"
  by (simp add: next_status_def)

lemma updateChannel_eq:
  assumes "poller_inv (Some a) p" "chans p a = Some c"
    "status c = CNew \<Longrightarrow> map_of (chmap p) (fd c) = None"
  shows "updateChannel a p = Inr (updated a c p)"
proof -
  have st: "status c \<in> {CNew, CAdded, CDeleted}"
    and mp: "status c \<noteq> CNew \<Longrightarrow> map_of (chmap p) (fd c) = Some a"
    and ks: "keys_sorted (chmap p)"
    and ker: "interest p (fd c) = None \<longleftrightarrow> kernel_view p (fd c) = None"
    using assms(1,2) by (auto simp: poller_inv_def)
  consider (new) "status c = CNew" | (del) "status c = CDeleted" | (add) "status c = CAdded"
    using st by blast
  then show ?thesis
  proof cases
    case new
    then show ?thesis
      using assms(2,3) ker
      by (simp add: updateChannel_def update_def modify_chan_def setStatus_def updated_def next_status_def
          kernel_view_def Let_def)
  next
    case del
    then show ?thesis
      using assms(2) mp ker put_same [OF mp ks]
      by (simp add: updateChannel_def update_def modify_chan_def setStatus_def updated_def next_status_def
          kernel_view_def Let_def)
  next
    case add
    then have ne: "interest p (fd c) \<noteq> None" using mp ker assms(2) by (simp add: kernel_view_def)
    have id: "chans p = (chans p)(a \<mapsto> c\<lparr> status := CAdded \<rparr>)"
      using assms(2) add by (auto simp: fun_eq_iff)
    show ?thesis
      using add assms(2) mp ne id
      by (auto simp: updateChannel_def update_def modify_chan_def setStatus_def updated_def next_status_def
          Let_def)
  qed
qed

lemma updated_inv:
  assumes "poller_inv (Some a) p" "chans p a = Some c"
    "status c = CNew \<Longrightarrow> map_of (chmap p) (fd c) = None"
  shows "poller_inv None (updated a c p)"
proof -
  have ks: "keys_sorted (chmap p)"
    and inj: "\<And>n b. map_of (chmap p) n = Some b \<Longrightarrow> \<exists>d. chans p b = Some d \<and> fd d = n \<and> status d \<noteq> CNew"
    and st: "\<And>b d. chans p b = Some d \<Longrightarrow> status d \<in> {CNew, CAdded, CDeleted} \<and>
        (status d \<noteq> CNew \<longrightarrow> map_of (chmap p) (fd d) = Some b)"
    and ker: "\<And>n. map_of (chmap p) n \<noteq> Some a \<Longrightarrow> interest p n = kernel_view p n"
    using assms(1) by (auto simp: poller_inv_def)
  let ?p = "updated a c p"
  have free: "map_of (chmap p) (fd c) = None \<or> map_of (chmap p) (fd c) = Some a"
    using assms(3) st [OF assms(2)] by blast
  have mp: "map_of (chmap ?p) = (map_of (chmap p))(fd c \<mapsto> a)"
    using ks by (simp add: chmap_updated map_of_put)
  have other: "b \<noteq> a" if "map_of (chmap p) n = Some b" "n \<noteq> fd c" for n b
    using inj [OF that(1)] that(2) assms(2) by auto
  have view: "interest ?p n = kernel_view ?p n" for n
  proof (cases "n = fd c")
    case True
    then show ?thesis by (simp add: kernel_view_def mp)
  next
    case False
    then have "kernel_view ?p n = kernel_view p n"
      using other [of n] by (auto simp: kernel_view_def mp split: option.split)
    moreover have "map_of (chmap p) n \<noteq> Some a" using False other by blast
    ultimately show ?thesis using ker [of n] False by simp
  qed
  have "\<exists>d. chans ?p b = Some d \<and> fd d = n \<and> status d \<noteq> CNew" if "map_of (chmap ?p) n = Some b" for n b
    using that inj [of n b] other [of n b] by (auto simp: mp split: if_splits)
  moreover have "status d \<in> {CNew, CAdded, CDeleted} \<and> (status d \<noteq> CNew \<longrightarrow> map_of (chmap ?p) (fd d) = Some b)"
    if "chans ?p b = Some d" for b d
    using that st [of b d] free next_status_cases [of c] by (auto simp: mp split: if_splits)
  moreover have "keys_sorted (chmap ?p)" using ks by (simp add: chmap_updated put_sorted)
  ultimately show ?thesis unfolding poller_inv_def using view by auto
qed

definition removed :: "nat \<Rightarrow> 'f channel \<Rightarrow> 'f poller \<Rightarrow> 'f poller" where
  "removed a c p = p\<lparr> chans := (chans p)(a \<mapsto> c\<lparr> status := CNew \<rparr>),
     chmap := erase (fd c) (chmap p), interest := (interest p)(fd c := None) \<rparr>"

lemma removeChannel_eq:
  assumes "poller_inv None p" "chans p a = Some c" "status c \<noteq> CNew" "isNonEvent c"
  shows "removeChannel True a p = Inr (removed a c p)"
proof -
  have ks: "keys_sorted (chmap p)" and mp: "map_of (chmap p) (fd c) = Some a"
    and st: "status c = CAdded \<or> status c = CDeleted" and ker: "interest p = kernel_view p"
    using assms by (auto simp: poller_inv_def)
  have len: "length (chmap p) - length (erase (fd c) (chmap p)) = 1"
    using length_erase [OF ks, of "fd c"] mp by simp
  have ne: "interest p (fd c) = (if status c = CAdded then Some (EPOLLET OR events c, a) else None)"
    using ker mp assms(2) by (simp add: kernel_view_def)
  then have id: "status c = CDeleted \<Longrightarrow> interest p = (interest p)(fd c := None)"
    by (auto simp: fun_eq_iff)
  show ?thesis
    using st
  proof
    assume "status c = CAdded"
    then show ?thesis using assms(2,4) mp len ne
      by (simp add: removeChannel_def update_def modify_chan_def removed_def setStatus_def Let_def)
  next
    assume "status c = CDeleted"
    then show ?thesis using assms(2,4) mp len id
      by (auto simp: removeChannel_def update_def modify_chan_def removed_def setStatus_def Let_def)
  qed
qed

lemma removed_inv:
  assumes "poller_inv None p" "chans p a = Some c" "status c \<noteq> CNew"
  shows "poller_inv None (removed a c p)"
proof -
  have ks: "keys_sorted (chmap p)" and mp: "map_of (chmap p) (fd c) = Some a"
    and inj: "\<And>n b. map_of (chmap p) n = Some b \<Longrightarrow> \<exists>d. chans p b = Some d \<and> fd d = n \<and> status d \<noteq> CNew"
    and st: "\<And>b d. chans p b = Some d \<Longrightarrow> status d \<in> {CNew, CAdded, CDeleted} \<and>
        (status d \<noteq> CNew \<longrightarrow> map_of (chmap p) (fd d) = Some b)"
    and ker: "interest p = kernel_view p"
    using assms by (auto simp: poller_inv_def)
  let ?p = "removed a c p"
  have mp': "map_of (chmap ?p) = (map_of (chmap p))(fd c := None)"
    using ks by (simp add: removed_def map_of_erase)
  have ch: "chans ?p = (chans p)(a \<mapsto> c\<lparr> status := CNew \<rparr>)"
    and int: "interest ?p = (interest p)(fd c := None)" by (simp_all add: removed_def)
  have other: "b \<noteq> a" if "map_of (chmap p) n = Some b" "n \<noteq> fd c" for n b
    using inj [OF that(1)] that(2) assms(2) by auto
  have "interest ?p n = kernel_view ?p n" for n
    using ker other [of n] by (auto simp: kernel_view_def mp' ch int split: option.split)
  moreover have "\<exists>d. chans ?p b = Some d \<and> fd d = n \<and> status d \<noteq> CNew"
    if "map_of (chmap ?p) n = Some b" for n b
    using that inj [of n b] other [of n b] by (auto simp: mp' ch split: if_splits)
  moreover have "status d \<in> {CNew, CAdded, CDeleted} \<and> (status d \<noteq> CNew \<longrightarrow> map_of (chmap ?p) (fd d) = Some b)"
    if "chans ?p b = Some d" for b d
    using that st [of b d] mp by (auto simp: mp' ch split: if_splits)
  moreover have "keys_sorted (chmap ?p)" using ks by (simp add: removed_def erase_sorted)
  ultimately show ?thesis unfolding poller_inv_def by auto
qed

lemma poller_inv_same:
  assumes "poller_inv None p" "chans p a = Some c" "fd d = fd c" "status d = status c" "events d = events c"
  shows "poller_inv None (p\<lparr> chans := (chans p)(a \<mapsto> d) \<rparr>)"
proof -
  let ?p = "p\<lparr> chans := (chans p)(a \<mapsto> d) \<rparr>"
  have "kernel_view ?p = kernel_view p"
    using assms(2-5) by (auto simp: kernel_view_def fun_eq_iff split: option.split)
  then show ?thesis
    using assms unfolding poller_inv_def
    by simp (metis option.inject)
qed

lemma setEvents_inv:
  assumes "poller_inv None p" "chans p a = Some c"
  shows "poller_inv None (p\<lparr> chans := (chans p)(a \<mapsto> setEvents e c) \<rparr>)"
  by (rule poller_inv_same [OF assms]) (simp_all add: setEvents_def)

lemma watched_channel:
  assumes "poller_inv None p" "interest p n = Some (m, a)"
  shows "\<exists>c. chans p a = Some c \<and> fd c = n \<and> status c = CAdded \<and> m = EPOLLET OR events c \<and>
    map_of (chmap p) n = Some a"
  using assms poller_inv_interest [OF assms(1)]
  by (fastforce simp: kernel_view_def poller_inv_def split: option.splits if_splits)

text \<open>What \<open>epoll_wait\<close> may report: at most one event for each registered descriptor.\<close>

definition reported :: "'f poller \<Rightarrow> (32 word \<times> nat) list \<Rightarrow> bool" where
  "reported p evs \<longleftrightarrow> distinct (map snd evs) \<and> (\<forall>(e, a) \<in> set evs. \<exists>m. Some (m, a) \<in> range (interest p))"

lemma fill_loop_ok:
  "poller_inv None p \<Longrightarrow> reported p evs \<Longrightarrow>
   \<exists>p'. fill_loop evs act p = Inr (act @ map snd evs, p') \<and> poller_inv None p' \<and>
     interest p' = interest p \<and> chmap p' = chmap p \<and> eventVec_size p' = eventVec_size p \<and>
     (\<forall>b. b \<notin> snd ` set evs \<longrightarrow> chans p' b = chans p b) \<and>
     (\<forall>(e, b) \<in> set evs. \<exists>c. chans p b = Some c \<and> chans p' b = Some (setEvents e c))"
proof (induction evs arbitrary: act p)
  case Nil
  then show ?case by simp
next
  case (Cons ev evs)
  obtain e a where ev: "ev = (e, a)" by (cases ev)
  obtain n m where "interest p n = Some (m, a)"
    using Cons.prems(2) ev by (auto simp: reported_def eq_commute)
  then obtain c where c: "chans p a = Some c" "fd c = n" "map_of (chmap p) n = Some a"
    using watched_channel [OF Cons.prems(1)] by blast
  let ?p = "p\<lparr> chans := (chans p)(a \<mapsto> setEvents e c) \<rparr>"
  have "reported ?p evs" using Cons.prems(2) ev by (auto simp: reported_def)
  then obtain p' where p': "fill_loop evs (act @ [a]) ?p = Inr ((act @ [a]) @ map snd evs, p')"
      "poller_inv None p'" "interest p' = interest p" "chmap p' = chmap p"
      "eventVec_size p' = eventVec_size p"
      "\<forall>b. b \<notin> snd ` set evs \<longrightarrow> chans p' b = chans ?p b"
      "\<forall>(e, b) \<in> set evs. \<exists>c. chans ?p b = Some c \<and> chans p' b = Some (setEvents e c)"
    using Cons.IH [OF setEvents_inv [OF Cons.prems(1) c(1)], of e "act @ [a]"] by auto
  have a: "a \<notin> snd ` set evs" using Cons.prems(2) ev by (auto simp: reported_def)
  have "fill_loop (ev # evs) act p = fill_loop evs (act @ [a]) ?p"
    using c ev by (simp add: modify_chan_def)
  moreover have "\<exists>c. chans p b = Some c \<and> chans p' b = Some (setEvents f c)" if "(f, b) \<in> set evs" for f b
  proof -
    have "b \<noteq> a" using that a by force
    then show ?thesis using p'(7) that by auto
  qed
  ultimately show ?case
    using p' a ev c(1) by auto
qed

section \<open>Properties\<close>

text \<open>
  C28: \<open>updateChannel\<close>, called for a channel whose events have changed, passes all its assertions
  (\<open>CNew\<close> only for a descriptor that is not in the map), leaves every channel with a consistent
  status and the kernel's interest list equal to the set of \<open>CAdded\<close> channels with their events, and
  changes nothing for other descriptors: after it, the kernel watches the descriptor with the new
  mask, unless an added channel has lost its last event.
\<close>

theorem updateChannel_syncs_kernel:
  assumes "poller_inv (Some a) p" "chans p a = Some c"
    "status c = CNew \<longrightarrow> map_of (chmap p) (fd c) = None"
  shows "\<exists>p'. updateChannel a p = Inr p' \<and> poller_inv None p' \<and>
    map_of (chmap p') = (map_of (chmap p))(fd c \<mapsto> a) \<and>
    chans p' = (chans p)(a \<mapsto> c\<lparr> status := next_status c \<rparr>) \<and>
    interest p' = (interest p)(fd c :=
      if status c = CAdded \<and> events c = 0 then None else Some (EPOLLET OR events c, a))"
proof -
  have new: "status c = CNew \<Longrightarrow> map_of (chmap p) (fd c) = None" using assms(3) by blast
  have "keys_sorted (chmap p)" using assms(1) by (simp add: poller_inv_def)
  then have "map_of (chmap (updated a c p)) = (map_of (chmap p))(fd c \<mapsto> a)"
    by (simp add: chmap_updated map_of_put)
  then show ?thesis
    using updateChannel_eq [OF assms(1,2) new] updated_inv [OF assms(1,2) new]
    by (auto simp: next_status_def isNonEvent_def CNoneEvent_def)
qed

lemma new_poller_inv:
  assumes "\<And>a c. m a = Some c \<Longrightarrow> status c = CNew"
  shows "poller_inv x (EpollPoller m)"
  using assms by (fastforce simp: poller_inv_def EpollPoller_def kernel_view_def)

theorem updateChannel_syncs_kernel_witness:
  "\<exists>p'. updateChannel 7 (EpollPoller [7 \<mapsto> Channel 5\<lparr> events := CReadEvent \<rparr>] :: nat poller) = Inr p' \<and>
    poller_inv None p' \<and> map_of (chmap p') = [5 \<mapsto> 7] \<and>
    chans p' 7 = Some (Channel 5\<lparr> events := CReadEvent, status := CAdded \<rparr>) \<and>
    interest p' = [5 \<mapsto> (EPOLLET OR CReadEvent, 7)]"
proof -
  let ?p = "EpollPoller [7 \<mapsto> Channel 5\<lparr> events := CReadEvent \<rparr>] :: nat poller"
  have "poller_inv (Some 7) ?p"
    by (rule new_poller_inv) (auto simp: Channel_def CNew_def split: if_splits)
  from updateChannel_syncs_kernel [OF this, of "Channel 5\<lparr> events := CReadEvent \<rparr>"] show ?thesis
    by (auto simp: EpollPoller_def Channel_def CNew_def CAdded_def next_status_def)
qed

text \<open>
  \<open>removeChannel\<close> of a channel without events takes it out of the map and out of the kernel's
  interest list, sets it back to \<open>CNew\<close> and keeps the invariant; none of its assertions fails.
\<close>

lemma removeChannel_unregisters:
  assumes "poller_inv None p" "chans p a = Some c" "status c \<noteq> CNew" "isNonEvent c"
  shows "\<exists>p'. removeChannel True a p = Inr p' \<and> poller_inv None p' \<and>
    map_of (chmap p') = (map_of (chmap p))(fd c := None) \<and> interest p' = (interest p)(fd c := None) \<and>
    chans p' = (chans p)(a \<mapsto> c\<lparr> status := CNew \<rparr>) \<and> hasChannel a p' = Inr False"
proof -
  have ks: "keys_sorted (chmap p)" using assms(1) by (simp add: poller_inv_def)
  show ?thesis
    using removeChannel_eq [OF assms] removed_inv [OF assms(1-3)] map_of_erase [OF ks]
    by (auto simp: removed_def hasChannel_def)
qed

lemma one_channel_inv:
  assumes "fd c = n" "status c = CAdded"
  shows "poller_inv x \<lparr> chans = [a \<mapsto> c], chmap = [(n, a)], eventVec_size = s,
    interest = [n \<mapsto> (EPOLLET OR events c, a)] \<rparr>"
  using assms by (auto simp: poller_inv_def kernel_view_def)

lemma removeChannel_unregisters_witness:
  "\<exists>p'. removeChannel True 7 \<lparr> chans = [7 \<mapsto> (Channel 5 :: nat channel)\<lparr> status := CAdded \<rparr>],
      chmap = [(5, 7)], eventVec_size = 16, interest = [5 \<mapsto> (EPOLLET OR 0, 7)] \<rparr> = Inr p' \<and>
    chmap p' = [] \<and> interest p' = (\<lambda>_. None)"
proof -
  let ?c = "(Channel 5 :: nat channel)\<lparr> status := CAdded \<rparr>"
  have "poller_inv None \<lparr> chans = [7 \<mapsto> ?c], chmap = [(5, 7)], eventVec_size = 16,
      interest = [5 \<mapsto> (EPOLLET OR 0, 7)] \<rparr>"
    using one_channel_inv [of ?c 5 None 7 16] by (simp add: Channel_def)
  from removeChannel_unregisters [OF this, of 7 ?c] obtain p' where
    "removeChannel True 7 \<lparr> chans = [7 \<mapsto> ?c], chmap = [(5, 7)], eventVec_size = 16,
      interest = [5 \<mapsto> (EPOLLET OR 0, 7)] \<rparr> = Inr p'" "map_of (chmap p') = (\<lambda>_. None)"
      "interest p' = (\<lambda>_. None)"
    by (auto simp: Channel_def isNonEvent_def CNoneEvent_def)
  then show ?thesis by auto
qed

text \<open>
  When fewer events are ready than the event array has elements, \<open>poll\<close> appends exactly the
  channels the kernel reports, in its order, each of them alive and holding its events, and it
  changes no other channel and neither the map nor the kernel's list.
\<close>

lemma poll_reports_ready_channels:
  assumes "poller_inv None p" "reported p evs" "length evs < eventVec_size p"
  shows "\<exists>p'. poll (Some evs) act p = Inr (act @ map snd evs, p') \<and> poller_inv None p' \<and>
    interest p' = interest p \<and> chmap p' = chmap p \<and> eventVec_size p' = eventVec_size p \<and>
    (\<forall>b. b \<notin> snd ` set evs \<longrightarrow> chans p' b = chans p b) \<and>
    (\<forall>(e, b) \<in> set evs. \<exists>c. chans p b = Some c \<and> chans p' b = Some (setEvents e c))"
proof (cases "evs = []")
  case True
  then show ?thesis using assms(1) by (simp add: poll_def)
next
  case False
  obtain p' where p': "fill_loop evs act p = Inr (act @ map snd evs, p')" "poller_inv None p'"
      "interest p' = interest p" "chmap p' = chmap p" "eventVec_size p' = eventVec_size p"
      "\<forall>b. b \<notin> snd ` set evs \<longrightarrow> chans p' b = chans p b"
      "\<forall>(e, b) \<in> set evs. \<exists>c. chans p b = Some c \<and> chans p' b = Some (setEvents e c)"
    using fill_loop_ok [OF assms(1,2)] by blast
  have "poll (Some evs) act p = Inr (act @ map snd evs, p')"
    using False assms(3) p'(1,5) by (simp add: poll_def fillActiveChannel_def)
  then show ?thesis using p' by blast
qed

lemma poll_reports_ready_channels_witness:
  "\<exists>p'. poll (Some [(EPOLLIN, 7)]) [] \<lparr> chans = [7 \<mapsto> (Channel 5 :: nat channel)\<lparr> status := CAdded \<rparr>],
      chmap = [(5, 7)], eventVec_size = 16, interest = [5 \<mapsto> (EPOLLET OR 0, 7)] \<rparr> = Inr ([7], p') \<and>
    chans p' 7 = Some ((Channel 5)\<lparr> status := CAdded, rcvEvents := EPOLLIN \<rparr>)"
proof -
  let ?c = "(Channel 5 :: nat channel)\<lparr> status := CAdded \<rparr>"
  let ?p = "\<lparr> chans = [7 \<mapsto> ?c], chmap = [(5, 7)], eventVec_size = 16,
      interest = [5 \<mapsto> (EPOLLET OR 0, 7)] \<rparr>"
  have "poller_inv None ?p"
    using one_channel_inv [of ?c 5 None 7 16] by (simp add: Channel_def)
  moreover have "reported ?p [(EPOLLIN, 7)]"
    by (auto simp: reported_def intro!: image_eqI [where x = 5] exI [where x = "EPOLLET OR 0"])
  ultimately show ?thesis
    using poll_reports_ready_channels [of ?p "[(EPOLLIN, 7)]" "[]"]
    by (auto simp: setEvents_def)
qed

text \<open>
  When as many events are ready as the event array has elements, which is where the array
  should grow, \<open>poll\<close> fails its assertion instead. The array has 16 elements for good, so 16
  descriptors that are ready at once stop the server.
\<close>

lemma poll_full_array_fails:
  assumes "length evs = eventVec_size p" "eventVec_size p > 0"
  shows "poll (Some evs) act p = Inl Assert_Failed"
  using assms by (auto simp: poll_def fillActiveChannel_def)

lemma poll_full_array_fails_witness:
  "poll (Some (map (\<lambda>a. (EPOLLIN, a)) [0..<16])) [] (EpollPoller (\<lambda>a. Some (Channel (int a)))) =
    Inl Assert_Failed"
  by (rule poll_full_array_fails) (simp_all add: EpollPoller_def CInitEventVecSize_def)

end
