(* ===== verification/EventLoop.thy ===== *)
theory EventLoop
  imports EpollPoller Interfaces
begin

text \<open>
  src/EventLoop.h and src/EventLoop.cc, with the operations of src/Channel.h and src/Channel.cc that
  go through the loop. The channels of a loop live in the store of its poller, so a channel's
  \<open>ownerLoop()\<close> is the loop itself. \<open>tid\<close> is the thread that makes a call. A functor is a value of
  type \<open>'f\<close> and \<open>run\<close> says what calling it does to the loop and to the \<open>world\<close> around it; \<open>alive\<close>
  says whether the object a channel is tied to still exists. The counter of the event descriptor is
  \<open>wakeups\<close>: as eventfd(2) documents, a \<open>write\<close> of fewer than 8 bytes fails, and so does a \<open>read\<close>.
\<close>

section \<open>The loop\<close>

record ('f, 'w) event_loop =
  quit :: bool
  looping :: bool
  eventHandling :: bool
  callingPendingFunctor :: bool
  threadId :: nat
  wakeupChannel :: nat
  wakeups :: nat
  currentActiveChannel :: "nat option"
  poller :: "'f poller"
  activeChannels :: "nat list"
  pendingFunctor :: "'f list"
  world :: 'w

definition chan :: "('f, 'w) event_loop \<Rightarrow> nat \<Rightarrow> 'f channel option" where
  "chan l a = chans (poller l) a"

definition with_poller ::
    "('f poller \<Rightarrow> 'f poller res) \<Rightarrow> ('f, 'w) event_loop \<Rightarrow> ('f, 'w) event_loop res" where
  "with_poller g l = bindE (g (poller l)) (\<lambda>p. Inr (l\<lparr> poller := p \<rparr>))"

definition isInLoopThread :: "nat \<Rightarrow> ('f, 'w) event_loop \<Rightarrow> bool" where
  "isInLoopThread tid l \<longleftrightarrow> threadId l = tid"

definition loop_hasChannel :: "nat \<Rightarrow> ('f, 'w) event_loop \<Rightarrow> bool res" where
  "loop_hasChannel a l = hasChannel a (poller l)"

definition loop_updateChannel :: "nat \<Rightarrow> nat \<Rightarrow> ('f, 'w) event_loop \<Rightarrow> ('f, 'w) event_loop res" where
  "loop_updateChannel tid a l =
     bindE (assertE (isInLoopThread tid l)) (\<lambda>_. with_poller (updateChannel a) l)"

definition loop_removeChannel :: "nat \<Rightarrow> nat \<Rightarrow> ('f, 'w) event_loop \<Rightarrow> ('f, 'w) event_loop res" where
  "loop_removeChannel tid a l =
     bindE (assertE (isInLoopThread tid l)) (\<lambda>_.
     bindE (if eventHandling l
            then assertE (currentActiveChannel l = Some a \<or> a \<notin> set (activeChannels l))
            else Inr ()) (\<lambda>_.
       with_poller (removeChannel (isInLoopThread tid l) a) l))"

section \<open>Channel operations that reach the poller\<close>

definition channel_update :: "nat \<Rightarrow> nat \<Rightarrow> ('f, 'w) event_loop \<Rightarrow> ('f, 'w) event_loop res" where
  "channel_update tid a l =
     bindE (with_poller (modify_chan a (\<lambda>c. c\<lparr> addToLoop := True \<rparr>)) l) (loop_updateChannel tid a)"

definition channel_remove :: "nat \<Rightarrow> nat \<Rightarrow> ('f, 'w) event_loop \<Rightarrow> ('f, 'w) event_loop res" where
  "channel_remove tid a l = bindE (deref (chans (poller l)) (Ptr a)) (\<lambda>c.
     bindE (assertE (isNonEvent c)) (\<lambda>_.
     bindE (with_poller (modify_chan a (\<lambda>c. c\<lparr> addToLoop := False \<rparr>)) l) (loop_removeChannel tid a)))"

text \<open>\<open>enableRead\<close>, \<open>disableRead\<close>, \<open>enableWrite\<close>, \<open>disableWrite\<close> and \<open>disableAll\<close>.\<close>

definition change ::
    "nat \<Rightarrow> event_change \<Rightarrow> nat \<Rightarrow> ('f, 'w) event_loop \<Rightarrow> ('f, 'w) event_loop res" where
  "change tid e a l =
     bindE (with_poller (modify_chan a (\<lambda>c. c\<lparr> events := change_events e (events c) \<rparr>)) l)
       (channel_update tid a)"

text \<open>\<open>~Channel\<close>.\<close>

definition channel_delete :: "nat \<Rightarrow> nat \<Rightarrow> ('f, 'w) event_loop \<Rightarrow> ('f, 'w) event_loop res" where
  "channel_delete tid a l = bindE (deref (chans (poller l)) (Ptr a)) (\<lambda>c.
     bindE (assertE (\<not> ch_handling c)) (\<lambda>_.
     bindE (assertE (\<not> addToLoop c)) (\<lambda>_.
     bindE (if isInLoopThread tid l
            then bindE (loop_hasChannel a l) (\<lambda>has. assertE (\<not> has)) else Inr ()) (\<lambda>_.
       bindE (free (chans (poller l)) (Ptr a)) (\<lambda>m. Inr (l\<lparr> poller := (poller l)\<lparr> chans := m \<rparr> \<rparr>))))))"

section \<open>Events\<close>

definition dispatch ::
    "('f \<Rightarrow> ('f, 'w) event_loop \<Rightarrow> ('f, 'w) event_loop res) \<Rightarrow> nat \<Rightarrow> 32 word \<Rightarrow> ('f channel \<Rightarrow> 'f option) \<Rightarrow>
     ('f, 'w) event_loop \<Rightarrow> ('f, 'w) event_loop res" where
  "dispatch run a msk slot l = bindE (deref (chans (poller l)) (Ptr a)) (\<lambda>c.
     if rcvEvents c AND msk \<noteq> 0 then (case slot c of None \<Rightarrow> Inr l | Some f \<Rightarrow> run f l) else Inr l)"

definition handleEventWithGuard ::
    "('f \<Rightarrow> ('f, 'w) event_loop \<Rightarrow> ('f, 'w) event_loop res) \<Rightarrow> nat \<Rightarrow>
     ('f, 'w) event_loop \<Rightarrow> ('f, 'w) event_loop res" where
  "handleEventWithGuard run a l =
     bindE (with_poller (modify_chan a (\<lambda>c. c\<lparr> ch_handling := True \<rparr>)) l) (\<lambda>l.
     bindE (dispatch run a EPOLLHUP closeCB l) (\<lambda>l.
     bindE (dispatch run a EPOLLERR errorCB l) (\<lambda>l.
     bindE (dispatch run a (EPOLLIN OR EPOLLPRI) readCB l) (\<lambda>l.
     bindE (dispatch run a EPOLLOUT writeCB l) (\<lambda>l.
       with_poller (modify_chan a (\<lambda>c. c\<lparr> ch_handling := False \<rparr>)) l)))))"

definition handleEvent ::
    "('f \<Rightarrow> ('f, 'w) event_loop \<Rightarrow> ('f, 'w) event_loop res) \<Rightarrow> (('f, 'w) event_loop \<Rightarrow> nat \<Rightarrow> bool) \<Rightarrow> nat \<Rightarrow>
     ('f, 'w) event_loop \<Rightarrow> ('f, 'w) event_loop res" where
  "handleEvent run alive a l = bindE (deref (chans (poller l)) (Ptr a)) (\<lambda>c.
     if tied c then (if alive l (owner c) then handleEventWithGuard run a l else Inr l)
     else handleEventWithGuard run a l)"

section \<open>Functors\<close>

text \<open>The result of the system call and the new counter.\<close>

definition eventfd_write :: "nat \<Rightarrow> nat \<Rightarrow> nat \<Rightarrow> int \<times> nat" where
  "eventfd_write sz v counter = (if sz < 8 then (- 1, counter) else (8, counter + v))"

definition eventfd_read :: "nat \<Rightarrow> nat \<Rightarrow> int \<times> nat" where
  "eventfd_read sz counter = (if sz < 8 \<or> counter = 0 then (- 1, counter) else (8, 0))"

definition sizeof_int :: nat where "sizeof_int = 4"

definition wakeup :: "('f, 'w) event_loop \<Rightarrow> ('f, 'w) event_loop" where
  "wakeup l = l\<lparr> wakeups := snd (eventfd_write sizeof_int 1 (wakeups l)) \<rparr>"

definition loop_handleRead :: "('f, 'w) event_loop \<Rightarrow> ('f, 'w) event_loop" where
  "loop_handleRead l = l\<lparr> wakeups := snd (eventfd_read sizeof_int (wakeups l)) \<rparr>"

definition queueInLoop :: "nat \<Rightarrow> 'f \<Rightarrow> ('f, 'w) event_loop \<Rightarrow> ('f, 'w) event_loop" where
  "queueInLoop tid f l =
     (let l = l\<lparr> pendingFunctor := pendingFunctor l @ [f] \<rparr>
      in if \<not> isInLoopThread tid l \<or> callingPendingFunctor l then wakeup l else l)"

definition runInLoop ::
    "('f \<Rightarrow> ('f, 'w) event_loop \<Rightarrow> ('f, 'w) event_loop res) \<Rightarrow> nat \<Rightarrow> 'f \<Rightarrow>
     ('f, 'w) event_loop \<Rightarrow> ('f, 'w) event_loop res" where
  "runInLoop run tid f l = (if isInLoopThread tid l then run f l else Inr (queueInLoop tid f l))"

fun run_all ::
    "('f \<Rightarrow> ('f, 'w) event_loop \<Rightarrow> ('f, 'w) event_loop res) \<Rightarrow> 'f list \<Rightarrow>
     ('f, 'w) event_loop \<Rightarrow> ('f, 'w) event_loop res" where
  "run_all run [] l = Inr l"
| "run_all run (f # fs) l = bindE (run f l) (run_all run fs)"

definition doPendingFunctors ::
    "('f \<Rightarrow> ('f, 'w) event_loop \<Rightarrow> ('f, 'w) event_loop res) \<Rightarrow>
     ('f, 'w) event_loop \<Rightarrow> ('f, 'w) event_loop res" where
  "doPendingFunctors run l =
     (let functors = pendingFunctor l; l = l\<lparr> pendingFunctor := [], callingPendingFunctor := True \<rparr>
      in bindE (run_all run functors l) (\<lambda>l. Inr (l\<lparr> callingPendingFunctor := False \<rparr>)))"

definition loop_quit :: "nat \<Rightarrow> ('f, 'w) event_loop \<Rightarrow> ('f, 'w) event_loop" where
  "loop_quit tid l =
     (let l = l\<lparr> quit := True \<rparr> in if \<not> isInLoopThread tid l then wakeup l else l)"

section \<open>Running and building a loop\<close>

fun run_active ::
    "('f \<Rightarrow> ('f, 'w) event_loop \<Rightarrow> ('f, 'w) event_loop res) \<Rightarrow> (('f, 'w) event_loop \<Rightarrow> nat \<Rightarrow> bool) \<Rightarrow>
     nat list \<Rightarrow> ('f, 'w) event_loop \<Rightarrow> ('f, 'w) event_loop res" where
  "run_active run alive [] l = Inr l"
| "run_active run alive (a # as) l =
     bindE (handleEvent run alive a (l\<lparr> currentActiveChannel := Some a \<rparr>)) (run_active run alive as)"

definition loop_turn ::
    "('f \<Rightarrow> ('f, 'w) event_loop \<Rightarrow> ('f, 'w) event_loop res) \<Rightarrow> (('f, 'w) event_loop \<Rightarrow> nat \<Rightarrow> bool) \<Rightarrow>
     (32 word \<times> nat) list option \<Rightarrow> ('f, 'w) event_loop \<Rightarrow> ('f, 'w) event_loop res" where
  "loop_turn run alive r l =
     bindE (poll r [] (poller (l\<lparr> activeChannels := [] \<rparr>))) (\<lambda>(act, p).
     bindE (run_active run alive act (l\<lparr> activeChannels := act, poller := p, eventHandling := True \<rparr>)) (\<lambda>l.
       doPendingFunctors run (l\<lparr> currentActiveChannel := None, eventHandling := False \<rparr>)))"

text \<open>
  \<open>loop\<close> on what the successive calls of \<open>epoll_wait\<close> return; when the list is used up the loop is
  waiting in \<open>epoll_wait\<close>.
\<close>

fun turns ::
    "('f \<Rightarrow> ('f, 'w) event_loop \<Rightarrow> ('f, 'w) event_loop res) \<Rightarrow> (('f, 'w) event_loop \<Rightarrow> nat \<Rightarrow> bool) \<Rightarrow>
     (32 word \<times> nat) list option list \<Rightarrow> ('f, 'w) event_loop \<Rightarrow> ('f, 'w) event_loop res" where
  "turns run alive [] l = Inr (if quit l then l\<lparr> looping := False, quit := True \<rparr> else l)"
| "turns run alive (r # rs) l =
     (if quit l then Inr (l\<lparr> looping := False, quit := True \<rparr>)
      else bindE (loop_turn run alive r l) (turns run alive rs))"

definition loop ::
    "('f \<Rightarrow> ('f, 'w) event_loop \<Rightarrow> ('f, 'w) event_loop res) \<Rightarrow> (('f, 'w) event_loop \<Rightarrow> nat \<Rightarrow> bool) \<Rightarrow> nat \<Rightarrow>
     (32 word \<times> nat) list option list \<Rightarrow> ('f, 'w) event_loop \<Rightarrow> ('f, 'w) event_loop res" where
  "loop run alive tid rs l =
     bindE (assertE (\<not> looping l)) (\<lambda>_. bindE (assertE (isInLoopThread tid l)) (\<lambda>_.
       turns run alive rs (l\<lparr> looping := True, quit := False \<rparr>)))"

text \<open>
  The constructor: \<open>efd\<close> is the descriptor \<open>eventfd\<close> returns, \<open>w\<close> the address of the wake-up channel
  and \<open>hr\<close> the functor of \<open>EventLoop::handleRead\<close>.
\<close>

definition EventLoop :: "nat \<Rightarrow> int \<Rightarrow> nat \<Rightarrow> 'f \<Rightarrow> 'w \<Rightarrow> ('f, 'w) event_loop res" where
  "EventLoop tid efd w hr u =
     bindE (assertE (efd > 0)) (\<lambda>_.
       let l = \<lparr> quit = False, looping = False, eventHandling = False, callingPendingFunctor = False,
             threadId = tid, wakeupChannel = w, wakeups = 0, currentActiveChannel = None,
             poller = EpollPoller [w \<mapsto> Channel efd], activeChannels = [], pendingFunctor = [],
             world = u \<rparr>
       in bindE (with_poller (modify_chan w (setReadCB hr)) l) (change tid EnableRead w))"

text \<open>The destructor, up to closing the descriptor.\<close>

definition EventLoop_dtor :: "nat \<Rightarrow> ('f, 'w) event_loop \<Rightarrow> ('f, 'w) event_loop res" where
  "EventLoop_dtor tid l =
     bindE (change tid DisableAll (wakeupChannel l) l) (channel_remove tid (wakeupChannel l))"

section \<open>The invariant of a loop\<close>

text \<open>
  On top of the poller's invariant: the channels have different descriptors, and a channel the
  kernel does not watch waits for nothing.
\<close>

definition loop_inv :: "('f, 'w) event_loop \<Rightarrow> bool" where
  "loop_inv l \<longleftrightarrow> poller_inv None (poller l) \<and>
     (\<forall>a b c d. chan l a = Some c \<longrightarrow> chan l b = Some d \<longrightarrow> fd c = fd d \<longrightarrow> a = b) \<and>
     (\<forall>a c. chan l a = Some c \<longrightarrow> status c \<noteq> CAdded \<longrightarrow> events c = 0)"

lemma loop_fd_inj:
  "loop_inv l \<Longrightarrow> chan l a = Some c \<Longrightarrow> chan l b = Some d \<Longrightarrow> fd d = fd c \<Longrightarrow> b = a"
  unfolding loop_inv_def by metis

lemma poller_inv_channel:
  assumes "poller_inv None p" "chans p a = Some c" "fd c' = fd c" "status c' = status c"
  shows "poller_inv (Some a) (p\<lparr> chans := (chans p)(a \<mapsto> c') \<rparr>)"
proof -
  let ?p = "p\<lparr> chans := (chans p)(a \<mapsto> c') \<rparr>"
  have "kernel_view ?p n = kernel_view p n" if "map_of (chmap p) n \<noteq> Some a" for n
    using that by (auto simp: kernel_view_def split: option.split)
  moreover have "kernel_view ?p n = None \<longleftrightarrow> kernel_view p n = None" for n
    using assms(2,4) by (auto simp: kernel_view_def split: option.split)
  ultimately show ?thesis
    using assms unfolding poller_inv_def by (simp split: if_split) (metis option.inject)
qed

definition changed :: "event_change \<Rightarrow> 'f channel \<Rightarrow> 'f channel" where
  "changed e c = c\<lparr> events := change_events e (events c), addToLoop := True,
     status := if status c = CAdded \<and> change_events e (events c) = 0 then CDeleted else CAdded \<rparr>"

lemma changed_simps [simp]:
  "fd (changed e c) = fd c" "events (changed e c) = change_events e (events c)"
  "ch_handling (changed e c) = ch_handling c" "tied (changed e c) = tied c" "owner (changed e c) = owner c"
  by (simp_all add: changed_def)

lemma changed_not_added: "status (changed e c) \<noteq> CAdded \<Longrightarrow> change_events e (events c) = 0"
  by (auto simp: changed_def split: if_splits)

lemma change_ok:
  assumes "loop_inv l" "chan l a = Some c" "threadId l = tid"
  shows "\<exists>p. change tid e a l = Inr (l\<lparr> poller := p \<rparr>) \<and> loop_inv (l\<lparr> poller := p \<rparr>) \<and>
    chans p = (chans (poller l))(a \<mapsto> changed e c) \<and>
    eventVec_size p = eventVec_size (poller l) \<and>
    map_of (chmap p) = (map_of (chmap (poller l)))(fd c \<mapsto> a) \<and>
    interest p = (interest (poller l))(fd c :=
      if status (changed e c) = CAdded then Some (EPOLLET OR events (changed e c), a) else None)"
proof -
  let ?c = "c\<lparr> events := change_events e (events c), addToLoop := True \<rparr>"
  let ?p = "(poller l)\<lparr> chans := (chans (poller l))(a \<mapsto> ?c) \<rparr>"
  have inv: "poller_inv None (poller l)" and c: "chans (poller l) a = Some c"
    using assms by (simp_all add: loop_inv_def chan_def)
  have inv': "poller_inv (Some a) ?p" by (rule poller_inv_channel [OF inv c]) simp_all
  have "map_of (chmap ?p) (fd ?c) = None" if "status ?c = CNew"
  proof (rule ccontr)
    assume "map_of (chmap ?p) (fd ?c) \<noteq> None"
    then obtain b where "map_of (chmap (poller l)) (fd c) = Some b" by auto
    then obtain d where d: "chans (poller l) b = Some d" "fd d = fd c" "status d \<noteq> CNew"
      using mapped_channel [OF inv] by blast
    then have "b = a" using assms(1,2) by (auto simp: loop_inv_def chan_def)
    then show False using d c that by simp
  qed
  note new = this
  have st: "?c\<lparr> status := next_status ?c \<rparr> = changed e c"
    unfolding changed_def next_status_def isNonEvent_def CNoneEvent_def by simp
  have ns: "next_status ?c = status (changed e c)" using arg_cong [OF st, of status] by simp
  let ?q = "updated a ?c ?p"
  have upd: "updateChannel a ?p = Inr ?q" by (rule updateChannel_eq [OF inv']) (use new in auto)
  have invq: "poller_inv None ?q" by (rule updated_inv [OF inv']) (use new in auto)
  have ch: "chans ?q = (chans (poller l))(a \<mapsto> changed e c)"
    by (simp only: updated_simps st) simp
  have mp: "map_of (chmap ?q) = (map_of (chmap (poller l)))(fd c \<mapsto> a)"
    using inv by (simp add: chmap_updated map_of_put poller_inv_def)
  have "change tid e a l = Inr (l\<lparr> poller := ?q \<rparr>)"
    using c upd assms(3)
    by (simp add: change_def channel_update_def loop_updateChannel_def with_poller_def modify_chan_def
        isInLoopThread_def)
  moreover have "loop_inv (l\<lparr> poller := ?q \<rparr>)"
    using assms(1) c invq unfolding loop_inv_def chan_def by (auto simp: ch dest: changed_not_added simp del: updated_simps)
  ultimately show ?thesis
    using ch mp by (intro exI [of _ ?q]) (simp add: ns)
qed

lemma channel_remove_ok:
  assumes "loop_inv l" "chan l a = Some c" "threadId l = tid" "status c \<noteq> CNew" "isNonEvent c"
    "\<not> eventHandling l \<or> currentActiveChannel l = Some a \<or> a \<notin> set (activeChannels l)"
  shows "\<exists>p. channel_remove tid a l = Inr (l\<lparr> poller := p \<rparr>) \<and> loop_inv (l\<lparr> poller := p \<rparr>) \<and>
    chans p = (chans (poller l))(a \<mapsto> c\<lparr> addToLoop := False, status := CNew \<rparr>) \<and>
    map_of (chmap p) = (map_of (chmap (poller l)))(fd c := None) \<and>
    interest p = (interest (poller l))(fd c := None)"
proof -
  let ?c = "c\<lparr> addToLoop := False \<rparr>"
  let ?p = "(poller l)\<lparr> chans := (chans (poller l))(a \<mapsto> ?c) \<rparr>"
  have inv: "poller_inv None (poller l)" and c: "chans (poller l) a = Some c"
    using assms(1,2) by (simp_all add: loop_inv_def chan_def)
  have inv': "poller_inv None ?p" by (rule poller_inv_same [OF inv c]) simp_all
  have st: "chans ?p a = Some ?c" "status ?c \<noteq> CNew" "isNonEvent ?c"
    using assms(4,5) by (simp_all add: isNonEvent_def)
  define q where "q = removed a ?c ?p"
  have rm: "removeChannel True a ?p = Inr q" unfolding q_def by (rule removeChannel_eq [OF inv' st])
  have invq: "poller_inv None q" unfolding q_def by (rule removed_inv [OF inv' st(1,2)])
  have ch: "chans q = (chans (poller l))(a \<mapsto> c\<lparr> addToLoop := False, status := CNew \<rparr>)"
    and int: "interest q = (interest (poller l))(fd c := None)" by (simp_all add: q_def removed_def)
  have mp: "map_of (chmap q) = (map_of (chmap (poller l)))(fd c := None)"
    using inv by (simp add: q_def removed_def map_of_erase poller_inv_def)
  have "channel_remove tid a l = Inr (l\<lparr> poller := q \<rparr>)"
    using c assms(3,5,6) rm
    by (auto simp: channel_remove_def loop_removeChannel_def with_poller_def modify_chan_def isInLoopThread_def)
  moreover have "loop_inv (l\<lparr> poller := q \<rparr>)"
    using assms(1,5) c invq unfolding loop_inv_def chan_def
    by (auto simp: ch isNonEvent_def CNoneEvent_def)
  ultimately show ?thesis using ch int mp by blast
qed

section \<open>The interface a channel's owner relies on\<close>

text \<open>
  \<open>events_of\<close> is what the owner asked for, \<open>watched\<close> what the kernel was told. The law is about one
  call; the lemma about any sequence of calls.
\<close>

fun switch_all :: "('e \<Rightarrow> 'c \<Rightarrow> 'l \<Rightarrow> 'l res) \<Rightarrow> ('e \<times> 'c) list \<Rightarrow> 'l \<Rightarrow> 'l res" where
  "switch_all sw [] l = Inr l"
| "switch_all sw ((e, c) # es) l = bindE (sw e c l) (switch_all sw es)"

locale channel_registry =
  fixes invar :: "'l \<Rightarrow> bool"
    and member :: "'l \<Rightarrow> 'c \<Rightarrow> bool"
    and events_of :: "'l \<Rightarrow> 'c \<Rightarrow> 32 word"
    and watched :: "'l \<Rightarrow> 'c \<Rightarrow> 32 word option"
    and switch :: "event_change \<Rightarrow> 'c \<Rightarrow> 'l \<Rightarrow> 'l res"
  assumes switch_ok: "invar l \<Longrightarrow> member l c \<Longrightarrow>
      \<exists>l'. switch e c l = Inr l' \<and> invar l' \<and> member l' = member l \<and>
        events_of l' = (events_of l)(c := change_events e (events_of l c))"
    and in_step: "invar l \<Longrightarrow> member l c \<Longrightarrow> watched l c = Some (EPOLLET OR events_of l c) \<or>
        events_of l c = 0 \<and> watched l c = None"
begin

lemma switch_all_ok:
  "invar l \<Longrightarrow> \<forall>(e, c) \<in> set es. member l c \<Longrightarrow>
   \<exists>l'. switch_all switch es l = Inr l' \<and> invar l' \<and> member l' = member l \<and>
     (\<forall>c. events_of l' c = fold change_events (map fst (filter (\<lambda>p. snd p = c) es)) (events_of l c))"
proof (induction es arbitrary: l)
  case (Cons p es)
  obtain e c where p: "p = (e, c)" by (cases p)
  obtain l1 where l1: "switch e c l = Inr l1" "invar l1" "member l1 = member l"
      "events_of l1 = (events_of l)(c := change_events e (events_of l c))"
    using switch_ok [OF Cons.prems(1), of c e] Cons.prems(2) p by auto
  show ?case using Cons.IH [OF l1(2)] Cons.prems(2) p l1 by auto
qed simp

lemma switch_all_watched:
  assumes "invar l" "\<forall>(e, c) \<in> set es. member l c" "member l c"
  defines "m \<equiv> fold change_events (map fst (filter (\<lambda>p. snd p = c) es)) (events_of l c)"
  shows "\<exists>l'. switch_all switch es l = Inr l' \<and> invar l' \<and>
    (watched l' c = Some (EPOLLET OR m) \<or> m = 0 \<and> watched l' c = None)"
proof -
  obtain l' where "switch_all switch es l = Inr l'" "invar l'" "member l' = member l" "events_of l' c = m"
    using switch_all_ok [OF assms(1,2)] m_def by blast
  then show ?thesis using in_step [of l' c] assms(3) by auto
qed

end

definition loop_events :: "('f, 'w) event_loop \<Rightarrow> nat \<Rightarrow> 32 word" where
  "loop_events l a = (case chan l a of None \<Rightarrow> 0 | Some c \<Rightarrow> events c)"

definition loop_watched :: "('f, 'w) event_loop \<Rightarrow> nat \<Rightarrow> 32 word option" where
  "loop_watched l a = (case chan l a of None \<Rightarrow> None
     | Some c \<Rightarrow> map_option fst (interest (poller l) (fd c)))"

definition loop_member :: "('f, 'w) event_loop \<Rightarrow> nat \<Rightarrow> bool" where
  "loop_member l a \<longleftrightarrow> chan l a \<noteq> None"

text \<open>The operations of the loop called from its own thread provide the interface.\<close>

definition change_in_loop :: "event_change \<Rightarrow> nat \<Rightarrow> ('f, 'w) event_loop \<Rightarrow> ('f, 'w) event_loop res" where
  "change_in_loop e a l = change (threadId l) e a l"

lemma loop_in_step:
  assumes "loop_inv l" "chan l a = Some c"
  shows "loop_watched l a = Some (EPOLLET OR events c) \<or> events c = 0 \<and> loop_watched l a = None"
proof -
  have p: "interest (poller l) = kernel_view (poller l)"
    using assms(1) by (simp add: loop_inv_def poller_inv_interest)
  show ?thesis
  proof (cases "status c = CAdded")
    case True
    then have "map_of (chmap (poller l)) (fd c) = Some a"
      using assms by (auto simp: loop_inv_def poller_inv_def chan_def)
    then show ?thesis using True assms(2) p by (simp add: loop_watched_def kernel_view_def chan_def)
  next
    case False
    then have "events c = 0" using assms by (auto simp: loop_inv_def)
    moreover have "interest (poller l) (fd c) = None"
    proof (rule ccontr)
      assume "interest (poller l) (fd c) \<noteq> None"
      then obtain m b where "interest (poller l) (fd c) = Some (m, b)" by auto
      then obtain d where "chans (poller l) b = Some d" "fd d = fd c" "status d = CAdded"
        using watched_channel [of "poller l"] assms(1) unfolding loop_inv_def by blast
      moreover from this have "b = a" using loop_fd_inj [OF assms(1)] assms(2) by (simp add: chan_def)
      ultimately show False using assms(2) False by (simp add: chan_def)
    qed
    ultimately show ?thesis using assms(2) by (simp add: loop_watched_def)
  qed
qed

interpretation reg: channel_registry loop_inv loop_member loop_events loop_watched change_in_loop
proof (unfold_locales, goal_cases)
  case (1 l a e)
  then obtain c where c: "chan l a = Some c" by (auto simp: loop_member_def)
  obtain p where p: "change_in_loop e a l = Inr (l\<lparr> poller := p \<rparr>)" "loop_inv (l\<lparr> poller := p \<rparr>)"
      "chans p = (chans (poller l))(a \<mapsto> changed e c)"
    using change_ok [OF 1(1) c refl] by (auto simp: change_in_loop_def)
  then show ?case
    using c by (auto simp: loop_member_def loop_events_def chan_def fun_eq_iff)
next
  case (2 l a)
  then obtain c where "chan l a = Some c" by (auto simp: loop_member_def)
  then show ?case using loop_in_step [OF 2(1)] by (auto simp: loop_events_def)
qed

section \<open>Properties\<close>

text \<open>
  What the switches are called, on the two interests of a channel (input, output), and what the
  kernel is to watch for them. \<open>code_switch\<close> is \<open>named_switch\<close> with the one difference of the code:
  \<open>disableWrite\<close> stops the input and leaves the output.
\<close>

fun named_switch :: "event_change \<Rightarrow> bool \<times> bool \<Rightarrow> bool \<times> bool" where
  "named_switch EnableRead (r, w) = (True, w)"
| "named_switch DisableRead (r, w) = (False, w)"
| "named_switch EnableWrite (r, w) = (r, True)"
| "named_switch DisableWrite (r, w) = (r, False)"
| "named_switch DisableAll (r, w) = (False, False)"

definition code_switch :: "event_change \<Rightarrow> bool \<times> bool \<Rightarrow> bool \<times> bool" where
  "code_switch e f = (if e = DisableWrite then (False, snd f) else named_switch e f)"

definition interest_mask :: "bool \<times> bool \<Rightarrow> 32 word" where
  "interest_mask f = (if fst f then EPOLLIN OR EPOLLPRI OR EPOLLHUP else 0) OR (if snd f then EPOLLOUT else 0)"

definition watches :: "('f, 'w) event_loop \<Rightarrow> nat \<Rightarrow> bool \<times> bool \<Rightarrow> bool" where
  "watches l a f \<longleftrightarrow> loop_watched l a = Some (EPOLLET OR interest_mask f) \<or> f = (False, False) \<and> loop_watched l a = None"

definition switch_mask :: "bool \<times> bool \<Rightarrow> 32 word" where
  "switch_mask f = (if fst f then CReadEvent else 0) OR (if snd f then CWriteEvent else 0)"

lemma change_switch_mask: "change_events e (switch_mask f) = switch_mask (code_switch e f)"
  by (cases e; cases f) (auto simp: switch_mask_def code_switch_def change_events.simps channel_masks epoll_masks)

lemma fold_switch_mask: "fold change_events es (switch_mask f) = switch_mask (fold code_switch es f)"
  by (induction es arbitrary: f) (simp_all add: change_switch_mask)

lemma fold_named: "DisableWrite \<notin> set es \<Longrightarrow> fold code_switch es f = fold named_switch es f"
  by (induction es arbitrary: f) (auto simp: code_switch_def)

lemma watched_mask:
  "EPOLLET OR switch_mask f = EPOLLET OR interest_mask f" "switch_mask f = 0 \<longleftrightarrow> f = (False, False)"
  by (cases f; auto simp: switch_mask_def interest_mask_def channel_masks epoll_masks)+

lemma stopped_input:
  assumes "watches l a (fold code_switch es f)" "es \<noteq> []" "last es = DisableWrite" "loop_watched l a = Some m"
  shows "m AND (EPOLLIN OR EPOLLPRI) = 0"
proof -
  have "es = butlast es @ [DisableWrite]" using assms(2,3) append_butlast_last_id by metis
  then have "fold code_switch es f = (False, snd (fold code_switch (butlast es) f))"
    by (metis code_switch_def fold_append fold_simps comp_apply)
  then show ?thesis using assms(1,4) by (auto simp: watches_def interest_mask_def epoll_masks)
qed

text \<open>
  C13: whatever sequence of \<open>enableRead\<close>, \<open>disableRead\<close>, \<open>enableWrite\<close>, \<open>disableWrite\<close> and
  \<open>disableAll\<close> is called on the channels of a loop, no assertion fails and the invariant of the loop
  stays. If no \<open>disableWrite\<close> is among the calls for a channel, the kernel then watches it, edge
  triggered, for exactly the interests that its own calls leave by their names, or not at all when
  they leave none. \<open>disableWrite\<close> acts as if it were called to stop the input: whatever was called
  before, after it the kernel does not watch the channel for input, and the interest in output stays.
\<close>

theorem channel_switches_reach_kernel:
  assumes "loop_inv l" "\<forall>(e, a) \<in> set es. chan l a \<noteq> None" "chan l a = Some c" "events c = switch_mask f"
    "calls = map fst (filter (\<lambda>p. snd p = a) es)"
  shows "\<exists>l'. switch_all change_in_loop es l = Inr l' \<and> loop_inv l' \<and>
    (DisableWrite \<notin> set calls \<longrightarrow> watches l' a (fold named_switch calls f)) \<and>
    watches l' a (fold code_switch calls f) \<and>
    (calls \<noteq> [] \<and> last calls = DisableWrite \<longrightarrow> (\<forall>m. loop_watched l' a = Some m \<longrightarrow> m AND (EPOLLIN OR EPOLLPRI) = 0))"
proof -
  have "\<forall>(e, b) \<in> set es. loop_member l b" using assms(2) by (simp add: loop_member_def)
  moreover have "loop_member l a" "loop_events l a = events c"
    using assms(3) by (simp_all add: loop_member_def loop_events_def)
  ultimately obtain l' where l': "switch_all change_in_loop es l = Inr l'" "loop_inv l'"
      "loop_watched l' a = Some (EPOLLET OR switch_mask (fold code_switch calls f)) \<or>
       switch_mask (fold code_switch calls f) = 0 \<and> loop_watched l' a = None"
    using reg.switch_all_watched [OF assms(1), of es a] by (auto simp: assms(4,5) fold_switch_mask)
  then have "watches l' a (fold code_switch calls f)" by (auto simp: watches_def watched_mask)
  moreover from this have "\<forall>m. calls \<noteq> [] \<and> last calls = DisableWrite \<longrightarrow>
      loop_watched l' a = Some m \<longrightarrow> m AND (EPOLLIN OR EPOLLPRI) = 0"
    by (blast intro: stopped_input)
  ultimately show ?thesis using l'(1,2) by (intro exI [of _ l']) (simp add: fold_named [symmetric])
qed

definition bare_loop :: "'f poller \<Rightarrow> 'w \<Rightarrow> ('f, 'w) event_loop" where
  "bare_loop p u = \<lparr> quit = False, looping = False, eventHandling = False,
     callingPendingFunctor = False, threadId = 1, wakeupChannel = 0, wakeups = 0,
     currentActiveChannel = None, poller = p, activeChannels = [], pendingFunctor = [], world = u \<rparr>"

lemma new_loop_inv:
  assumes "\<And>a c. m a = Some c \<Longrightarrow> status c = CNew \<and> events c = 0"
    "\<And>a b c d. m a = Some c \<Longrightarrow> m b = Some d \<Longrightarrow> fd c = fd d \<Longrightarrow> a = b"
    "poller l = EpollPoller m"
  shows "loop_inv l"
proof -
  have "poller_inv None (EpollPoller m)" by (rule new_poller_inv) (use assms(1) in blast)
  then show ?thesis
    using assms by (auto simp: loop_inv_def chan_def EpollPoller_def)
qed

theorem channel_switches_reach_kernel_witness:
  "\<exists>l'. switch_all change_in_loop [(EnableRead, 7), (EnableWrite, 7), (EnableWrite, 8), (DisableWrite, 7)]
      (bare_loop (EpollPoller [7 \<mapsto> Channel 5, 8 \<mapsto> Channel 6]) () :: (nat, unit) event_loop) = Inr l' \<and>
    loop_watched l' 7 = Some (EPOLLET OR EPOLLOUT)"
proof -
  let ?l = "bare_loop (EpollPoller [7 \<mapsto> Channel 5, 8 \<mapsto> Channel 6]) () :: (nat, unit) event_loop"
  let ?es = "[(EnableRead, 7), (EnableWrite, 7), (EnableWrite, 8), (DisableWrite, 7)]"
  have inv: "loop_inv ?l"
    by (rule new_loop_inv [where m = "[7 \<mapsto> Channel 5, 8 \<mapsto> Channel 6]"])
      (auto simp: bare_loop_def Channel_def CNew_def split: if_splits)
  have c: "chan ?l 7 = Some (Channel 5)" "chan ?l 8 = Some (Channel 6)" "events (Channel 5) = switch_mask (False, False)"
    by (simp_all add: bare_loop_def chan_def EpollPoller_def Channel_def switch_mask_def)
  show ?thesis
    using channel_switches_reach_kernel [OF inv _ c(1,3) refl, of ?es] c(1,2)
    by (auto simp: watches_def code_switch_def interest_mask_def)
qed

lemma wakeup_same [simp]: "wakeup l = l"
  by (simp add: wakeup_def eventfd_write_def sizeof_int_def)

lemma queueInLoop_eq [simp]: "queueInLoop tid f l = l\<lparr> pendingFunctor := pendingFunctor l @ [f] \<rparr>"
  by (simp add: queueInLoop_def Let_def)

lemma queue_all:
  "foldl (\<lambda>l g. queueInLoop tid g l) l gs = l\<lparr> pendingFunctor := pendingFunctor l @ gs \<rparr>"
  by (induction gs arbitrary: l) simp_all

lemma run_all_spawning:
  assumes "\<And>f l. run f l = Inr (foldl (\<lambda>l g. queueInLoop tid g l) (l\<lparr> world := jot f (world l) \<rparr>) (spawn f))"
  shows "run_all run fs l = Inr (l\<lparr> world := fold jot fs (world l),
    pendingFunctor := pendingFunctor l @ concat (map spawn fs) \<rparr>)"
  by (induction fs arbitrary: l) (simp_all only: run_all.simps assms queue_all bindE_Inr, simp_all)

text \<open>
  C26: \<open>doPendingFunctors\<close> runs exactly the functors that were queued when it was called, each
  once and in the order of queueing. What they queue themselves (\<open>spawn\<close>) is not run now but waits,
  in order, for the next call; nothing is lost.
\<close>

theorem pending_functors_in_order:
  assumes "\<forall>f l. run f l =
    Inr (foldl (\<lambda>l g. queueInLoop tid g l) (l\<lparr> world := jot f (world l) \<rparr>) (spawn f))"
  shows "doPendingFunctors run l = Inr (l\<lparr> world := fold jot (pendingFunctor l) (world l),
    pendingFunctor := concat (map spawn (pendingFunctor l)), callingPendingFunctor := False \<rparr>)"
  by (simp add: doPendingFunctors_def Let_def run_all_spawning [of run tid jot spawn, OF assms [rule_format]])

theorem pending_functors_in_order_witness:
  "doPendingFunctors (\<lambda>f l. Inr (foldl (\<lambda>l g. queueInLoop 1 g l) (l\<lparr> world := world l @ [f] \<rparr>) [f + 10]))
     ((bare_loop (EpollPoller (\<lambda>_. None)) [])\<lparr> pendingFunctor := [1, 2 :: nat] \<rparr>) =
   Inr ((bare_loop (EpollPoller (\<lambda>_. None)) [1, 2])\<lparr> pendingFunctor := [11, 12] \<rparr>)"
  using pending_functors_in_order [of
      "\<lambda>f l. Inr (foldl (\<lambda>l g. queueInLoop 1 g l) (l\<lparr> world := world l @ [f] \<rparr>) [f + 10])" 1
      "\<lambda>f w. w @ [f]" "\<lambda>f. [f + 10]"
      "(bare_loop (EpollPoller (\<lambda>_. None)) [])\<lparr> pendingFunctor := [1, 2 :: nat] \<rparr>"]
  by (simp add: bare_loop_def)

text \<open>
  Neither \<open>queueInLoop\<close> from another thread nor \<open>quit\<close> ever makes the event descriptor
  readable, since \<open>wakeup\<close> writes 4 bytes where 8 are required: starting from no wake-up, the
  counter stays 0, and the loop sees the functor, or the request to quit, only after
  \<open>epoll_wait\<close> returns for another reason.
\<close>

lemma wakeup_never_signals:
  "wakeups (wakeup l) = wakeups l \<and> wakeups (queueInLoop tid f l) = wakeups l \<and>
   wakeups (loop_quit tid l) = wakeups l \<and> wakeups (loop_handleRead l) = wakeups l"
  by (simp_all add: loop_quit_def Let_def loop_handleRead_def eventfd_read_def sizeof_int_def)

text \<open>The callbacks \<open>handleEvent\<close> should run for the received events, in order.\<close>

definition ready_callbacks :: "'f channel \<Rightarrow> 'f list" where
  "ready_callbacks c = concat (map (\<lambda>(bits, cb). if rcvEvents c AND bits \<noteq> 0 then
       (case cb of None \<Rightarrow> [] | Some f \<Rightarrow> [f]) else [])
     [(EPOLLHUP, closeCB c), (EPOLLERR, errorCB c), (EPOLLIN OR EPOLLPRI, readCB c), (EPOLLOUT, writeCB c)])"

lemma run_all_append: "run_all run (fs @ gs) l = bindE (run_all run fs l) (run_all run gs)"
  by (induction fs arbitrary: l) (simp_all add: bindE_def split: sum.split)

text \<open>What of a channel decides which callbacks run. A callback may change all the rest of it.\<close>

definition same_slots :: "'f channel \<Rightarrow> 'f channel \<Rightarrow> bool" where
  "same_slots c d \<longleftrightarrow> rcvEvents d = rcvEvents c \<and> closeCB d = closeCB c \<and> errorCB d = errorCB c \<and>
     readCB d = readCB c \<and> writeCB d = writeCB c"

definition keeps_slots :: "('f \<Rightarrow> ('f, 'w) event_loop \<Rightarrow> ('f, 'w) event_loop res) \<Rightarrow> nat \<Rightarrow> 'f channel \<Rightarrow> 'f \<Rightarrow> bool" where
  "keeps_slots run a c f \<longleftrightarrow> (\<forall>k k' d. chan k a = Some d \<longrightarrow> same_slots c d \<longrightarrow> run f k = Inr k' \<longrightarrow>
     (\<exists>d'. chan k' a = Some d' \<and> same_slots c d'))"

lemma run_all_keeps:
  assumes "\<forall>f \<in> set fs. keeps_slots run a c f" "chan l a = Some d" "same_slots c d" "run_all run fs l = Inr l'"
  shows "\<exists>d'. chan l' a = Some d' \<and> same_slots c d'"
  using assms
proof (induction fs arbitrary: l d)
  case (Cons f fs)
  obtain k where k: "run f l = Inr k" "run_all run fs k = Inr l'"
    using Cons.prems(4) by (auto elim!: bindE_InrE)
  obtain d' where "chan k a = Some d'" "same_slots c d'"
    using Cons.prems(1-3) k(1) unfolding keeps_slots_def by (metis list.set_intros(1))
  then show ?case using Cons.IH [of k d'] Cons.prems(1) k(2) by simp
qed auto

lemma dispatch_eq:
  "chan l a = Some c \<Longrightarrow> dispatch run a bits slot l =
   run_all run (if rcvEvents c AND bits \<noteq> 0 then (case slot c of None \<Rightarrow> [] | Some f \<Rightarrow> [f]) else []) l"
  by (auto simp: dispatch_def chan_def bindE_def split: option.split sum.split)

lemma dispatch_slots:
  assumes "\<forall>f \<in> set fs. keeps_slots run a c f" "chan l a = Some d" "same_slots c d"
    "\<And>d. same_slots c d \<Longrightarrow> slot d = slot c"
  shows "bindE (run_all run fs l) (dispatch run a bits slot) = run_all run (fs @
    (if rcvEvents c AND bits \<noteq> 0 then (case slot c of None \<Rightarrow> [] | Some f \<Rightarrow> [f]) else [])) l"
proof -
  have "dispatch run a bits slot k =
      run_all run (if rcvEvents c AND bits \<noteq> 0 then (case slot c of None \<Rightarrow> [] | Some f \<Rightarrow> [f]) else []) k"
    if run: "run_all run fs l = Inr k" for k
  proof -
    obtain d' where d': "chan k a = Some d'" "same_slots c d'"
      using run_all_keeps [OF assms(1-3) run] by blast
    then show ?thesis using dispatch_eq [OF d'(1)] assms(4) [OF d'(2)] by (simp add: same_slots_def)
  qed
  then show ?thesis unfolding run_all_append by (auto simp: bindE_def split: sum.split)
qed

text \<open>
  C27: for a channel whose owner is alive, \<open>handleEvent\<close> runs exactly the callbacks that the received
  events ask for, in the order close, error, read, write, until one of them fails, and then clears its
  guard flag; for a channel whose owner is gone it runs nothing. The callbacks may change the loop, the
  world, and the events and the status of the channel itself, as the close callback of a connection does;
  they must not delete the channel, replace its callbacks or poll in between. Those of the HTTP server do
  not (lemma \<open>http_callbacks_keep_slots\<close> in ServerCallbacks).
\<close>

theorem handleEvent_runs_ready_callbacks:
  assumes "chan l a = Some c" "\<forall>f \<in> set (ready_callbacks c). keeps_slots run a c f"
  shows "handleEvent run alive a l =
    (if tied c \<and> \<not> alive l (owner c) then Inr l
     else bindE (bindE (with_poller (modify_chan a (\<lambda>c. c\<lparr> ch_handling := True \<rparr>)) l)
       (run_all run (ready_callbacks c))) (with_poller (modify_chan a (\<lambda>c. c\<lparr> ch_handling := False \<rparr>))))"
proof -
  define sel where "sel bits cb = (if rcvEvents c AND bits \<noteq> 0 then
     (case cb of None \<Rightarrow> [] | Some f \<Rightarrow> [f]) else [])" for bits and cb :: "'a option"
  have rc: "ready_callbacks c = sel EPOLLHUP (closeCB c) @ sel EPOLLERR (errorCB c) @
      sel (EPOLLIN OR EPOLLPRI) (readCB c) @ sel EPOLLOUT (writeCB c)"
    by (simp add: ready_callbacks_def sel_def)
  obtain l1 where l1: "with_poller (modify_chan a (\<lambda>c. c\<lparr> ch_handling := True \<rparr>)) l = Inr l1"
      "chan l1 a = Some (c\<lparr> ch_handling := True \<rparr>)"
    using assms(1) by (simp add: with_poller_def modify_chan_def chan_def)
  have c1: "same_slots c (c\<lparr> ch_handling := True \<rparr>)" by (simp add: same_slots_def)
  have d: "bindE (run_all run fs l1) (dispatch run a bits slot) = run_all run (fs @ sel bits (slot c)) l1"
    if "set fs \<subseteq> set (ready_callbacks c)" "\<And>d. same_slots c d \<Longrightarrow> slot d = slot c" for fs bits slot
    unfolding sel_def by (rule dispatch_slots [where slot = slot, OF _ l1(2) c1 that(2)]) (use assms(2) that(1) in auto)
  let ?f1 = "sel EPOLLHUP (closeCB c)" and ?f2 = "sel EPOLLERR (errorCB c)" and ?f3 = "sel (EPOLLIN OR EPOLLPRI) (readCB c)"
  have d1: "dispatch run a EPOLLHUP closeCB l1 = run_all run ?f1 l1"
    using d [of "[]" closeCB EPOLLHUP] by (simp only: run_all.simps bindE_Inr append_Nil empty_subsetI list.set same_slots_def)
  have d2: "bindE (run_all run ?f1 l1) (dispatch run a EPOLLERR errorCB) = run_all run (?f1 @ ?f2) l1"
    by (rule d) (auto simp: rc same_slots_def)
  have d3: "bindE (run_all run (?f1 @ ?f2) l1) (dispatch run a (EPOLLIN OR EPOLLPRI) readCB) = run_all run ((?f1 @ ?f2) @ ?f3) l1"
    by (rule d) (auto simp: rc same_slots_def)
  have d4: "bindE (run_all run ((?f1 @ ?f2) @ ?f3) l1) (dispatch run a EPOLLOUT writeCB) = run_all run (ready_callbacks c) l1"
    unfolding rc append_assoc [symmetric] by (rule d) (auto simp: rc same_slots_def)
  note X = d4 [folded d3, folded d2, folded d1]
  have "handleEventWithGuard run a l = bindE (run_all run (ready_callbacks c) l1)
      (with_poller (modify_chan a (\<lambda>c. c\<lparr> ch_handling := False \<rparr>)))"
    unfolding X [symmetric] by (simp add: handleEventWithGuard_def l1(1) bindE_assoc)
  then show ?thesis
    using assms(1) l1(1) by (simp add: handleEvent_def chan_def)
qed

text \<open>The callbacks of the witness: closing switches the channel off, reading only leaves its mark.\<close>

definition demo_call :: "string \<Rightarrow> (string, string list) event_loop \<Rightarrow> (string, string list) event_loop res" where
  "demo_call f l = bindE (if f = ''close'' then with_poller (modify_chan 7 (\<lambda>c. c\<lparr> events := 0, status := CDeleted \<rparr>)) l
     else Inr l) (\<lambda>l. Inr (l\<lparr> world := world l @ [f] \<rparr>))"

theorem handleEvent_runs_ready_callbacks_witness:
  fixes c :: "string channel"
  defines "c \<equiv> (Channel 5)\<lparr> rcvEvents := EPOLLIN OR EPOLLHUP, events := CReadEvent, status := CAdded, readCB := Some ''read'',
      writeCB := Some ''write'', closeCB := Some ''close'' \<rparr>"
  shows "map_option (\<lambda>l. (world l, map_option events (chan l 7)))
    (case handleEvent demo_call (\<lambda>_ _. True) 7 (bare_loop (EpollPoller [7 \<mapsto> c]) []) of Inr l \<Rightarrow> Some l | Inl _ \<Rightarrow> None) =
    Some ([''close'', ''read''], Some 0)"
proof -
  let ?l = "bare_loop (EpollPoller [7 \<mapsto> c]) [] :: (string, string list) event_loop"
  have "chan ?l 7 = Some c" by (simp add: chan_def bare_loop_def EpollPoller_def)
  moreover have "ready_callbacks c = [''close'', ''read'']" "\<not> tied c"
    by (simp_all add: ready_callbacks_def c_def Channel_def epoll_masks)
  moreover have "keeps_slots demo_call 7 c f" for f
    by (auto simp: keeps_slots_def demo_call_def with_poller_def modify_chan_def chan_def same_slots_def)
  ultimately show ?thesis
    using handleEvent_runs_ready_callbacks [of ?l 7 c demo_call "\<lambda>_ _. True"]
    by (simp add: chan_def with_poller_def modify_chan_def bare_loop_def EpollPoller_def demo_call_def)
qed

text \<open>A new loop has one channel, for its event descriptor.\<close>

lemma EventLoop_new:
  assumes "efd > 0"
  obtains l where "EventLoop tid efd w hr u = Inr l" "loop_inv l" "threadId l = tid" "world l = u"
    "pendingFunctor l = []" "\<not> eventHandling l" "chan l = [w \<mapsto> changed EnableRead (setReadCB hr (Channel efd))]"
proof -
  let ?c = "setReadCB hr (Channel efd)"
  define l0 where "l0 = \<lparr> quit = False, looping = False, eventHandling = False, callingPendingFunctor = False,
             threadId = tid, wakeupChannel = w, wakeups = 0, currentActiveChannel = None,
             poller = EpollPoller [w \<mapsto> ?c], activeChannels = [], pendingFunctor = [], world = u \<rparr>"
  have inv0: "loop_inv l0"
    by (rule new_loop_inv [where m = "[w \<mapsto> ?c]"])
      (auto simp: l0_def Channel_def CNew_def setReadCB_def split: if_splits)
  have c0: "chan l0 w = Some ?c" by (simp add: chan_def l0_def EpollPoller_def)
  obtain p where p: "change tid EnableRead w l0 = Inr (l0\<lparr> poller := p \<rparr>)" "loop_inv (l0\<lparr> poller := p \<rparr>)"
      "chans p = (chans (poller l0))(w \<mapsto> changed EnableRead ?c)"
    using change_ok [OF inv0 c0, of tid EnableRead] by (auto simp: l0_def)
  have run: "EventLoop tid efd w hr u = Inr (l0\<lparr> poller := p \<rparr>)"
    using assms p(1) by (simp add: EventLoop_def Let_def with_poller_def modify_chan_def EpollPoller_def l0_def)
  show thesis
    by (rule that [OF run p(2)]) (simp_all add: l0_def chan_def p(3) EpollPoller_def fun_eq_iff)
qed

text \<open>
  The constructor gives a loop that satisfies the invariant and watches its event descriptor
  for reading (edge triggered) and nothing else; the destructor of such a loop, called in the loop's
  thread, passes all assertions and leaves neither the map nor the kernel's list with an entry.
\<close>

lemma loop_construction_destruction:
  assumes "efd > 0"
  shows "\<exists>l. EventLoop tid efd w hr u = Inr l \<and> loop_inv l \<and> threadId l = tid \<and>
      loop_watched l w = Some CReadEvent \<and>
      (\<exists>l'. EventLoop_dtor tid l = Inr l' \<and> loop_inv l' \<and> interest (poller l') = (\<lambda>_. None) \<and>
        chmap (poller l') = [])"
proof -
  let ?c = "setReadCB hr (Channel efd)"
  define l0 where "l0 = \<lparr> quit = False, looping = False, eventHandling = False, callingPendingFunctor = False,
             threadId = tid, wakeupChannel = w, wakeups = 0, currentActiveChannel = None,
             poller = EpollPoller [w \<mapsto> ?c], activeChannels = [], pendingFunctor = [],
             world = u \<rparr>"
  have inv0: "loop_inv l0"
    by (rule new_loop_inv [where m = "[w \<mapsto> ?c]"])
      (auto simp: l0_def Channel_def CNew_def setReadCB_def split: if_splits)
  have c0: "chan l0 w = Some ?c" by (simp add: chan_def l0_def EpollPoller_def)
  have e0: "events ?c = 0" "status ?c = CNew" "fd ?c = efd"
    by (simp_all add: Channel_def setReadCB_def CNew_def)
  let ?c1 = "changed EnableRead ?c"
  have st1: "status ?c1 = CAdded" and ev1: "events ?c1 = CReadEvent"
    using e0 by (simp_all add: changed_def change_events.simps)
  have et: "EPOLLET OR CReadEvent = CReadEvent" by (simp add: channel_masks epoll_masks)
  obtain p where p: "change tid EnableRead w l0 = Inr (l0\<lparr> poller := p \<rparr>)" "loop_inv (l0\<lparr> poller := p \<rparr>)"
      "chans p = (chans (poller l0))(w \<mapsto> ?c1)"
      "map_of (chmap p) = (map_of (chmap (poller l0)))(efd \<mapsto> w)"
      "interest p = (interest (poller l0))(efd \<mapsto> (CReadEvent, w))"
    using change_ok [OF inv0 c0, of tid EnableRead] st1 ev1 et e0(3) by (auto simp: l0_def)
  define l1 where "l1 = l0\<lparr> poller := p \<rparr>"
  have c1: "chan l1 w = Some ?c1" and inv1: "loop_inv l1" and th: "threadId l1 = tid"
    using p by (simp_all add: chan_def l1_def l0_def)
  have "EventLoop tid efd w hr u = Inr l1"
    using assms p(1) by (simp add: EventLoop_def Let_def with_poller_def modify_chan_def EpollPoller_def
        l0_def l1_def)
  moreover have "loop_watched l1 w = Some CReadEvent"
    using c1 p(5) e0(3) by (simp add: loop_watched_def l1_def l0_def)
  moreover have "\<exists>l'. EventLoop_dtor tid l1 = Inr l' \<and> loop_inv l' \<and> interest (poller l') = (\<lambda>_. None) \<and>
        chmap (poller l') = []"
  proof -
    let ?c2 = "changed DisableAll ?c1"
    have c2: "status ?c2 = CDeleted" "events ?c2 = 0" "fd ?c2 = efd"
      using st1 e0(3) by (simp_all add: changed_def change_events.simps CNoneEvent_def)
    obtain q where q: "change tid DisableAll w l1 = Inr (l1\<lparr> poller := q \<rparr>)" "loop_inv (l1\<lparr> poller := q \<rparr>)"
        "chans q = (chans p)(w \<mapsto> ?c2)" "map_of (chmap q) = (map_of (chmap p))(efd \<mapsto> w)"
        "interest q = (\<lambda>_. None)"
      using change_ok [OF inv1 c1 th, of DisableAll] c2 p(5) e0(3)
      by (auto simp: l1_def l0_def EpollPoller_def fun_eq_iff)
    let ?c3 = "?c2\<lparr> addToLoop := False \<rparr>"
    let ?q = "q\<lparr> chans := (chans q)(w \<mapsto> ?c3) \<rparr>"
    have "poller_inv None q" using q(2) by (simp add: loop_inv_def)
    then have "poller_inv (Some w) ?q"
      by (rule poller_inv_channel) (simp_all add: q(3))
    moreover have "interest ?q = kernel_view ?q"
      using q(4,5) c2 p(4) by (auto simp: kernel_view_def fun_eq_iff l0_def EpollPoller_def)
    ultimately have inv: "poller_inv None ?q" by (simp add: poller_inv_def)
    have ch: "chans ?q w = Some ?c3" by simp
    have st3: "status ?c3 \<noteq> CNew" "isNonEvent ?c3" using c2 by (simp_all add: isNonEvent_def CNoneEvent_def)
    have rm: "removeChannel True w ?q = Inr (removed w ?c3 ?q)" by (rule removeChannel_eq [OF inv ch st3])
    have "chmap q = [(efd, w)]"
    proof (rule keys_sorted_canonical)
      show "keys_sorted (chmap q)" using inv by (simp add: poller_inv_def)
      show "map_of (chmap q) = map_of [(efd, w)]" using q(4) p(4) by (simp add: l0_def EpollPoller_def)
    qed simp
    then have gone: "chmap (removed w ?c3 ?q) = []" "interest (removed w ?c3 ?q) = (\<lambda>_. None)"
      using c2(3) q(5) by (simp_all add: removed_def)
    let ?l = "l1\<lparr> poller := removed w ?c3 ?q \<rparr>"
    have "EventLoop_dtor tid l1 = Inr ?l"
      using q(1,3) rm st3(2)
      by (simp add: EventLoop_dtor_def channel_remove_def loop_removeChannel_def with_poller_def
          modify_chan_def isInLoopThread_def l1_def l0_def isNonEvent_def)
    moreover have "loop_inv ?l"
    proof -
      have "chans (poller ?l) = [w \<mapsto> ?c3\<lparr> status := CNew \<rparr>]"
        by (simp add: removed_def q(3) p(3) l0_def EpollPoller_def)
      then show ?thesis
        using removed_inv [OF inv ch st3(1)] c2(2) by (auto simp: loop_inv_def chan_def split: if_splits)
    qed
    ultimately show ?thesis using gone by auto
  qed
  ultimately show ?thesis using inv1 th by blast
qed

lemma loop_construction_destruction_witness:
  "\<exists>l. EventLoop 1 (5 :: int) 7 () () = Inr l \<and> loop_inv l \<and> threadId l = 1 \<and>
      loop_watched l 7 = Some CReadEvent \<and>
      (\<exists>l'. EventLoop_dtor 1 l = Inr l' \<and> loop_inv l' \<and> interest (poller l') = (\<lambda>_. None) \<and>
        chmap (poller l') = [])"
  by (rule loop_construction_destruction) simp

end
