(* ===== verification/HttpRequest.thy ===== *)
theory HttpRequest
  imports HttpTypes StdMap
begin

text \<open>
  src/HttpRequest.h and src/HttpRequest.cc: the request a parser fills in. A pair of pointers
  \<open>begin\<close>, \<open>end\<close> into the buffer is the list of characters between them, except in \<open>addHeader\<close>,
  which reads past \<open>end\<close> and gets the buffer and the positions.
\<close>

record http_request =
  requestCode :: http_code
  req_method :: string
  path :: string
  query :: string
  req_version :: string
  headers :: "(string, string) std_map"

definition HttpRequest :: http_request where
  "HttpRequest = \<lparr> requestCode = NO_REQUEST, req_method = [], path = [], query = [],
     req_version = [], headers = [] \<rparr>"

definition setMethod :: "string \<Rightarrow> http_request \<Rightarrow> bool \<times> http_request" where
  "setMethod r q = (r \<noteq> [], q\<lparr> req_method := r \<rparr>)"

definition setPath :: "string \<Rightarrow> http_request \<Rightarrow> bool \<times> http_request" where
  "setPath r q = (r \<noteq> [], q\<lparr> path := r \<rparr>)"

definition setVersion :: "string \<Rightarrow> http_request \<Rightarrow> bool \<times> http_request" where
  "setVersion r q = (r \<noteq> [], q\<lparr> req_version := r \<rparr>)"

definition setQuery :: "string \<Rightarrow> http_request \<Rightarrow> bool \<times> http_request" where
  "setQuery r q = (r \<noteq> [], q\<lparr> query := r \<rparr>)"

definition setRequestCode :: "http_code \<Rightarrow> http_request \<Rightarrow> http_request" where
  "setRequestCode c q = q\<lparr> requestCode := c \<rparr>"

text \<open>
  \<open>while (begin < end && isspace( *colon)) ++colon\<close>: the first conjunct does not change in the
  loop, so only the character ends it.
\<close>

function skip_space :: "string \<Rightarrow> nat \<Rightarrow> nat res" where
  "skip_space b i = bindE (rd b i) (\<lambda>c. if isspace c then skip_space b (i + 1) else Inr i)"
  by pat_completeness auto
termination
  by (relation "measure (\<lambda>(b, i). length b - i)") (auto simp: rd_eq_Inr)

declare skip_space.simps [simp del]

text \<open>
  \<open>value.reserve(value.size() - 1)\<close> may give memory back; it never changes the characters.
\<close>

definition reserve :: "string \<Rightarrow> nat \<Rightarrow> string" where
  "reserve v n = v"

partial_function (option) trim_value :: "string \<Rightarrow> string option" where
  [code]: "trim_value v =
     (if v \<noteq> [] \<and> isspace (last v) then trim_value (reserve v (length v - 1)) else Some v)"

text \<open>
  \<open>start\<close> (the source's \<open>begin\<close>), \<open>colon\<close> and \<open>endp\<close> are positions in the buffer \<open>b\<close>; \<open>std::string value(colon, n)\<close>
  throws when \<open>n = end - colon\<close> is a negative number read as a \<open>size_t\<close>.
\<close>

definition addHeader :: "string \<Rightarrow> nat \<Rightarrow> nat \<Rightarrow> nat \<Rightarrow> http_request \<Rightarrow> (bool \<times> http_request) res" where
  "addHeader b start colon endp q =
     bindE (slice b start (colon - start)) (\<lambda>key.
       bindE (if start < endp then skip_space b (colon + 1) else Inr (colon + 1)) (\<lambda>colon.
         if endp < colon then Inl Thrown
         else bindE (slice b colon (endp - colon)) (\<lambda>val.
           case trim_value val of
             None \<Rightarrow> Inl Diverges
           | Some val \<Rightarrow> Inr (True, q\<lparr> headers := put key val (headers q) \<rparr>))))"

text \<open>
  \<open>getHeader\<close>: the \<open>if\<close> that compares with \<open>end()\<close> has an empty body, so \<open>it->second\<close> is read
  whatever \<open>find\<close> returned.
\<close>

definition getHeader :: "string \<Rightarrow> http_request \<Rightarrow> string res" where
  "getHeader key q = (case map_of (headers q) key of None \<Rightarrow> Inl Dangling | Some v \<Rightarrow> Inr v)"

definition reset_request :: "http_request \<Rightarrow> http_request" where
  "reset_request q = q\<lparr> requestCode := NO_REQUEST, req_method := [], path := [], query := [],
     req_version := [], headers := [] \<rparr>"

section \<open>What the loops compute\<close>

lemma trim_value_stays: "trim_value v = Some w \<Longrightarrow> w = v \<and> \<not> (v \<noteq> [] \<and> isspace (last v))"
  by (erule trim_value.raw_induct [rotated]) (auto simp: reserve_def split: if_splits)

lemma trim_value_eq: "trim_value v = (if v \<noteq> [] \<and> isspace (last v) then None else Some v)"
proof (cases "v \<noteq> [] \<and> isspace (last v)")
  case True
  then show ?thesis using trim_value_stays by (cases "trim_value v") auto
next
  case False
  then show ?thesis by (subst trim_value.simps) auto
qed

lemma skip_space_at:
  "i < length b \<Longrightarrow> \<not> isspace (b ! i) \<Longrightarrow> skip_space b i = Inr i"
  by (simp add: skip_space.simps [of b i])

lemma skip_space_spec:
  assumes "i \<le> n" "n < length b" "\<not> isspace (b ! n)"
  shows "skip_space b i = Inr (i + length (takeWhile isspace (take (n - i) (drop i b))))"
  using assms(1)
proof (induction "n - i" arbitrary: i)
  case 0
  then show ?case using assms by (simp add: skip_space_at)
next
  case (Suc k)
  then have "k = n - (i + 1)" "i + 1 \<le> n" "i < length b" using assms(2) by simp_all
  moreover have "take (n - i) (drop i b) = b ! i # take (n - (i + 1)) (drop (i + 1) b)"
    using \<open>i < length b\<close> Suc.hyps(2) \<open>k = n - (i + 1)\<close>
    by (metis Cons_nth_drop_Suc Suc_eq_plus1 take_Suc_Cons)
  ultimately show ?case
    using Suc.hyps(1) [of "i + 1"] by (simp add: skip_space.simps [of b i])
qed

text \<open>\<open>addHeader\<close> on a line whose end holds a character that is no white space.\<close>

definition header_value :: "string \<Rightarrow> string" where
  "header_value v = dropWhile isspace v"

lemma addHeader_spec:
  assumes "start \<le> colon" "colon < endp" "endp < length b" "\<not> isspace (b ! endp)"
  shows "addHeader b start colon endp q =
    (let key = take (colon - start) (drop start b);
         val = header_value (take (endp - (colon + 1)) (drop (colon + 1) b))
     in if val \<noteq> [] \<and> isspace (last val) then Inl Diverges
        else Inr (True, q\<lparr> headers := put key val (headers q) \<rparr>))"
proof -
  define raw where "raw = take (endp - Suc colon) (drop (Suc colon) b)"
  define n where "n = length (takeWhile isspace raw)"
  have len: "length raw = endp - (colon + 1)" using assms by (simp add: raw_def)
  have le: "n \<le> length raw" by (simp add: n_def length_takeWhile_le)
  have skip: "skip_space b (colon + 1) = Inr (colon + 1 + n)"
    using skip_space_spec [of "colon + 1" endp b] assms by (simp add: n_def raw_def)
  have "take (endp - (colon + 1 + n)) (drop (colon + 1 + n) b) = drop n raw"
    using le len by (simp add: raw_def drop_take add.commute)
  then have "slice b (colon + 1 + n) (endp - (colon + 1 + n)) = Inr (header_value raw)"
    using le len assms by (simp add: slice_def header_value_def dropWhile_eq_drop n_def)
  moreover have "\<not> endp < colon + 1 + n" using le len assms by simp
  ultimately show ?thesis
    using assms skip by (simp add: addHeader_def trim_value_eq Let_def raw_def [symmetric])
qed

end
