(* ===== verification/HttpContext.thy ===== *)
theory HttpContext
  imports HttpRequest
begin

text \<open>
  src/HttpContext.h and src/HttpContext.cc: the request parser of the server. \<open>buf\<close> is the read
  buffer of the connection (\<open>None\<close> is \<open>nullptr\<close>), which the parser writes its zeros into.
\<close>

section \<open>The parser\<close>

record http_context =
  buf :: "string option"
  readIdx :: nat
  checkedIdx :: nat
  startLine :: nat
  httpCode :: http_code
  checkState :: check_state
  request :: http_request

text \<open>The constructor leaves \<open>buf_\<close> and \<open>readIdx_\<close> as they are.\<close>

definition HttpContext :: "string option \<Rightarrow> nat \<Rightarrow> http_context" where
  "HttpContext b r = \<lparr> buf = b, readIdx = r, checkedIdx = 0, startLine = 0,
     httpCode = NO_REQUEST, checkState = CHECK_STATE_REQUESTLINE, request = HttpRequest \<rparr>"

definition setBuffer :: "string \<Rightarrow> nat \<Rightarrow> http_context \<Rightarrow> http_context" where
  "setBuffer b s x = x\<lparr> buf := Some b, readIdx := s \<rparr>"

definition reset_context :: "http_context \<Rightarrow> http_context" where
  "reset_context x = x\<lparr> buf := None, readIdx := 0, checkedIdx := 0, startLine := 0,
     httpCode := NO_REQUEST, checkState := CHECK_STATE_REQUESTLINE,
     request := reset_request (request x) \<rparr>"

definition getLine :: "http_context \<Rightarrow> nat" where
  "getLine x = startLine x"

definition parseLine :: "http_context \<Rightarrow> (line_status \<times> http_context) res" where
  "parseLine x = (case buf x of
     None \<Rightarrow> if checkedIdx x < readIdx x then Inl Null_Deref else Inr (LINE_OPEN, x)
   | Some b \<Rightarrow> bindE (parse_line b (readIdx x) (checkedIdx x)) (\<lambda>(s, b, c).
       Inr (s, x\<lparr> buf := Some b, checkedIdx := c \<rparr>)))"

text \<open>The characters from \<open>text\<close> to \<open>text + len\<close>.\<close>

definition text_range :: "http_context \<Rightarrow> nat \<Rightarrow> int \<Rightarrow> string res" where
  "text_range x text len = (case buf x of None \<Rightarrow> Inl Null_Deref
     | Some b \<Rightarrow> if len < 0 then Inl Out_Of_Bounds else slice b text (nat len))"

definition parseRequestLine :: "http_context \<Rightarrow> nat \<Rightarrow> int \<Rightarrow> (http_code \<times> http_context) res" where
  "parseRequestLine x text len = bindE (text_range x text len) (\<lambda>line.
     let space = from_char SP line in
     if space \<noteq> [] then
       let (ok, q) = setMethod (before SP line) (request x); x = x\<lparr> request := q \<rparr> in
       if ok then
         let begin1 = tl space; space = from_char SP begin1; target = before SP begin1 in
         if space \<noteq> [] then
           let question = from_char (CHR ''?'') target;
               q = (if question \<noteq> []
                    then snd (setQuery question (snd (setPath (before (CHR ''?'') target) (request x))))
                    else snd (setPath target (request x)));
               x = x\<lparr> request := q \<rparr>;
               begin2 = tl space in
           if length begin2 = 8 \<and> butlast begin2 = ''HTTP/1.'' then
             Inr (GET_REQUEST, x\<lparr> request := snd (setVersion begin2 (request x)),
               checkState := CHECK_STATE_HEADER \<rparr>)
           else Inr (BAD_REQUEST, x)
         else Inr (BAD_REQUEST, x)
       else Inr (BAD_REQUEST, x)
     else Inr (BAD_REQUEST, x))"

definition parseHeader :: "http_context \<Rightarrow> nat \<Rightarrow> int \<Rightarrow> (http_code \<times> http_context) res" where
  "parseHeader x text len = bindE (text_range x text len) (\<lambda>line.
     let colon = from_char (CHR '':'') line in
     if colon \<noteq> [] then
       bindE (addHeader (the (buf x)) text (text + length (before (CHR '':'') line))
                (text + nat len) (request x)) (\<lambda>(ok, q).
         let x = x\<lparr> request := q \<rparr> in
         if ok then Inr (GET_REQUEST, x) else Inr (BAD_REQUEST, x))
     else Inr (GET_REQUEST, x\<lparr> checkState := CHECK_STATE_CONTENT \<rparr>))"

definition parseBody :: "http_context \<Rightarrow> nat \<Rightarrow> int \<Rightarrow> (http_code \<times> http_context) res" where
  "parseBody x text len = Inr (GET_REQUEST, x)"

definition set_code :: "http_code \<Rightarrow> http_context \<Rightarrow> http_context" where
  "set_code c x = x\<lparr> request := setRequestCode c (request x) \<rparr>"

section \<open>What a step of the parser keeps\<close>

lemma parseLine_progress:
  assumes "parseLine x = Inr (s, y)"
  shows "readIdx y = readIdx x" "checkState y = checkState x" "startLine y = startLine x"
    "request y = request x" "httpCode y = httpCode x"
    "s = LINE_OK \<Longrightarrow> checkedIdx x < checkedIdx y \<and> checkedIdx x < readIdx x"
  using assms parse_line_progress
  by (auto simp: parseLine_def bindE_eq_Inr split: option.splits if_splits) (fastforce+)?

lemma parseLine_decreases:
  "parseLine x = Inr (LINE_OK, y) \<Longrightarrow> readIdx y - checkedIdx y < readIdx x - checkedIdx x"
  using parseLine_progress [of x LINE_OK y] by (auto intro: diff_less_mono2)

lemma parseRequestLine_frame:
  "parseRequestLine x text len = Inr (code, y) \<Longrightarrow>
   readIdx y = readIdx x \<and> checkedIdx y = checkedIdx x \<and> startLine y = startLine x \<and> buf y = buf x"
  unfolding parseRequestLine_def bindE_eq_Inr
  by (elim exE conjE)
    (simp add: Let_def setMethod_def split: if_split_asm, (elim conjE, hypsubst, simp)+)

lemma parseRequestLine_headers:
  "parseRequestLine x text len = Inr (code, y) \<Longrightarrow> headers (request y) = headers (request x)"
  unfolding parseRequestLine_def bindE_eq_Inr
  by (elim exE conjE)
    (simp add: Let_def setMethod_def setPath_def setQuery_def setVersion_def split: if_split_asm,
     (elim conjE, hypsubst, simp)+)

lemma parseHeader_frame:
  "parseHeader x text len = Inr (code, y) \<Longrightarrow>
   readIdx y = readIdx x \<and> checkedIdx y = checkedIdx x \<and> startLine y = startLine x \<and> buf y = buf x"
  by (auto simp: parseHeader_def bindE_eq_Inr Let_def split: if_splits prod.splits)

section \<open>The loop\<close>

text \<open>
  The loop of \<open>parseRequest\<close> with the local variable \<open>state\<close>. Its \<open>default\<close> branch is not
  reachable, since \<open>CheckState\<close> has no other value.
\<close>

function parse_loop :: "http_context \<Rightarrow> line_status \<Rightarrow> (http_code \<times> http_context) res" where
  "parse_loop x state =
     bindE (if checkState x = CHECK_STATE_CONTENT \<and> state = LINE_OK then Inr (LINE_OK, x)
            else parseLine x) (\<lambda>(state, x).
       if state = LINE_OK then
         let text = getLine x;
             le = int (checkedIdx x) - int (startLine x) - 2;
             x = x\<lparr> startLine := checkedIdx x \<rparr>
         in case checkState x of
           CHECK_STATE_REQUESTLINE \<Rightarrow>
             bindE (parseRequestLine x text le) (\<lambda>(code, x).
               if code = BAD_REQUEST then Inr (BAD_REQUEST, set_code BAD_REQUEST x)
               else parse_loop x state)
         | CHECK_STATE_HEADER \<Rightarrow>
             bindE (parseHeader x text le) (\<lambda>(code, x).
               if code = BAD_REQUEST then Inr (BAD_REQUEST, set_code BAD_REQUEST x)
               else parse_loop x state)
         | CHECK_STATE_CONTENT \<Rightarrow>
             bindE (parseBody x text le) (\<lambda>(code, x).
               if code = BAD_REQUEST then Inr (BAD_REQUEST, set_code BAD_REQUEST x)
               else if code = GET_REQUEST then Inr (GET_REQUEST, set_code GET_REQUEST x)
               else parse_loop x state)
       else Inr (GET_REQUEST, set_code GET_REQUEST x))"
  by pat_completeness auto
termination
proof (relation "measure (\<lambda>(x, state). readIdx x - checkedIdx x)")
qed (auto split: if_splits dest!: parseRequestLine_frame parseHeader_frame
    intro: parseLine_decreases simp: parseBody_def)

declare parse_loop.simps [simp del]

text \<open>The arguments \<open>buf\<close> and \<open>len\<close> of \<open>parseRequest\<close> are not used.\<close>

definition parseRequest :: "http_context \<Rightarrow> (http_code \<times> http_context) res" where
  "parseRequest x = parse_loop x LINE_OK"

text \<open>The parser neither replaces nor resizes its buffer.\<close>

lemma parseLine_buffer:
  "parseLine x = Inr (s, y) \<Longrightarrow> map_option length (buf y) = map_option length (buf x)"
  using parse_line_progress by (fastforce simp: parseLine_def bindE_eq_Inr split: option.splits if_splits)

lemma parse_loop_buffer:
  "parse_loop x s = Inr (code, y) \<Longrightarrow> map_option length (buf y) = map_option length (buf x)"
proof (induction x s arbitrary: code y rule: parse_loop.induct)
  case (1 x s)
  obtain s1 x1 where x1: "(if checkState x = CHECK_STATE_CONTENT \<and> s = LINE_OK then Inr (LINE_OK, x)
      else parseLine x) = Inr (s1, x1)"
    using "1.prems" unfolding parse_loop.simps [of x s] bindE_eq_Inr by auto
  then have len: "map_option length (buf x1) = map_option length (buf x)"
    using parseLine_buffer by (auto split: if_splits)
  show ?case
  proof (cases "s1 = LINE_OK")
    case False
    then show ?thesis
      using "1.prems" len unfolding parse_loop.simps [of x s] x1 by (auto simp: set_code_def)
  next
    case True
    define x2 where "x2 = x1\<lparr> startLine := checkedIdx x1 \<rparr>"
    have x2: "buf x2 = buf x1" by (simp add: x2_def)
    have fold: "x1\<lparr> startLine := checkedIdx x1 \<rparr> = x2" "checkState x1 = checkState x2"
      by (simp_all add: x2_def)
    note ih = "1.IH" [OF x1 refl True refl refl x2_def]
    have step: "map_option length (buf y) = map_option length (buf x)"
      if "f = Inr (k, z)" "buf z = buf x2"
        "(if k = BAD_REQUEST then Inr (BAD_REQUEST, set_code BAD_REQUEST z) else parse_loop z LINE_OK) = Inr (code, y)"
        "k \<noteq> BAD_REQUEST \<Longrightarrow> parse_loop z LINE_OK = Inr (code, y) \<Longrightarrow>
           map_option length (buf y) = map_option length (buf z)"
      for f :: "(http_code \<times> http_context) res" and k z
      using that len x2 by (auto simp: set_code_def split: if_splits)
    show ?thesis
    proof (cases "checkState x2")
      case CHECK_STATE_REQUESTLINE
      then obtain k z where z: "parseRequestLine x2 (getLine x1) (int (checkedIdx x1) - int (startLine x1) - 2) = Inr (k, z)"
          "(if k = BAD_REQUEST then Inr (BAD_REQUEST, set_code BAD_REQUEST z) else parse_loop z LINE_OK) = Inr (code, y)"
        using "1.prems" True unfolding parse_loop.simps [of x s] x1
        by (auto simp: bindE_eq_Inr Let_def fold)
      show ?thesis
        by (rule step [OF z(1) _ z(2)])
          (use parseRequestLine_frame [OF z(1)] ih(1) [OF CHECK_STATE_REQUESTLINE z(1) refl] True in auto)
    next
      case CHECK_STATE_HEADER
      then obtain k z where z: "parseHeader x2 (getLine x1) (int (checkedIdx x1) - int (startLine x1) - 2) = Inr (k, z)"
          "(if k = BAD_REQUEST then Inr (BAD_REQUEST, set_code BAD_REQUEST z) else parse_loop z LINE_OK) = Inr (code, y)"
        using "1.prems" True unfolding parse_loop.simps [of x s] x1
        by (auto simp: bindE_eq_Inr Let_def fold)
      show ?thesis
        by (rule step [OF z(1) _ z(2)])
          (use parseHeader_frame [OF z(1)] ih(2) [OF CHECK_STATE_HEADER z(1) refl] True in auto)
    next
      case CHECK_STATE_CONTENT
      then show ?thesis
        using "1.prems" True len x2 unfolding parse_loop.simps [of x s] x1
        by (auto simp: bindE_eq_Inr Let_def parseBody_def set_code_def fold)
    qed
  qed
qed

section \<open>The requests the parser accepts\<close>

text \<open>
  The grammar the parser implements, on the characters that were received, with no buffer, no
  positions and no state machine. A request line has a method, a target and a version, separated
  by single spaces.
\<close>

definition valid_version :: "string \<Rightarrow> bool" where
  "valid_version v \<longleftrightarrow> length v = 8 \<and> take 7 v = ''HTTP/1.''"

definition request_line :: "string \<Rightarrow> (string \<times> string \<times> string) option" where
  "request_line l =
     (let rest = tl (from_char SP l); m = before SP l; target = before SP rest; v = tl (from_char SP rest)
      in if SP \<in> set l \<and> m \<noteq> [] \<and> SP \<in> set rest \<and> valid_version v then Some (m, target, v)
         else None)"

text \<open>
  Header lines are read up to the first line without a colon, or to a line that is not complete.
  A value that ends in white space is the one case in which the parser does not return.
\<close>

function spec_headers :: "string \<Rightarrow> (string, string) std_map \<Rightarrow> (string, string) std_map res" where
  "spec_headers t hs =
     (if line_status_of t = LINE_OK \<and> CHR '':'' \<in> set (line_of t) then
        let l = line_of t; val = header_value (tl (from_char (CHR '':'') l))
        in if val \<noteq> [] \<and> isspace (last val) then Inl Diverges
           else spec_headers (drop (length l + 2) t) (put (before (CHR '':'') l) val hs)
      else Inr hs)"
  by pat_completeness auto
termination
proof (relation "measure (\<lambda>(t, hs). length t)")
qed (use line_OK_shrinks in auto)

declare spec_headers.simps [simp del]

definition spec_request :: "string \<Rightarrow> http_request option res" where
  "spec_request t =
     (if line_status_of t = LINE_OK then
        case request_line (line_of t) of
          None \<Rightarrow> Inr None
        | Some (m, target, v) \<Rightarrow>
            bindE (spec_headers (drop (length (line_of t) + 2) t) []) (\<lambda>hs.
              Inr (Some \<lparr> requestCode = GET_REQUEST, req_method = m, path = before (CHR ''?'') target,
                query = from_char (CHR ''?'') target, req_version = v, headers = hs \<rparr>))
      else Inr (Some (HttpRequest\<lparr> requestCode := GET_REQUEST \<rparr>)))"

section \<open>The parser implements the grammar\<close>

definition at_line :: "http_context \<Rightarrow> string \<Rightarrow> string \<Rightarrow> bool" where
  "at_line x b t \<longleftrightarrow> buf x = Some b \<and> readIdx x \<le> length b \<and> checkedIdx x \<le> readIdx x \<and>
     startLine x = checkedIdx x \<and> (checkedIdx x = 0 \<or> b ! (checkedIdx x - 1) \<noteq> CR) \<and>
     drop (checkedIdx x) (take (readIdx x) b) = t"

lemma parseLine_at_line:
  assumes "at_line x b t"
  shows "parseLine x = Inr (case line_status_of t of
      LINE_OK \<Rightarrow> (LINE_OK, x\<lparr> checkedIdx := checkedIdx x + length (line_of t) + 2,
        buf := Some (b[checkedIdx x + length (line_of t) := NUL,
                       checkedIdx x + length (line_of t) + 1 := NUL]) \<rparr>)
    | s \<Rightarrow> (s, x\<lparr> checkedIdx := checkedIdx x + length (line_of t) \<rparr>))"
proof -
  have "x\<lparr> buf := Some b \<rparr> = x" using assms by (cases x) (simp add: at_line_def)
  then show ?thesis
    using assms parse_line_spec [of "checkedIdx x" "readIdx x" b]
    by (auto simp: at_line_def parseLine_def Let_def split: line_status.split)
qed

lemma at_line_next:
  assumes "at_line x b t" "line_status_of t = LINE_OK"
  defines "c \<equiv> checkedIdx x" and "n \<equiv> length (line_of t)"
  defines "b' \<equiv> b[c + n := NUL, c + n + 1 := NUL]"
  shows "c + n + 2 \<le> length b" and "slice b' c n = Inr (line_of t)"
    and "take n (drop c b') = line_of t" and "b' ! (c + n) = NUL"
    and "buf y = Some b' \<Longrightarrow> readIdx y = readIdx x \<Longrightarrow> checkedIdx y = c + n + 2 \<Longrightarrow>
      startLine y = c + n + 2 \<Longrightarrow> at_line y b' (drop (n + 2) t)"
proof -
  obtain rest where rest: "t = line_of t @ CR # LF # rest"
    using assms(2) by (auto simp: line_status_OK)
  have t: "drop c (take (readIdx x) b) = t" and r: "readIdx x \<le> length b" "c \<le> readIdx x"
    using assms(1) by (simp_all add: at_line_def c_def)
  have "length t = readIdx x - c" using t r by (metis length_drop length_take min.absorb2)
  moreover have "length t = n + 2 + length rest"
    by (subst rest) (simp add: n_def)
  ultimately have len: "c + n + 2 \<le> readIdx x" using r by simp
  then show le: "c + n + 2 \<le> length b" using r by simp
  have "take n t = line_of t" by (subst rest) (simp add: n_def)
  moreover have "take n t = take n (drop c b)"
    using len by (simp add: t [symmetric] drop_take min.absorb2)
  ultimately show tk: "take n (drop c b') = line_of t" by (simp add: b'_def drop_update_swap)
  then show "slice b' c n = Inr (line_of t)" using le by (simp add: slice_def b'_def)
  show "b' ! (c + n) = NUL" using le by (simp add: b'_def)
  assume y: "buf y = Some b'" "readIdx y = readIdx x" "checkedIdx y = c + n + 2"
    "startLine y = c + n + 2"
  have "drop (c + n + 2) (take (readIdx x) b') = drop (n + 2) t"
    by (simp add: b'_def t [symmetric] drop_take add.commute add.left_commute)
  then show "at_line y b' (drop (n + 2) t)"
    using y le len r by (simp add: at_line_def b'_def nth_list_update)
qed

lemma parseRequestLine_spec:
  assumes "text_range x text len = Inr l" "query (request x) = []"
  shows "case request_line l of
      None \<Rightarrow> \<exists>y. parseRequestLine x text len = Inr (BAD_REQUEST, y)
    | Some (m, target, v) \<Rightarrow> parseRequestLine x text len = Inr (GET_REQUEST,
        x\<lparr> request := (request x)\<lparr> req_method := m, path := before (CHR ''?'') target,
              query := from_char (CHR ''?'') target, req_version := v \<rparr>,
           checkState := CHECK_STATE_HEADER \<rparr>)"
proof -
  define r1 where "r1 = tl (from_char SP l)"
  define v where "v = tl (from_char SP r1)"
  have version: "length v = 8 \<and> butlast v = ''HTTP/1.'' \<longleftrightarrow> valid_version v"
    by (auto simp: valid_version_def butlast_conv_take)
  have question: "x = [] \<longleftrightarrow> c \<notin> set y" if "x = from_char c y" for x c y
    using that from_char_nonempty by auto
  show ?thesis
    unfolding parseRequestLine_def request_line_def assms(1) bindE_Inr Let_def r1_def [symmetric]
      v_def [symmetric] version
    using assms(2)
    by (simp add: setMethod_def setPath_def setQuery_def setVersion_def from_char_nonempty)
qed

lemma parseHeader_spec:
  assumes "buf x = Some b" "slice b text n = Inr l" "b ! (text + n) = NUL" "text + n < length b"
  shows "parseHeader x text (int n) =
    (if CHR '':'' \<in> set l then
       let val = header_value (tl (from_char (CHR '':'') l))
       in if val \<noteq> [] \<and> isspace (last val) then Inl Diverges
          else Inr (GET_REQUEST, x\<lparr> request := (request x)\<lparr> headers :=
            put (before (CHR '':'') l) val (headers (request x)) \<rparr> \<rparr>)
     else Inr (GET_REQUEST, x\<lparr> checkState := CHECK_STATE_CONTENT \<rparr>))"
proof (cases "CHR '':'' \<in> set l")
  case False
  then show ?thesis
    using assms by (simp add: parseHeader_def text_range_def Let_def)
next
  case True
  define k where "k = length (before (CHR '':'') l)"
  have l: "l = take n (drop text b)" using assms(2,4) by simp
  then have ln: "length l = n" using assms(4) by simp
  have eq: "before (CHR '':'') l @ from_char (CHR '':'') l = l" by (rule before_from_char)
  have ne: "from_char (CHR '':'') l \<noteq> []" using True by (simp add: from_char_nonempty)
  have "k < n" using arg_cong [OF eq, of length] ne ln by (cases "from_char (CHR '':'') l") (auto simp: k_def)
  have key: "take k (drop text b) = before (CHR '':'') l"
  proof -
    have "take k l = before (CHR '':'') l" using arg_cong [OF eq, of "take k"] by (simp add: k_def)
    then show ?thesis using \<open>k < n\<close> by (simp add: l min.absorb1)
  qed
  have val: "take (n - Suc k) (drop (Suc (text + k)) b) = tl (from_char (CHR '':'') l)"
  proof -
    have "drop k l = from_char (CHR '':'') l" using arg_cong [OF eq, of "drop k"] by (simp add: k_def)
    then have "tl (from_char (CHR '':'') l) = drop (Suc k) l" by (metis drop_Suc tl_drop)
    then show ?thesis by (simp add: l drop_take add.commute)
  qed
  have "addHeader b text (text + k) (text + n) (request x) =
    (let val = header_value (tl (from_char (CHR '':'') l))
     in if val \<noteq> [] \<and> isspace (last val) then Inl Diverges
        else Inr (True, (request x)\<lparr> headers := put (before (CHR '':'') l) val (headers (request x)) \<rparr>))"
    using addHeader_spec [of "text" "text + k" "text + n" b "request x"] \<open>k < n\<close> assms(3,4)
    by (simp add: key val)
  then show ?thesis
    using assms True ne by (simp add: parseHeader_def text_range_def Let_def k_def)
qed

lemma text_range_line:
  assumes "at_line x b t" "line_status_of t = LINE_OK" "parseLine x = Inr (s, y)"
  defines "y' \<equiv> y\<lparr> startLine := checkedIdx y \<rparr>"
  shows "s = LINE_OK" and "text_range y' (getLine y) (int (checkedIdx y) - int (startLine y) - 2) = Inr (line_of t)"
    and "\<exists>b'. at_line y' b' (drop (length (line_of t) + 2) t) \<and>
      slice b' (getLine y) (length (line_of t)) = Inr (line_of t) \<and>
      b' ! (getLine y + length (line_of t)) = NUL \<and> getLine y + length (line_of t) < length b' \<and>
      buf y' = Some b'"
    and "int (checkedIdx y) - int (startLine y) - 2 = int (length (line_of t))"
proof -
  let ?n = "length (line_of t)" and ?c = "checkedIdx x"
  let ?b = "b[?c + ?n := NUL, ?c + ?n + 1 := NUL]"
  have y: "s = LINE_OK" "y = x\<lparr> checkedIdx := ?c + ?n + 2, buf := Some ?b \<rparr>"
    using assms(2,3) parseLine_at_line [OF assms(1)] by auto
  have x: "startLine x = ?c" "readIdx x \<le> length b" using assms(1) by (simp_all add: at_line_def)
  note nxt = at_line_next [OF assms(1,2)]
  show "s = LINE_OK" by (rule y)
  show "int (checkedIdx y) - int (startLine y) - 2 = int ?n" using y x by simp
  moreover have slice: "slice ?b (getLine y) ?n = Inr (line_of t)"
    using nxt(2) y x by (simp add: getLine_def)
  ultimately show "text_range y' (getLine y) (int (checkedIdx y) - int (startLine y) - 2) = Inr (line_of t)"
    using y by (simp add: text_range_def y'_def)
  have "at_line y' ?b (drop (?n + 2) t)"
    by (rule nxt(5)) (simp_all add: y'_def y)
  moreover have "?b ! (getLine y + ?n) = NUL" "getLine y + ?n < length ?b" "buf y' = Some ?b"
    using nxt(1,4) y x by (simp_all add: getLine_def y'_def)
  ultimately show "\<exists>b'. at_line y' b' (drop (?n + 2) t) \<and> slice b' (getLine y) ?n = Inr (line_of t) \<and>
      b' ! (getLine y + ?n) = NUL \<and> getLine y + ?n < length b' \<and> buf y' = Some b'"
    using slice by blast
qed

lemma parse_loop_headers:
  "at_line x b t \<Longrightarrow> checkState x = CHECK_STATE_HEADER \<Longrightarrow>
   bindE (parse_loop x LINE_OK) (\<lambda>(code, y). Inr (code, request y)) =
   bindE (spec_headers t (headers (request x)))
     (\<lambda>hs. Inr (GET_REQUEST, (request x)\<lparr> headers := hs, requestCode := GET_REQUEST \<rparr>))"
proof (induction t "headers (request x)" arbitrary: x b rule: spec_headers.induct)
  case (1 t)
  show ?case
  proof (cases "line_status_of t = LINE_OK")
    case False
    then obtain s y where y: "parseLine x = Inr (s, y)" "s \<noteq> LINE_OK"
      using parseLine_at_line [OF "1.prems"(1)] by (cases "line_status_of t") auto
    then show ?thesis
      using "1.prems"(2) False parseLine_progress(4) [OF y(1)]
      by (simp add: parse_loop.simps [of x] spec_headers.simps [of t] set_code_def setRequestCode_def)
  next
    case True
    let ?n = "length (line_of t)"
    obtain s y where y: "parseLine x = Inr (s, y)" using parseLine_at_line [OF "1.prems"(1)] True by auto
    define y' where "y' = y\<lparr> startLine := checkedIdx y \<rparr>"
    note line = text_range_line [OF "1.prems"(1) True y, folded y'_def]
    obtain b' where b': "at_line y' b' (drop (?n + 2) t)" "slice b' (getLine y) ?n = Inr (line_of t)"
        "b' ! (getLine y + ?n) = NUL" "getLine y + ?n < length b'" "buf y' = Some b'"
      using line(3) by blast
    have st: "checkState y = CHECK_STATE_HEADER" "request y' = request x"
      "checkState y' = CHECK_STATE_HEADER"
      using parseLine_progress [OF y] "1.prems"(2) by (simp_all add: y'_def)
    have loop: "parse_loop x LINE_OK = bindE (parseHeader y' (getLine y) (int ?n)) (\<lambda>(code, x).
        if code = BAD_REQUEST then Inr (BAD_REQUEST, set_code BAD_REQUEST x)
        else parse_loop x LINE_OK)"
      using y line(1,4) st(1) "1.prems"(2) by (simp add: parse_loop.simps [of x] y'_def Let_def)
    note hdr = parseHeader_spec [OF b'(5,2-4)]
    show ?thesis
    proof (cases "CHR '':'' \<in> set (line_of t)")
      case False
      then show ?thesis
        using hdr loop st by (simp add: spec_headers.simps [of t] parse_loop.simps [of "y'\<lparr>checkState := CHECK_STATE_CONTENT\<rparr>"]
            parseBody_def set_code_def setRequestCode_def Let_def)
    next
      case colon: True
      let ?val = "header_value (tl (from_char (CHR '':'') (line_of t)))"
      show ?thesis
      proof (cases "?val \<noteq> [] \<and> isspace (last ?val)")
        case True
        then show ?thesis
          using hdr loop colon \<open>line_status_of t = LINE_OK\<close> by (simp add: spec_headers.simps [of t] Let_def)
      next
        case False
        let ?hs = "put (before (CHR '':'') (line_of t)) ?val (headers (request x))"
        let ?z = "y'\<lparr> request := (request y')\<lparr> headers := ?hs \<rparr> \<rparr>"
        have at: "at_line ?z b' (drop (?n + 2) t)" using b'(1) by (simp add: at_line_def)
        have step: "parse_loop x LINE_OK = parse_loop ?z LINE_OK"
          using loop hdr colon False st by (auto simp: Let_def)
        have spec: "spec_headers t (headers (request x)) = spec_headers (drop (?n + 2) t) ?hs"
          using True colon False by (auto simp: spec_headers.simps [of t] Let_def)
        have "headers (request ?z) = ?hs" by simp
        from "1.hyps" [OF conjI [OF True colon] refl refl False this [symmetric] at] st
        show ?thesis unfolding step spec by simp
      qed
    qed
  qed
qed

definition outcome :: "(http_code \<times> http_context) res \<Rightarrow> http_request option res" where
  "outcome r = bindE r (\<lambda>(code, y). Inr (if code = BAD_REQUEST then None else Some (request y)))"

lemma parseRequest_fresh:
  assumes "r \<le> length b"
  shows "outcome (parseRequest (setBuffer b r (HttpContext b0 r0))) = spec_request (take r b)"
proof -
  define x where "x = setBuffer b r (HttpContext b0 r0)"
  define t where "t = take r b"
  have at: "at_line x b t" and cs: "checkState x = CHECK_STATE_REQUESTLINE"
    and rq: "request x = HttpRequest"
    using assms by (simp_all add: at_line_def x_def t_def setBuffer_def HttpContext_def)
  show ?thesis
  proof (cases "line_status_of t = LINE_OK")
    case False
    then obtain s y where y: "parseLine x = Inr (s, y)" "s \<noteq> LINE_OK"
      using parseLine_at_line [OF at] by (cases "line_status_of t") auto
    have "parse_loop x LINE_OK = Inr (GET_REQUEST, set_code GET_REQUEST y)"
      using y cs by (simp add: parse_loop.simps [of x])
    then show ?thesis
      using False parseLine_progress(4) [OF y(1)] rq
      by (simp add: parseRequest_def spec_request_def outcome_def set_code_def setRequestCode_def
          flip: x_def t_def)
  next
    case True
    obtain s y where y: "parseLine x = Inr (s, y)"
      using parseLine_at_line [OF at] True by auto
    define y' where "y' = y\<lparr> startLine := checkedIdx y \<rparr>"
    note line = text_range_line [OF at True y, folded y'_def]
    have st: "checkState y = CHECK_STATE_REQUESTLINE" "request y' = HttpRequest"
      using parseLine_progress [OF y] cs rq by (simp_all add: y'_def)
    have loop: "parse_loop x LINE_OK =
        bindE (parseRequestLine y' (getLine y) (int (checkedIdx y) - int (startLine y) - 2)) (\<lambda>(code, x).
          if code = BAD_REQUEST then Inr (BAD_REQUEST, set_code BAD_REQUEST x)
          else parse_loop x LINE_OK)"
      using y line(1) st(1) cs by (simp add: parse_loop.simps [of x] y'_def Let_def)
    have q: "query (request y') = []" by (simp add: st HttpRequest_def)
    note rl = parseRequestLine_spec [OF line(2) q]
    obtain b' where at': "at_line y' b' (drop (length (line_of t) + 2) t)" using line(3) by blast
    show ?thesis
    proof (cases "request_line (line_of t)")
      case None
      then show ?thesis
        using rl loop True
        by (auto simp: parseRequest_def spec_request_def outcome_def simp flip: x_def t_def)
    next
      case (Some a)
      obtain m target v where a: "a = (m, target, v)" by (cases a)
      define z where "z = y'\<lparr> request := (request y')\<lparr> req_method := m, path := before (CHR ''?'') target,
              query := from_char (CHR ''?'') target, req_version := v \<rparr>,
           checkState := CHECK_STATE_HEADER \<rparr>"
      have at_z: "at_line z b' (drop (length (line_of t) + 2) t)"
        using at' by (simp add: at_line_def z_def)
      have "parse_loop x LINE_OK = parse_loop z LINE_OK"
        using rl loop Some a by (simp add: z_def)
      moreover have "bindE (parse_loop z LINE_OK) (\<lambda>(code, y). Inr (code, request y)) =
        bindE (spec_headers (drop (length (line_of t) + 2) t) []) (\<lambda>hs. Inr (GET_REQUEST,
          \<lparr> requestCode = GET_REQUEST, req_method = m, path = before (CHR ''?'') target,
            query = from_char (CHR ''?'') target, req_version = v, headers = hs \<rparr>))"
        using parse_loop_headers [OF at_z] by (simp add: z_def st HttpRequest_def)
      ultimately show ?thesis
        using True Some a
        by (auto simp: parseRequest_def spec_request_def outcome_def bindE_def
            simp flip: x_def t_def split: sum.splits prod.splits)
    qed
  qed
qed

lemma parseRequest_rejects:
  assumes "r \<le> length b" "spec_request (take r b) = Inr None"
  shows "\<exists>y. parseRequest (setBuffer b r (HttpContext b0 r0)) = Inr (BAD_REQUEST, y) \<and> headers (request y) = []"
proof -
  define x where "x = setBuffer b r (HttpContext b0 r0)"
  define t where "t = take r b"
  have at: "at_line x b t" and cs: "checkState x = CHECK_STATE_REQUESTLINE" and rq: "request x = HttpRequest"
    using assms(1) by (simp_all add: at_line_def x_def t_def setBuffer_def HttpContext_def)
  have ok: "line_status_of t = LINE_OK" and bad: "request_line (line_of t) = None"
    using assms(2) by (auto simp: spec_request_def t_def bindE_def split: if_splits option.splits sum.splits prod.splits)
  obtain s y where y: "parseLine x = Inr (s, y)"
    using parseLine_at_line [OF at] ok by auto
  define y' where "y' = y\<lparr> startLine := checkedIdx y \<rparr>"
  note line = text_range_line [OF at ok y, folded y'_def]
  have st: "checkState y = CHECK_STATE_REQUESTLINE" "request y' = HttpRequest"
    using parseLine_progress [OF y] cs rq by (simp_all add: y'_def)
  have "query (request y') = []" by (simp add: st HttpRequest_def)
  then obtain z where z: "parseRequestLine y' (getLine y) (int (checkedIdx y) - int (startLine y) - 2) = Inr (BAD_REQUEST, z)"
    using parseRequestLine_spec [OF line(2)] bad by auto
  have "parse_loop x LINE_OK = Inr (BAD_REQUEST, set_code BAD_REQUEST z)"
    using y line(1) st(1) cs z by (simp add: parse_loop.simps [of x] y'_def Let_def)
  moreover have "headers (request z) = []"
    using parseRequestLine_headers [OF z] st by (simp add: HttpRequest_def)
  ultimately show ?thesis by (simp add: parseRequest_def set_code_def setRequestCode_def flip: x_def)
qed

text \<open>
  C3: On the first \<open>r\<close> characters of any read buffer, \<open>parseRequest\<close> computes the request
  that the grammar gives, on every branch: it accepts and rejects the same texts with the same
  fields, it never leaves the buffer (no memory error is a possible result), and it fails to return
  exactly when the grammar reaches a header value that ends in white space.
\<close>

theorem parseRequest_implements_grammar:
  assumes "r \<le> length b"
  shows "outcome (parseRequest (setBuffer b r (HttpContext b0 r0))) = spec_request (take r b)"
  by (rule parseRequest_fresh [OF assms])

theorem parseRequest_implements_grammar_witness:
  "spec_request (''GET /a?b HTTP/1.1'' @ CRLF @ ''k: v'' @ CRLF @ CRLF) =
     Inr (Some \<lparr> requestCode = GET_REQUEST, req_method = ''GET'', path = ''/a'', query = ''?b'',
       req_version = ''HTTP/1.1'', headers = [(''k'', ''v'')] \<rparr>) \<and>
   outcome (parseRequest (setBuffer (''GET /a?b HTTP/1.1'' @ CRLF @ ''k: v'' @ CRLF @ CRLF @ ''zz'') 27
     (HttpContext None 0))) = spec_request (''GET /a?b HTTP/1.1'' @ CRLF @ ''k: v'' @ CRLF @ CRLF)"
  using parseRequest_implements_grammar
    [of 27 "''GET /a?b HTTP/1.1'' @ CRLF @ ''k: v'' @ CRLF @ CRLF @ ''zz''" None 0]
  by (simp add: spec_request_def spec_headers.simps line_status_of_def request_line_def Let_def
      before_def from_char_def valid_version_def header_value_def isspace_def)

section \<open>Requests as clients write them\<close>

definition render_header :: "string \<times> string \<Rightarrow> string" where
  "render_header h = fst h @ '': '' @ snd h @ CRLF"

definition render_request ::
  "string \<Rightarrow> string \<Rightarrow> string \<Rightarrow> string \<Rightarrow> (string \<times> string) list \<Rightarrow> string" where
  "render_request m p q v hs = m @ [SP] @ p @ q @ [SP] @ v @ CRLF @ concat (map render_header hs) @ CRLF"

definition token :: "string \<Rightarrow> bool" where
  "token s \<longleftrightarrow> SP \<notin> set s \<and> CR \<notin> set s \<and> LF \<notin> set s"

definition good_name :: "string \<Rightarrow> bool" where
  "good_name k \<longleftrightarrow> CHR '':'' \<notin> set k \<and> CR \<notin> set k \<and> LF \<notin> set k"

definition good_value :: "string \<Rightarrow> bool" where
  "good_value v \<longleftrightarrow> CR \<notin> set v \<and> LF \<notin> set v \<and>
     (v \<noteq> [] \<longrightarrow> \<not> isspace (hd v) \<and> \<not> isspace (last v))"

text \<open>A value the parser does not return from.\<close>

definition hanging_value :: "string \<Rightarrow> bool" where
  "hanging_value v \<longleftrightarrow> CR \<notin> set v \<and> LF \<notin> set v \<and> v \<noteq> [] \<and>
     \<not> isspace (hd v) \<and> isspace (last v)"

definition put_all :: "(string \<times> string) list \<Rightarrow> (string, string) std_map \<Rightarrow> (string, string) std_map" where
  "put_all hs m = fold (\<lambda>(k, v). put k v) hs m"

lemma put_all_simps [simp]:
  "put_all [] m = m" "put_all (h # hs) m = put_all hs (put (fst h) (snd h) m)"
  by (simp_all add: put_all_def split_beta)

lemma isspace_SP [simp]: "isspace SP" by (simp add: isspace_def)

lemma header_value_good: "v \<noteq> [] \<longrightarrow> \<not> isspace (hd v) \<Longrightarrow> header_value (SP # v) = v"
  by (cases v) (simp_all add: header_value_def)

lemma render_header_line:
  assumes "good_name k" "CR \<notin> set v" "LF \<notin> set v"
  defines "l \<equiv> k @ '': '' @ v"
  shows "render_header (k, v) @ t = l @ CR # LF # t"
    and "line_of (l @ CR # LF # t) = l" "line_status_of (l @ CR # LF # t) = LINE_OK"
    and "CHR '':'' \<in> set l" "before (CHR '':'') l = k" "tl (from_char (CHR '':'') l) = SP # v"
proof -
  have nl: "CR \<notin> set l" "LF \<notin> set l" using assms by (simp_all add: good_name_def)
  show "render_header (k, v) @ t = l @ CR # LF # t" by (simp add: render_header_def l_def)
  show "line_of (l @ CR # LF # t) = l" "line_status_of (l @ CR # LF # t) = LINE_OK"
    using nl by simp_all
  show "CHR '':'' \<in> set l" "before (CHR '':'') l = k" "tl (from_char (CHR '':'') l) = SP # v"
    using assms by (simp_all add: good_name_def)
qed

lemma drop_line: "drop (length l + 2) (l @ c # d # t) = t"
  by (induction l) auto

lemma spec_headers_step:
  assumes "good_name k" "CR \<notin> set v" "LF \<notin> set v" "v \<noteq> [] \<longrightarrow> \<not> isspace (hd v)"
  shows "spec_headers (render_header (k, v) @ t) m =
    (if v \<noteq> [] \<and> isspace (last v) then Inl Diverges else spec_headers t (put k v m))"
proof -
  let ?l = "k @ '': '' @ v"
  note hd = render_header_line [OF assms(1-3)]
  have val: "header_value (SP # v) = v" using assms(4) by (rule header_value_good)
  show ?thesis
    unfolding hd(1) spec_headers.simps [of "?l @ CR # LF # t"] hd(2,3,5,6) Let_def val drop_line
    using hd(4) by (simp only: simp_thms if_True)
qed

lemma spec_headers_render:
  "\<forall>h \<in> set hs. good_name (fst h) \<and> good_value (snd h) \<Longrightarrow>
   spec_headers (concat (map render_header hs) @ t) m = spec_headers t (put_all hs m)"
proof (induction hs arbitrary: m)
  case (Cons h hs)
  then have "spec_headers (render_header (fst h, snd h) @ concat (map render_header hs) @ t) m =
      spec_headers (concat (map render_header hs) @ t) (put (fst h) (snd h) m)"
    by (subst spec_headers_step) (auto simp: good_value_def)
  then show ?case using Cons by simp
qed simp

lemma spec_headers_hangs:
  assumes "good_name k" "hanging_value v"
  shows "spec_headers (render_header (k, v) @ t) m = Inl Diverges"
  using assms by (subst spec_headers_step) (auto simp: hanging_value_def)

lemma spec_headers_end [simp]: "spec_headers CRLF m = Inr m"
  by (simp add: spec_headers.simps line_status_of_def)

lemma spec_request_render:
  assumes "m \<noteq> []" "token m" "token p" "CHR ''?'' \<notin> set p" "token q" "q \<noteq> [] \<longrightarrow> hd q = CHR ''?''"
    "valid_version v" "CR \<notin> set v" "LF \<notin> set v"
  shows "spec_request (m @ [SP] @ p @ q @ [SP] @ v @ CRLF @ t) =
    bindE (spec_headers t []) (\<lambda>hs. Inr (Some \<lparr> requestCode = GET_REQUEST, req_method = m, path = p,
      query = q, req_version = v, headers = hs \<rparr>))"
proof -
  let ?l = "m @ SP # (p @ q) @ SP # v"
  have eq: "m @ [SP] @ p @ q @ [SP] @ v @ CRLF @ t = ?l @ CR # LF # t" by simp
  have l: "CR \<notin> set ?l" "LF \<notin> set ?l" using assms by (auto simp: token_def)
  have ln: "line_of (?l @ CR # LF # t) = ?l" "line_status_of (?l @ CR # LF # t) = LINE_OK"
    by (rule line_of_append [OF l], rule line_status_append [OF l])
  have m: "SP \<notin> set m" and pq: "SP \<notin> set (p @ q)" using assms by (auto simp: token_def)
  have rest: "tl (from_char SP ?l) = (p @ q) @ SP # v" "before SP ?l = m"
    by (simp_all only: from_char_append [OF m] before_append [OF m] list.sel)
  have tg: "before SP ((p @ q) @ SP # v) = p @ q" "tl (from_char SP ((p @ q) @ SP # v)) = v"
    by (simp_all only: from_char_append [OF pq] before_append [OF pq] list.sel)
  have "request_line ?l = Some (m, p @ q, v)"
    unfolding request_line_def rest Let_def tg using assms(1,7) by simp
  moreover have "before (CHR ''?'') (p @ q) = p" "from_char (CHR ''?'') (p @ q) = q"
    using assms(4,6) by (cases q; simp)+
  ultimately show ?thesis
    unfolding eq spec_request_def ln drop_line by (simp only: option.case prod.case simp_thms if_True)
qed

text \<open>
  C22: Round trip. A request that is written out as HTTP prescribes (any method and target
  without spaces, version \<open>HTTP/1.x\<close>, header fields whose values do not start or end in white
  space) is read back with exactly these fields, whatever follows it in the buffer; of a header
  that occurs twice the last value counts.
\<close>

theorem request_round_trip:
  assumes "m \<noteq> []" "token m" "token p" "CHR ''?'' \<notin> set p" "token q" "q \<noteq> [] \<longrightarrow> hd q = CHR ''?''"
    "valid_version v" "CR \<notin> set v" "LF \<notin> set v"
    "\<forall>h \<in> set hs. good_name (fst h) \<and> good_value (snd h)"
  shows "outcome (parseRequest (setBuffer (render_request m p q v hs @ junk)
      (length (render_request m p q v hs)) (HttpContext b0 r0))) =
    Inr (Some \<lparr> requestCode = GET_REQUEST, req_method = m, path = p, query = q, req_version = v,
      headers = put_all hs [] \<rparr>)"
proof -
  have "spec_request (render_request m p q v hs) = Inr (Some \<lparr> requestCode = GET_REQUEST,
      req_method = m, path = p, query = q, req_version = v, headers = put_all hs [] \<rparr>)"
    unfolding render_request_def spec_request_render [OF assms(1-9)] spec_headers_render [OF assms(10)]
    by simp
  then show ?thesis by (simp add: parseRequest_fresh)
qed

theorem request_round_trip_witness:
  "outcome (parseRequest (setBuffer (render_request ''GET'' ''/i'' [] ''HTTP/1.0'' [(''k'', ''v'')] @ ''x'')
      (length (render_request ''GET'' ''/i'' [] ''HTTP/1.0'' [(''k'', ''v'')])) (HttpContext None 7))) =
    Inr (Some \<lparr> requestCode = GET_REQUEST, req_method = ''GET'', path = ''/i'', query = [],
      req_version = ''HTTP/1.0'', headers = put_all [(''k'', ''v'')] [] \<rparr>)"
  by (rule request_round_trip)
    (simp_all add: token_def valid_version_def good_name_def good_value_def isspace_def)

text \<open>
  C36: A header value that ends in white space makes \<open>parseRequest\<close> loop forever, whatever
  comes after it: the loop that should cut the white space off calls \<open>reserve\<close>, which does not
  shorten the string.
\<close>

theorem trailing_space_never_returns:
  assumes "m \<noteq> []" "token m" "token p" "CHR ''?'' \<notin> set p" "token q" "q \<noteq> [] \<longrightarrow> hd q = CHR ''?''"
    "valid_version v" "CR \<notin> set v" "LF \<notin> set v"
    "\<forall>h \<in> set hs. good_name (fst h) \<and> good_value (snd h)"
    "good_name k" "hanging_value w" "r \<le> length b"
    "take r b = m @ [SP] @ p @ q @ [SP] @ v @ CRLF @ concat (map render_header hs) @
       render_header (k, w) @ rest"
  shows "parseRequest (setBuffer b r (HttpContext b0 r0)) = Inl Diverges"
proof -
  have "spec_request (take r b) = Inl Diverges"
    unfolding assms(14) spec_request_render [OF assms(1-9)] spec_headers_render [OF assms(10)]
      spec_headers_hangs [OF assms(11,12)] by simp
  then have "outcome (parseRequest (setBuffer b r (HttpContext b0 r0))) = Inl Diverges"
    using parseRequest_fresh [OF assms(13)] by simp
  then show ?thesis by (auto simp: outcome_def bindE_def split: sum.splits)
qed

theorem trailing_space_never_returns_witness:
  "parseRequest (setBuffer (''GET / HTTP/1.1'' @ CRLF @ ''k: v '' @ CRLF @ CRLF) 25 (HttpContext None 0))
    = Inl Diverges"
  by (rule trailing_space_never_returns
      [of "''GET''" "''/''" "[]" "''HTTP/1.1''" "[]" "''k''" "''v ''" _ _ CRLF])
    (simp_all add: token_def valid_version_def good_name_def hanging_value_def isspace_def
      render_header_def)

text \<open>
  \<open>reset\<close> takes a parser back to the state of a new one, and a parser in that state takes
  a buffer that holds no complete line for a complete request: it returns \<open>GET_REQUEST\<close> with no
  method, no path, no version and no header, so a request that arrives in two parts is never put
  together.
\<close>

lemma incomplete_request_accepted:
  assumes "r \<le> length b" "line_status_of (take r b) \<noteq> LINE_OK"
  shows "outcome (parseRequest (setBuffer b r (reset_context x))) =
    Inr (Some (HttpRequest\<lparr> requestCode := GET_REQUEST \<rparr>))"
proof -
  have "reset_context x = HttpContext None 0"
    by (simp add: reset_context_def HttpContext_def reset_request_def HttpRequest_def)
  then show ?thesis using assms by (simp add: parseRequest_fresh spec_request_def)
qed

lemma incomplete_request_accepted_witness:
  "outcome (parseRequest (setBuffer ''GET /index.ht'' 13 (reset_context (HttpContext None 3)))) =
    Inr (Some (HttpRequest\<lparr> requestCode := GET_REQUEST \<rparr>))"
  by (rule incomplete_request_accepted) (simp_all add: line_status_of_def)

end
