(* ===== verification/TcpConnection.thy ===== *)
theory TcpConnection
  imports EventLoop HttpContext
begin

text \<open>
  src/TcpConnection.h and src/TcpConnection.cc. A connection lives in the world around its event
  loop, at an address, together with the state of the sockets: for each descriptor what the next
  calls of \<open>read\<close> and \<open>write\<close> find, what was sent, and whether the sending side was shut down. After
  the last result that is listed, calls on the descriptor would block. The callbacks a server
  installs are the argument \<open>cb\<close>; calling one that is not set throws.
\<close>

section \<open>Connections\<close>

definition READ_BUFFER_SIZE :: nat where "READ_BUFFER_SIZE = 1024 * 100"
definition WRITE_BUFFER_SIZE :: nat where "WRITE_BUFFER_SIZE = 1024 * 1024 * 10"

datatype conn_state = CConnecting | CConnected | CDisconnecting | CDisconnected

record tcp_conn =
  sockFd :: int
  channel :: nat
  state :: conn_state
  conn_name :: string
  reading :: bool
  conn_readIdx :: nat
  writeIdx :: nat
  conn_context :: "http_context option"
  readBuf :: string
  writeBuf :: string

record tcp_world =
  conns :: "tcp_conn store"
  reads :: "int \<Rightarrow> read_result list"
  writes :: "int \<Rightarrow> write_result list"
  sent :: "int \<Rightarrow> string"
  wr_shut :: "int \<Rightarrow> bool"

text \<open>What is bound and stored in channels and in the queue of the loop.\<close>

datatype bound_call =
    LoopHandleRead
  | HandleRead nat | HandleWrite nat | HandleError nat | HandleClose nat
  | SendInLoop nat string int | ShutdownInLoop nat | WriteComplete nat
  | StartReadInLoop nat | StopReadInLoop nat
  | ConnectionEstablished nat | ConnectionDestroyed nat
  | RemoveConnectionInLoop nat | AcceptorHandleRead

type_synonym loop_state = "(bound_call, tcp_world) event_loop"

record callbacks =
  on_connection :: "(nat \<Rightarrow> loop_state \<Rightarrow> loop_state res) option"
  on_message :: "(nat \<Rightarrow> string \<Rightarrow> nat \<Rightarrow> loop_state \<Rightarrow> loop_state res) option"
  on_close :: "(nat \<Rightarrow> loop_state \<Rightarrow> loop_state res) option"
  on_write_complete :: bool

definition conn_at :: "nat \<Rightarrow> loop_state \<Rightarrow> tcp_conn res" where
  "conn_at x l = deref (conns (world l)) (Ptr x)"

definition modify_conn :: "nat \<Rightarrow> (tcp_conn \<Rightarrow> tcp_conn) \<Rightarrow> loop_state \<Rightarrow> loop_state res" where
  "modify_conn x g l =
     bindE (modify (conns (world l)) (Ptr x) g) (\<lambda>m. Inr (l\<lparr> world := (world l)\<lparr> conns := m \<rparr> \<rparr>))"

definition setState :: "conn_state \<Rightarrow> nat \<Rightarrow> loop_state \<Rightarrow> loop_state res" where
  "setState s x = modify_conn x (\<lambda>c. c\<lparr> state := s \<rparr>)"

definition with_channel :: "nat \<Rightarrow> loop_state \<Rightarrow> (bound_call channel \<Rightarrow> 'a res) \<Rightarrow> 'a res" where
  "with_channel x l k = bindE (conn_at x l) (\<lambda>c. bindE (deref (chans (poller l)) (Ptr (channel c))) k)"

definition change_channel :: "nat \<Rightarrow> event_change \<Rightarrow> nat \<Rightarrow> loop_state \<Rightarrow> loop_state res" where
  "change_channel tid e x l = bindE (conn_at x l) (\<lambda>c. change tid e (channel c) l)"

text \<open>
  The constructor: \<open>x\<close> is the address of the connection and \<open>a\<close> that of its channel. The buffers
  hold what the memory held.
\<close>

definition TcpConnection ::
    "nat \<Rightarrow> nat \<Rightarrow> string \<Rightarrow> int \<Rightarrow> string \<Rightarrow> string \<Rightarrow> loop_state \<Rightarrow> loop_state" where
  "TcpConnection x a nm n rb wb l =
     (let ch = setCloseCB (HandleClose x) (setErrorCB (HandleError x) (setWriteCB (HandleWrite x)
                 (setReadCB (HandleRead x) (Channel n))));
          c = \<lparr> sockFd = n, channel = a, state = CConnecting, conn_name = nm, reading = True,
                conn_readIdx = 0, writeIdx = 0, conn_context = None, readBuf = rb, writeBuf = wb \<rparr>
      in l\<lparr> poller := (poller l)\<lparr> chans := (chans (poller l))(a \<mapsto> ch) \<rparr>,
            world := (world l)\<lparr> conns := (conns (world l))(x \<mapsto> c) \<rparr> \<rparr>)"

definition setContext :: "http_context \<Rightarrow> nat \<Rightarrow> loop_state \<Rightarrow> loop_state res" where
  "setContext ctx x = modify_conn x (\<lambda>c. c\<lparr> conn_context := Some ctx \<rparr>)"

definition isConnected :: "nat \<Rightarrow> loop_state \<Rightarrow> bool res" where
  "isConnected x l = bindE (conn_at x l) (\<lambda>c. Inr (state c = CConnected))"

text \<open>\<open>~TcpConnection\<close>, which also lets go of the channel.\<close>

definition TcpConnection_dtor :: "nat \<Rightarrow> nat \<Rightarrow> loop_state \<Rightarrow> loop_state res" where
  "TcpConnection_dtor tid x l = bindE (conn_at x l) (\<lambda>c.
     bindE (assertE (state c = CDisconnected)) (\<lambda>_.
     bindE (channel_delete tid (channel c) l) (\<lambda>l.
       Inr (l\<lparr> world := (world l)\<lparr> conns := (conns (world l))(x := None) \<rparr> \<rparr>))))"

section \<open>System calls\<close>

text \<open>
  \<open>write(fd, data, length data)\<close>: the result (\<open>- 1\<close> for an error, with the reason) and the world
  after it.
\<close>

definition sys_write :: "int \<Rightarrow> string \<Rightarrow> tcp_world \<Rightarrow> (int \<times> write_result) \<times> tcp_world" where
  "sys_write n data w =
     (let r = (case writes w n of [] \<Rightarrow> Write_Blocks | r # _ \<Rightarrow> r);
          w = w\<lparr> writes := (writes w)(n := tl (writes w n)) \<rparr>
      in case r of
        Takes k \<Rightarrow> ((int (min k (length data)), r), w\<lparr> sent := (sent w)(n := sent w n @ take k data) \<rparr>)
      | _ \<Rightarrow> ((- 1, r), w))"

definition sys_shutdown :: "int \<Rightarrow> tcp_world \<Rightarrow> tcp_world" where
  "sys_shutdown n w = w\<lparr> wr_shut := (wr_shut w)(n := True) \<rparr>"

section \<open>Closing\<close>

definition call :: "('a \<Rightarrow> 's \<Rightarrow> 's res) option \<Rightarrow> 'a \<Rightarrow> 's \<Rightarrow> 's res" where
  "call f x l = (case f of None \<Rightarrow> Inl Thrown | Some g \<Rightarrow> g x l)"

definition handleClose :: "callbacks \<Rightarrow> nat \<Rightarrow> nat \<Rightarrow> loop_state \<Rightarrow> loop_state res" where
  "handleClose cb tid x l =
     bindE (assertE (isInLoopThread tid l)) (\<lambda>_.
     bindE (conn_at x l) (\<lambda>c.
     bindE (assertE (state c = CConnected \<or> state c = CConnecting)) (\<lambda>_.
     bindE (setState CDisconnected x l) (\<lambda>l.
     bindE (change_channel tid DisableAll x l) (\<lambda>l.
     bindE (call (on_connection cb) x l) (call (on_close cb) x))))))"

text \<open>\<open>handleError\<close> prints a line.\<close>

definition handleError :: "nat \<Rightarrow> loop_state \<Rightarrow> loop_state res" where
  "handleError x l = bindE (conn_at x l) (\<lambda>_. Inr l)"

definition shutdownInLoop :: "nat \<Rightarrow> nat \<Rightarrow> loop_state \<Rightarrow> loop_state res" where
  "shutdownInLoop tid x l =
     bindE (assertE (isInLoopThread tid l)) (\<lambda>_.
     with_channel x l (\<lambda>ch.
       if \<not> isWriting ch then Inr (l\<lparr> world := sys_shutdown (fd ch) (world l) \<rparr>) else Inr l))"

text \<open>Calls of \<open>runInLoop\<close> with a member function: run now, or queue the bound call.\<close>

definition run_or_queue ::
    "nat \<Rightarrow> bound_call \<Rightarrow> (loop_state \<Rightarrow> loop_state res) \<Rightarrow> loop_state \<Rightarrow> loop_state res" where
  "run_or_queue tid f g l = runInLoop (\<lambda>_. g) tid f l"

definition conn_shutdown :: "nat \<Rightarrow> nat \<Rightarrow> loop_state \<Rightarrow> loop_state res" where
  "conn_shutdown tid x l = bindE (conn_at x l) (\<lambda>c.
     if state c = CConnected then
       bindE (setState CDisconnecting x l) (run_or_queue tid (ShutdownInLoop x) (shutdownInLoop tid x))
     else Inr l)"

section \<open>Establishing and destroying\<close>

definition tie_channel :: "nat \<Rightarrow> loop_state \<Rightarrow> loop_state res" where
  "tie_channel x l = bindE (conn_at x l) (\<lambda>c. with_poller (modify_chan (channel c) (tie x)) l)"

definition connectionEstablished :: "callbacks \<Rightarrow> nat \<Rightarrow> nat \<Rightarrow> loop_state \<Rightarrow> loop_state res" where
  "connectionEstablished cb tid x l =
     bindE (assertE (isInLoopThread tid l)) (\<lambda>_.
     bindE (conn_at x l) (\<lambda>c.
     bindE (assertE (state c = CConnecting)) (\<lambda>_.
     bindE (setState CConnected x l) (\<lambda>l.
     bindE (tie_channel x l) (\<lambda>l.
     bindE (change_channel tid EnableRead x l) (\<lambda>l.
       if on_connection cb \<noteq> None then call (on_connection cb) x l else Inr l))))))"

definition connectionDestroyed :: "callbacks \<Rightarrow> nat \<Rightarrow> nat \<Rightarrow> loop_state \<Rightarrow> loop_state res" where
  "connectionDestroyed cb tid x l =
     bindE (assertE (isInLoopThread tid l)) (\<lambda>_.
     bindE (conn_at x l) (\<lambda>c.
     bindE (if state c = CConnected then
              bindE (setState CDisconnected x l) (\<lambda>l.
              bindE (change_channel tid DisableAll x l) (\<lambda>l.
                if on_connection cb \<noteq> None then call (on_connection cb) x l else Inr l))
            else Inr l) (\<lambda>l.
     bindE (conn_at x l) (\<lambda>c. channel_remove tid (channel c) l))))"

section \<open>Sending\<close>

text \<open>
  The characters of a C string from position \<open>i\<close> on, up to its terminating zero; \<open>data\<close> is
  what \<open>std::string::c_str\<close> gives, so a zero follows its last character.
\<close>

definition c_string :: "string \<Rightarrow> int \<Rightarrow> string res" where
  "c_string data i = (if i < 0 \<or> int (length data) < i then Inl Out_Of_Bounds
     else Inr (before NUL (drop (nat i) data)))"

text \<open>\<open>strcpy(dst + i, s)\<close> in an array.\<close>

definition strcpy_at :: "string \<Rightarrow> nat \<Rightarrow> string \<Rightarrow> string res" where
  "strcpy_at dst i s = (if i + length s + 1 \<le> length dst
     then Inr (take i dst @ s @ [NUL] @ drop (i + length s + 1) dst) else Inl Out_Of_Bounds)"

text \<open>\<open>wc\<close>: a completion callback is set.\<close>

definition sendInLoop :: "bool \<Rightarrow> nat \<Rightarrow> nat \<Rightarrow> string \<Rightarrow> loop_state \<Rightarrow> loop_state res" where
  "sendInLoop wc tid x data l =
     (let len = int (length data) in
     bindE (assertE (isInLoopThread tid l)) (\<lambda>_.
     bindE (with_channel x l (\<lambda>ch.
       if \<not> isWriting ch then
         let ((n, r), w) = sys_write (fd ch) data (world l); l = l\<lparr> world := w \<rparr> in
         if n < 0 then
           bindE (if r = Write_Blocks then change_channel tid EnableWrite x l else Inr l) (\<lambda>l.
             Inr (n, r = Write_Reset, l))
         else Inr (n, False, if n = len \<and> wc
                             then queueInLoop tid (WriteComplete x) l else l)
       else Inr (0, False, l))) (\<lambda>(n, faultError, l).
     bindE (if \<not> faultError \<and> n < len then
         bindE (conn_at x l) (\<lambda>c.
         bindE (c_string data n) (\<lambda>s.
         bindE (strcpy_at (writeBuf c) (writeIdx c) s) (\<lambda>b.
         bindE (modify_conn x (\<lambda>c. c\<lparr> writeBuf := b, writeIdx := writeIdx c + nat (len - n) \<rparr>) l) (\<lambda>l.
         with_channel x l (\<lambda>ch.
           if \<not> isWriting ch then change_channel tid EnableWrite x l else Inr l)))))
       else Inr l) (\<lambda>l.
     modify_conn x (\<lambda>c. c\<lparr> conn_readIdx := 0, readBuf := replicate (length (readBuf c)) NUL \<rparr>) l))))"

definition send :: "bool \<Rightarrow> nat \<Rightarrow> nat \<Rightarrow> string \<Rightarrow> loop_state \<Rightarrow> loop_state res" where
  "send wc tid x data l = bindE (conn_at x l) (\<lambda>c.
     if state c = CConnected then
       (if isInLoopThread tid l then sendInLoop wc tid x data l
        else run_or_queue tid (SendInLoop x data (int (length data))) (sendInLoop wc tid x data) l)
     else Inr l)"

section \<open>Reading\<close>

datatype read_end = Drained | Failed | Stopped

text \<open>
  The loop of \<open>handleRead\<close>, on the buffer, \<open>readIdx_\<close> and what the calls of \<open>read\<close> find. A call
  for no characters, which happens when the buffer is full, returns 0 like the end of the stream.
\<close>

function read_loop ::
    "string \<Rightarrow> nat \<Rightarrow> read_result list \<Rightarrow> read_end \<times> string \<times> nat \<times> read_result list" where
  "read_loop b i rs = (if READ_BUFFER_SIZE \<le> i then (Stopped, b, i, rs) else case rs of
     [] \<Rightarrow> (Drained, b, i, [])
   | Read_Blocks # rs' \<Rightarrow> (Drained, b, i, rs')
   | Read_Fails # rs' \<Rightarrow> (Failed, b, i, rs')
   | Received s # rs' \<Rightarrow>
       let k = min (READ_BUFFER_SIZE - i) (length s) in
       if k = 0 then (Stopped, b, i, rs)
       else
         let b = take i b @ take k s @ drop (i + k) b; i = i + k;
             rs = (if k < length s then Received (drop k s) # rs' else rs')
         in if i > READ_BUFFER_SIZE then (Stopped, b, i, rs) else read_loop b i rs)"
  by pat_completeness auto
termination
proof (relation "measure (\<lambda>(b, i, rs). sum_list (map (\<lambda>r. case r of Received s \<Rightarrow> Suc (length s) | _ \<Rightarrow> 1) rs))")
qed auto

declare read_loop.simps [simp del]

definition handleRead :: "callbacks \<Rightarrow> nat \<Rightarrow> nat \<Rightarrow> loop_state \<Rightarrow> loop_state res" where
  "handleRead cb tid x l =
     bindE (assertE (isInLoopThread tid l)) (\<lambda>_.
     with_channel x l (\<lambda>ch.
     bindE (conn_at x l) (\<lambda>c.
       let (e, b, i, rs) = read_loop (readBuf c) (conn_readIdx c) (reads (world l) (fd ch));
           l = l\<lparr> world := (world l)\<lparr> reads := (reads (world l))(fd ch := rs) \<rparr> \<rparr>
       in
       bindE (modify_conn x (\<lambda>c. c\<lparr> readBuf := b, conn_readIdx := i \<rparr>) l) (\<lambda>l.
         case e of
           Failed \<Rightarrow> handleError x l
         | Stopped \<Rightarrow> Inr l
         | Drained \<Rightarrow>
             bindE (case conn_context c of None \<Rightarrow> Inl Null_Deref
                    | Some ctx \<Rightarrow> setContext (setBuffer b i ctx) x l) (\<lambda>l.
               case on_message cb of None \<Rightarrow> Inl Thrown | Some f \<Rightarrow> f x b i l)))))"

section \<open>Writing what was kept\<close>

text \<open>
  The loop of \<open>handleWrite\<close>. When no result of \<open>write\<close> is left, every further call would block,
  and the loop comes back to the same state for ever.
\<close>

function write_loop ::
    "callbacks \<Rightarrow> nat \<Rightarrow> nat \<Rightarrow> int \<Rightarrow> int \<Rightarrow> write_result list \<Rightarrow> loop_state \<Rightarrow> loop_state res" where
  "write_loop cb tid x to_send have_sent rs l =
     with_channel x l (\<lambda>ch.
     bindE (conn_at x l) (\<lambda>c.
     bindE (if writeIdx c \<le> length (writeBuf c) then Inr () else Inl Out_Of_Bounds) (\<lambda>_.
     if rs = [] then Inl Diverges
     else
       let ((n, r), w) = sys_write (fd ch) (take (writeIdx c) (writeBuf c))
             ((world l)\<lparr> writes := (writes (world l))(fd ch := rs) \<rparr>);
           l = l\<lparr> world := w \<rparr>
       in
       if n < 0 then
         if r = Write_Blocks then
           bindE (if \<not> isWriting ch then change_channel tid EnableWrite x l else Inr l)
             (write_loop cb tid x to_send have_sent (tl rs))
         else Inr l
       else if n > 0 then
         let to_send = to_send - n; have_sent = have_sent + n in
         if to_send \<le> have_sent then
           bindE (change_channel tid DisableWrite x l) (\<lambda>l.
           let l = (if on_write_complete cb then queueInLoop tid (WriteComplete x) l else l) in
           bindE (if state c = CDisconnecting then shutdownInLoop tid x l else Inr l) (\<lambda>l.
             modify_conn x (\<lambda>c. c\<lparr> writeIdx := 0, writeBuf := replicate (length (writeBuf c)) NUL \<rparr>) l))
         else write_loop cb tid x to_send have_sent (tl rs) l
       else bindE (handleClose cb tid x l) (write_loop cb tid x to_send have_sent (tl rs)))))"
  by pat_completeness auto
termination
  by (relation "measure (\<lambda>(cb, tid, x, to_send, have_sent, rs, l). length rs)") auto

declare write_loop.simps [simp del]

definition handleWrite :: "callbacks \<Rightarrow> nat \<Rightarrow> nat \<Rightarrow> loop_state \<Rightarrow> loop_state res" where
  "handleWrite cb tid x l =
     bindE (assertE (isInLoopThread tid l)) (\<lambda>_.
     with_channel x l (\<lambda>ch.
     bindE (conn_at x l) (\<lambda>c.
       if isWriting ch then write_loop cb tid x (int (writeIdx c)) 0 (writes (world l) (fd ch)) l
       else Inr l)))"

section \<open>Pausing and resuming reads\<close>

definition startReadInLoop :: "nat \<Rightarrow> nat \<Rightarrow> loop_state \<Rightarrow> loop_state res" where
  "startReadInLoop tid x l =
     bindE (assertE (isInLoopThread tid l)) (\<lambda>_.
     with_channel x l (\<lambda>ch.
     bindE (conn_at x l) (\<lambda>c.
       if \<not> reading c \<and> \<not> isReading ch then
         bindE (change_channel tid EnableRead x l) (modify_conn x (\<lambda>c. c\<lparr> reading := True \<rparr>))
       else Inr l)))"

definition stopReadInLoop :: "nat \<Rightarrow> nat \<Rightarrow> loop_state \<Rightarrow> loop_state res" where
  "stopReadInLoop tid x l =
     bindE (assertE (isInLoopThread tid l)) (\<lambda>_.
     with_channel x l (\<lambda>ch.
     bindE (conn_at x l) (\<lambda>c.
       if reading c \<or> isReading ch then
         bindE (change_channel tid DisableRead x l) (modify_conn x (\<lambda>c. c\<lparr> reading := False \<rparr>))
       else Inr l)))"

definition startRead :: "nat \<Rightarrow> nat \<Rightarrow> loop_state \<Rightarrow> loop_state res" where
  "startRead tid x = run_or_queue tid (StartReadInLoop x) (startReadInLoop tid x)"

definition stopRead :: "nat \<Rightarrow> nat \<Rightarrow> loop_state \<Rightarrow> loop_state res" where
  "stopRead tid x = run_or_queue tid (StopReadInLoop x) (stopReadInLoop tid x)"

definition retrieveAll :: "nat \<Rightarrow> loop_state \<Rightarrow> loop_state res" where
  "retrieveAll x = modify_conn x (\<lambda>c. c\<lparr> conn_readIdx := 0, writeIdx := 0 \<rparr>)"

section \<open>Facts about the operations\<close>

text \<open>A connection, its channel, and the loop's invariant.\<close>

definition conn_ok :: "loop_state \<Rightarrow> nat \<Rightarrow> tcp_conn \<Rightarrow> bound_call Channel.channel \<Rightarrow> bool" where
  "conn_ok l x c ch \<longleftrightarrow> loop_inv l \<and> conns (world l) x = Some c \<and> chan l (channel c) = Some ch"

lemma conn_okD:
  assumes "conn_ok l x c ch"
  shows "loop_inv l" "conns (world l) x = Some c" "chans (poller l) (channel c) = Some ch"
    "conn_at x l = Inr c" "with_channel x l k = k ch"
  using assms by (simp_all add: conn_ok_def chan_def conn_at_def with_channel_def)

lemma loop_inv_world [simp]: "loop_inv (l\<lparr> world := w \<rparr>) = loop_inv l"
  by (simp add: loop_inv_def chan_def)

lemma loop_inv_pending [simp]: "loop_inv (l\<lparr> pendingFunctor := w \<rparr>) = loop_inv l"
  by (simp add: loop_inv_def chan_def)

lemma loop_inv_cong: "poller l = poller l' \<Longrightarrow> loop_inv l = loop_inv l'"
  by (simp add: loop_inv_def chan_def)

lemma change_channel_ok:
  assumes "conn_ok l x c ch" "isInLoopThread tid l"
  obtains p where "change_channel tid e x l = Inr (l\<lparr> poller := p \<rparr>)"
    "conn_ok (l\<lparr> poller := p \<rparr>) x c (changed e ch)"
    "chans p = (chans (poller l))(channel c \<mapsto> changed e ch)"
    "interest p = (interest (poller l))(fd ch :=
      if status (changed e ch) = CAdded then Some (EPOLLET OR events (changed e ch), channel c) else None)"
    "map_of (chmap p) = (map_of (chmap (poller l)))(fd ch \<mapsto> channel c)"
proof -
  have "loop_inv l" "chan l (channel c) = Some ch" using assms(1) by (simp_all add: conn_ok_def)
  from change_ok [OF this, of tid e] assms(2) obtain p where
    "change tid e (channel c) l = Inr (l\<lparr> poller := p \<rparr>)" "loop_inv (l\<lparr> poller := p \<rparr>)"
    "chans p = (chans (poller l))(channel c \<mapsto> changed e ch)"
    "interest p = (interest (poller l))(fd ch :=
      if status (changed e ch) = CAdded then Some (EPOLLET OR events (changed e ch), channel c) else None)"
    "map_of (chmap p) = (map_of (chmap (poller l)))(fd ch \<mapsto> channel c)"
    by (auto simp: isInLoopThread_def)
  then show ?thesis
    using that [of p] assms(1) by (simp add: change_channel_def conn_at_def conn_ok_def chan_def)
qed

lemma changed_direction [simp]:
  "isWriting (changed EnableWrite ch)" "isReading (changed EnableRead ch)"
  "isReading (changed EnableWrite ch) = isReading ch"
  "isWriting (changed EnableRead ch) = isWriting ch"
  "isWriting (changed DisableWrite ch) = isWriting ch"
  "\<not> isReading (changed DisableWrite ch)"
  "isNonEvent (changed DisableAll ch)" "\<not> isReading (changed DisableAll ch)" "\<not> isWriting (changed DisableAll ch)"
  by (simp_all add: isReading_def isWriting_def isNonEvent_def change_events.simps(5) CNoneEvent_def)

section \<open>Receiving\<close>

lemma read_loop_step:
  assumes "s \<noteq> []" "i < READ_BUFFER_SIZE"
  defines "k \<equiv> min (READ_BUFFER_SIZE - i) (length s)"
  shows "read_loop b i (Received s # rs) =
    read_loop (take i b @ take k s @ drop (i + k) b) (i + k)
      (if k < length s then Received (drop k s) # rs else rs)"
proof -
  have "k \<noteq> 0" "\<not> i + k > READ_BUFFER_SIZE" "\<not> READ_BUFFER_SIZE \<le> i"
    using assms by auto
  then show ?thesis
    unfolding read_loop.simps [of b i "Received s # rs"] list.case read_result.case k_def [symmetric] Let_def
    by (simp only: if_False)
qed

lemma read_loop_full: "read_loop b READ_BUFFER_SIZE rs = (Stopped, b, READ_BUFFER_SIZE, rs)"
  by (simp add: read_loop.simps)

lemma read_loop_goes_on:
  assumes "\<forall>s \<in> set ss. s \<noteq> []" "i + length (concat ss) < READ_BUFFER_SIZE" "i \<le> length b"
  shows "read_loop b i (map Received ss @ rs) =
    read_loop (take i b @ concat ss @ drop (i + length (concat ss)) b) (i + length (concat ss)) rs"
  using assms
proof (induction ss arbitrary: b i)
  case Nil
  then show ?case by simp
next
  case (Cons s ss)
  let ?b = "take i b @ s @ drop (i + length s) b" and ?i = "i + length s"
  have "min (READ_BUFFER_SIZE - i) (length s) = length s" using Cons.prems(2) by simp
  then have "read_loop b i (map Received (s # ss) @ rs) = read_loop ?b ?i (map Received ss @ rs)"
    using Cons.prems read_loop_step [of s i b "map Received ss @ rs"] by simp
  also have "\<dots> = read_loop (take ?i ?b @ concat ss @ drop (?i + length (concat ss)) ?b) (?i + length (concat ss)) rs"
    by (rule Cons.IH) (use Cons.prems in auto)
  finally show ?case using Cons.prems by (simp add: ac_simps)
qed

lemma read_loop_receives:
  assumes "\<forall>s \<in> set ss. s \<noteq> []" "i + length (concat ss) < READ_BUFFER_SIZE" "i \<le> length b"
  shows "read_loop b i (map Received ss) =
    (Drained, take i b @ concat ss @ drop (i + length (concat ss)) b, i + length (concat ss), [])"
  using read_loop_goes_on [OF assms, of "[]"] assms(2) by (simp add: read_loop.simps)

text \<open>What ends the reading without \<open>EAGAIN\<close>: the end of the stream, or an error.\<close>

definition breaks_off :: "read_result \<Rightarrow> bool" where
  "breaks_off r \<longleftrightarrow> r = Received [] \<or> r = Read_Fails"

lemma read_loop_breaks_off:
  assumes "\<forall>s \<in> set ss. s \<noteq> []" "i + length (concat ss) < READ_BUFFER_SIZE" "i \<le> length b" "breaks_off r"
  shows "\<exists>e b' i' rs'. read_loop b i (map Received ss @ r # rs) = (e, b', i', rs') \<and> e \<noteq> Drained"
  using read_loop_goes_on [OF assms(1-3), of "r # rs"] assms(2,4)
  by (auto simp: breaks_off_def read_loop.simps [of _ _ "r # rs"])

lemma read_loop_overflows:
  assumes "\<forall>s \<in> set ss. s \<noteq> []" "READ_BUFFER_SIZE \<le> i + length (concat ss)" "i \<le> READ_BUFFER_SIZE"
    "length b = READ_BUFFER_SIZE"
  shows "\<exists>rs. read_loop b i (map Received ss @ rest) =
    (Stopped, take i b @ take (READ_BUFFER_SIZE - i) (concat ss), READ_BUFFER_SIZE, rs)"
  using assms
proof (induction ss arbitrary: b i)
  case Nil
  then show ?case by (simp add: read_loop_full)
next
  case (Cons s ss)
  show ?case
  proof (cases "i = READ_BUFFER_SIZE")
    case True
    then show ?thesis using Cons.prems by (simp add: read_loop_full)
  next
    case False
    then have i: "i < READ_BUFFER_SIZE" using Cons.prems(3) by simp
    have s: "s \<noteq> []" using Cons.prems(1) by simp
    note step = read_loop_step [OF s i, of b "map Received ss @ rest"]
    show ?thesis
    proof (cases "READ_BUFFER_SIZE - i \<le> length s")
      case True
      then have "min (READ_BUFFER_SIZE - i) (length s) = READ_BUFFER_SIZE - i" by simp
      then show ?thesis
        using step i Cons.prems(4) True by (simp add: read_loop_full)
    next
      case False
      then have k: "min (READ_BUFFER_SIZE - i) (length s) = length s" by simp
      let ?b = "take i b @ s @ drop (i + length s) b"
      have "\<exists>rs. read_loop ?b (i + length s) (map Received ss @ rest) = (Stopped,
          take (i + length s) ?b @ take (READ_BUFFER_SIZE - (i + length s)) (concat ss),
          READ_BUFFER_SIZE, rs)"
        by (rule Cons.IH) (use Cons.prems False i in auto)
      then show ?thesis
        using step k False i Cons.prems(4) by (simp add: ac_simps)
    qed
  qed
qed

lemma world_self: "(w :: tcp_world)\<lparr> reads := r, conns := conns w \<rparr> = w\<lparr> reads := r \<rparr>"
  by (cases w) simp

text \<open>The state after the characters \<open>t\<close> were received and the callback is about to run.\<close>

definition received :: "nat \<Rightarrow> tcp_conn \<Rightarrow> int \<Rightarrow> http_context \<Rightarrow> string \<Rightarrow> loop_state \<Rightarrow> loop_state" where
  "received x c n ctx t l =
     (let i = conn_readIdx c; b = take i (readBuf c) @ t @ drop (i + length t) (readBuf c)
      in l\<lparr> world := (world l)\<lparr> reads := (reads (world l))(n := []),
           conns := (conns (world l))(x \<mapsto> c\<lparr> readBuf := b, conn_readIdx := i + length t,
             conn_context := Some (setBuffer b (i + length t) ctx) \<rparr>) \<rparr> \<rparr>)"

lemma handleRead_messages:
  assumes "conn_ok l x c ch" "isInLoopThread tid l" "conn_context c = Some ctx"
    "reads (world l) (fd ch) = map Received ss" "\<forall>s \<in> set ss. s \<noteq> []"
    "length (readBuf c) = READ_BUFFER_SIZE" "conn_readIdx c + length (concat ss) < READ_BUFFER_SIZE"
    "on_message cb = Some f"
  shows "handleRead cb tid x l =
    f x (take (conn_readIdx c) (readBuf c) @ concat ss @
           drop (conn_readIdx c + length (concat ss)) (readBuf c))
      (conn_readIdx c + length (concat ss)) (received x c (fd ch) ctx (concat ss) l)"
proof -
  have "read_loop (readBuf c) (conn_readIdx c) (map Received ss) = (Drained,
      take (conn_readIdx c) (readBuf c) @ concat ss @ drop (conn_readIdx c + length (concat ss)) (readBuf c),
      conn_readIdx c + length (concat ss), [])"
    by (rule read_loop_receives) (use assms in auto)
  then show ?thesis
    using assms(2-8)
    by (simp add: conn_okD [OF assms(1)] handleRead_def modify_conn_def setContext_def received_def Let_def)
qed

text \<open>Nothing but the buffer of the connection and what the socket holds has changed.\<close>

definition only_buffered :: "nat \<Rightarrow> int \<Rightarrow> loop_state \<Rightarrow> loop_state \<Rightarrow> bool" where
  "only_buffered x n l l' \<longleftrightarrow> (\<exists>c b i rs. conns (world l) x = Some c \<and>
     l' = l\<lparr> world := (world l)\<lparr> reads := (reads (world l))(n := rs),
       conns := (conns (world l))(x \<mapsto> c\<lparr> readBuf := b, conn_readIdx := i \<rparr>) \<rparr> \<rparr>)"

lemma not_drained_buffers:
  assumes "conn_ok l x c ch" "isInLoopThread tid l"
    "read_loop (readBuf c) (conn_readIdx c) (reads (world l) (fd ch)) = (e, b, i, rs)" "e \<noteq> Drained"
  shows "\<exists>l'. handleRead cb tid x l = Inr l' \<and> only_buffered x (fd ch) l l'"
proof -
  define l' where "l' = l\<lparr> world := (world l)\<lparr> reads := (reads (world l))(fd ch := rs),
    conns := (conns (world l))(x \<mapsto> c\<lparr> readBuf := b, conn_readIdx := i \<rparr>) \<rparr> \<rparr>"
  have "handleRead cb tid x l = Inr l'"
    using assms(2-4) by (cases e) (simp_all add: conn_okD [OF assms(1)] handleRead_def modify_conn_def handleError_def
        conn_at_def l'_def Let_def)
  moreover have "only_buffered x (fd ch) l l'"
    unfolding only_buffered_def l'_def using conn_okD(2) [OF assms(1)] by blast
  ultimately show ?thesis by blast
qed

lemma end_of_stream_is_silent:
  assumes "conn_ok l x c ch" "isInLoopThread tid l" "conn_readIdx c + length (concat ss) < READ_BUFFER_SIZE"
    "length (readBuf c) = READ_BUFFER_SIZE" "reads (world l) (fd ch) = map Received ss @ r # rs"
    "\<forall>s \<in> set ss. s \<noteq> []" "breaks_off r"
  shows "\<exists>l'. handleRead cb tid x l = Inr l' \<and> only_buffered x (fd ch) l l'"
proof -
  have "conn_readIdx c \<le> length (readBuf c)" using assms(3,4) by simp
  from read_loop_breaks_off [OF assms(6,3) this assms(7), of rs] show ?thesis
    unfolding assms(5) [symmetric] using not_drained_buffers [OF assms(1,2)] by blast
qed

text \<open>
  C12: what becomes of the characters that are available on a socket when it is readable, however they
  are split over calls of \<open>read\<close>. If the calls end because nothing more is there now (\<open>EAGAIN\<close>) and the
  characters leave room in the read buffer, \<open>handleRead\<close> puts all of them, in order, behind what the
  buffer already holds, hands the buffer to the parser, and calls the message callback once with the
  buffer and the number of its characters. If the calls end with the end of the stream or an error,
  or if the characters fill the buffer, none of them is delivered: the callback is not called, and
  nothing but the buffer changes, neither the state of the connection nor what the loop watches.
\<close>

theorem handleRead_delivers:
  assumes "conn_ok l x c ch" "isInLoopThread tid l" "conn_context c = Some ctx" "on_message cb = Some f"
    "length (readBuf c) = READ_BUFFER_SIZE" "conn_readIdx c \<le> READ_BUFFER_SIZE"
    "reads (world l) (fd ch) = map Received ss @ rest" "\<forall>s \<in> set ss. s \<noteq> []" "rest = [] \<or> breaks_off (hd rest)"
  shows "if rest = [] \<and> conn_readIdx c + length (concat ss) < READ_BUFFER_SIZE
    then handleRead cb tid x l =
      f x (take (conn_readIdx c) (readBuf c) @ concat ss @
             drop (conn_readIdx c + length (concat ss)) (readBuf c))
        (conn_readIdx c + length (concat ss)) (received x c (fd ch) ctx (concat ss) l)
    else \<exists>l'. handleRead cb tid x l = Inr l' \<and> only_buffered x (fd ch) l l'"
proof (cases "conn_readIdx c + length (concat ss) < READ_BUFFER_SIZE")
  case True
  show ?thesis
  proof (cases rest)
    case Nil
    then show ?thesis using handleRead_messages [OF assms(1-3) _ assms(8,5) True assms(4)] assms(7) True by simp
  next
    case (Cons r rs)
    then show ?thesis
      using end_of_stream_is_silent [OF assms(1,2) True assms(5) _ assms(8), of r rs cb] assms(7,9) by simp
  qed
next
  case False
  then obtain rs where "read_loop (readBuf c) (conn_readIdx c) (reads (world l) (fd ch)) = (Stopped,
      take (conn_readIdx c) (readBuf c) @ take (READ_BUFFER_SIZE - conn_readIdx c) (concat ss), READ_BUFFER_SIZE, rs)"
    using read_loop_overflows [OF assms(8) _ assms(6,5), of rest] assms(7) by auto
  then show ?thesis using not_drained_buffers [OF assms(1,2)] False by simp
qed

definition demo_conn :: "string \<Rightarrow> nat \<Rightarrow> conn_state \<Rightarrow> tcp_conn" where
  "demo_conn rb i s = \<lparr> sockFd = 5, channel = 7, state = s, conn_name = ''c'', reading = True,
     conn_readIdx = i, writeIdx = 0, conn_context = Some (HttpContext None 0), readBuf = rb,
     writeBuf = replicate WRITE_BUFFER_SIZE NUL \<rparr>"

definition demo_channel :: "bound_call Channel.channel" where
  "demo_channel = setCloseCB (HandleClose 3) (setErrorCB (HandleError 3) (setWriteCB (HandleWrite 3)
     (setReadCB (HandleRead 3) (Channel 5))))"

definition demo_loop ::
    "tcp_conn \<Rightarrow> bound_call Channel.channel \<Rightarrow> read_result list \<Rightarrow> write_result list \<Rightarrow> loop_state" where
  "demo_loop c ch rs ws = bare_loop \<lparr> chans = [7 \<mapsto> ch], chmap = [(5, 7)], eventVec_size = 16,
       interest = [5 \<mapsto> (EPOLLET OR events ch, 7)] \<rparr>
     \<lparr> conns = [3 \<mapsto> c], reads = (\<lambda>_. [])(5 := rs), writes = (\<lambda>_. [])(5 := ws), sent = (\<lambda>_. []),
       wr_shut = (\<lambda>_. False) \<rparr>"

definition demo_callbacks :: callbacks where
  "demo_callbacks = \<lparr> on_connection = Some (\<lambda>_. Inr), on_message = Some (\<lambda>_ _ _. Inr),
     on_close = Some (\<lambda>_. Inr), on_write_complete = False \<rparr>"

lemma demo_conn_ok:
  assumes "channel c = 7" "status ch = CAdded" "fd ch = 5"
  shows "conn_ok (demo_loop c ch rs ws) 3 c ch" "isInLoopThread 1 (demo_loop c ch rs ws)"
proof -
  have "poller_inv None (poller (demo_loop c ch rs ws))"
    using one_channel_inv [of ch 5 None 7 16] assms by (simp add: demo_loop_def bare_loop_def)
  then show "conn_ok (demo_loop c ch rs ws) 3 c ch"
    using assms by (auto simp: conn_ok_def loop_inv_def chan_def demo_loop_def bare_loop_def split: if_splits)
  show "isInLoopThread 1 (demo_loop c ch rs ws)"
    by (simp add: isInLoopThread_def demo_loop_def bare_loop_def)
qed

lemma buffer_sizes [simp]: "10 < READ_BUFFER_SIZE" "10 < WRITE_BUFFER_SIZE"
  by (simp_all add: READ_BUFFER_SIZE_def WRITE_BUFFER_SIZE_def)

theorem handleRead_delivers_witness:
  fixes c ch
  defines "c \<equiv> demo_conn (replicate READ_BUFFER_SIZE NUL) 0 CConnected"
    and "ch \<equiv> demo_channel\<lparr> status := CAdded, events := CReadEvent \<rparr>"
  shows "handleRead demo_callbacks 1 3 (demo_loop c ch [Received ''GE'', Received ''T''] []) =
      Inr (received 3 c 5 (HttpContext None 0) ''GET'' (demo_loop c ch [Received ''GE'', Received ''T''] [])) \<and>
    (\<exists>l'. handleRead demo_callbacks 1 3 (demo_loop c ch [Received ''GET'', Received []] []) = Inr l' \<and>
      only_buffered 3 5 (demo_loop c ch [Received ''GET'', Received []] []) l')"
proof -
  have d: "channel c = 7" "status ch = CAdded" "fd ch = 5"
    by (simp_all add: c_def ch_def demo_conn_def demo_channel_def Channel_def setter_defs)
  note ok = demo_conn_ok [OF this]
  have c: "conn_context c = Some (HttpContext None 0)" "on_message demo_callbacks = Some (\<lambda>_ _ _. Inr)"
      "length (readBuf c) = READ_BUFFER_SIZE" "conn_readIdx c \<le> READ_BUFFER_SIZE" "conn_readIdx c = 0"
    by (simp_all add: c_def demo_conn_def demo_callbacks_def)
  have s3: "3 < READ_BUFFER_SIZE" by (simp add: READ_BUFFER_SIZE_def)
  have rd: "reads (world (demo_loop c ch rs [])) (fd ch) = rs" for rs
    by (simp add: demo_loop_def bare_loop_def d(3))
  show ?thesis
    using handleRead_delivers [OF ok c(1-4), of "[Received ''GE'', Received ''T'']" "[]" "[''GE'', ''T'']" "[]"]
      handleRead_delivers [OF ok c(1-4), of "[Received ''GET'', Received []]" "[]" "[''GET'']" "[Received []]"] c(5) s3
    unfolding rd by (simp add: breaks_off_def d(3))
qed

text \<open>
  Characters that fill the read buffer are never handed on: \<open>handleRead\<close> then returns without
  calling the message callback, since a \<open>read\<close> into a full buffer returns 0 and is taken for the end
  of the stream; and from then on every later call does the same, whatever arrives.
\<close>

lemma full_read_buffer_is_silent:
  assumes "conn_ok l x c ch" "isInLoopThread tid l"
    "reads (world l) (fd ch) = map Received ss" "\<forall>s \<in> set ss. s \<noteq> []"
    "length (readBuf c) = READ_BUFFER_SIZE" "conn_readIdx c \<le> READ_BUFFER_SIZE"
    "READ_BUFFER_SIZE \<le> conn_readIdx c + length (concat ss)"
  shows "\<exists>l' c'. handleRead cb tid x l = Inr l' \<and> conn_ok l' x c' ch \<and> conn_readIdx c' = READ_BUFFER_SIZE \<and>
    (\<forall>rs'. handleRead cb tid x (l'\<lparr> world := (world l')\<lparr> reads := (reads (world l'))(fd ch := rs') \<rparr> \<rparr>) =
      Inr (l'\<lparr> world := (world l')\<lparr> reads := (reads (world l'))(fd ch := rs') \<rparr> \<rparr>))"
proof -
  obtain rs where rs: "read_loop (readBuf c) (conn_readIdx c) (map Received ss) = (Stopped,
      take (conn_readIdx c) (readBuf c) @ take (READ_BUFFER_SIZE - conn_readIdx c) (concat ss),
      READ_BUFFER_SIZE, rs)"
    using read_loop_overflows [OF assms(4,7,6,5), of "[]"] by auto
  define c' where "c' = c\<lparr> readBuf := take (conn_readIdx c) (readBuf c) @
      take (READ_BUFFER_SIZE - conn_readIdx c) (concat ss), conn_readIdx := READ_BUFFER_SIZE \<rparr>"
  define l' where "l' = l\<lparr> world := (world l)\<lparr> reads := (reads (world l))(fd ch := rs),
      conns := (conns (world l))(x \<mapsto> c') \<rparr> \<rparr>"
  have "handleRead cb tid x l = Inr l'"
    using assms(2-3) rs
    by (simp add: conn_okD [OF assms(1)] handleRead_def modify_conn_def Let_def l'_def c'_def)
  moreover have ok: "conn_ok l' x c' ch"
    using assms(1) by (simp add: conn_ok_def l'_def c'_def chan_def)
  moreover have "handleRead cb tid x (l'\<lparr> world := (world l')\<lparr> reads := (reads (world l'))(fd ch := rs') \<rparr> \<rparr>) =
      Inr (l'\<lparr> world := (world l')\<lparr> reads := (reads (world l'))(fd ch := rs') \<rparr> \<rparr>)" for rs'
  proof -
    let ?l = "l'\<lparr> world := (world l')\<lparr> reads := (reads (world l'))(fd ch := rs') \<rparr> \<rparr>"
    have ok': "conn_ok ?l x c' ch" using ok by (simp add: conn_ok_def chan_def)
    have same: "(conns (world l'))(x \<mapsto> c'\<lparr> readBuf := readBuf c', conn_readIdx := READ_BUFFER_SIZE \<rparr>) = conns (world l')"
      by (auto simp: l'_def c'_def fun_eq_iff)
    have "isInLoopThread tid ?l" "conn_readIdx c' = READ_BUFFER_SIZE"
      using assms(2) by (simp_all add: isInLoopThread_def l'_def c'_def)
    then show ?thesis
      using same conn_okD(2) [OF ok]
      by (simp add: world_self conn_okD [OF ok'] handleRead_def read_loop_full modify_conn_def Let_def)
  qed
  moreover have "conn_readIdx c' = READ_BUFFER_SIZE" by (simp add: c'_def)
  ultimately show ?thesis by blast
qed

lemma full_read_buffer_is_silent_witness:
  fixes c ch l
  defines "c \<equiv> demo_conn (replicate READ_BUFFER_SIZE NUL) (READ_BUFFER_SIZE - 1) CConnected"
    and "ch \<equiv> demo_channel\<lparr> status := CAdded, events := CReadEvent \<rparr>"
    and "l \<equiv> demo_loop c ch [Received ''xy''] []"
  shows "\<exists>l' c'. handleRead demo_callbacks 1 3 l = Inr l' \<and> conn_ok l' 3 c' ch \<and> conn_readIdx c' = READ_BUFFER_SIZE \<and>
    (\<forall>rs'. handleRead demo_callbacks 1 3 (l'\<lparr> world := (world l')\<lparr> reads := (reads (world l'))(fd ch := rs') \<rparr> \<rparr>) =
      Inr (l'\<lparr> world := (world l')\<lparr> reads := (reads (world l'))(fd ch := rs') \<rparr> \<rparr>))"
proof -
  have "channel c = 7" "status ch = CAdded" "fd ch = 5"
    by (simp_all add: c_def ch_def demo_conn_def demo_channel_def Channel_def setter_defs)
  note ok = demo_conn_ok [OF this, of "[Received ''xy'']" "[]", folded l_def]
  show ?thesis
    by (rule full_read_buffer_is_silent [OF ok, where ss = "[''xy'']"])
      (simp_all add: c_def demo_conn_def l_def demo_loop_def bare_loop_def \<open>fd ch = 5\<close>)
qed

section \<open>Sending at once\<close>

definition clear_read :: "tcp_conn \<Rightarrow> tcp_conn" where
  "clear_read c = c\<lparr> conn_readIdx := 0, readBuf := replicate (length (readBuf c)) NUL \<rparr>"

definition completion :: "bool \<Rightarrow> nat \<Rightarrow> bound_call list" where
  "completion wc x = (if wc then [WriteComplete x] else [])"

lemma send_all:
  assumes "conn_ok l x c ch" "isInLoopThread tid l" "state c = CConnected" "\<not> isWriting ch"
    "writes (world l) (fd ch) = Takes k # ws" "length data \<le> k"
  shows "send wc tid x data l = Inr (l\<lparr>
    world := (world l)\<lparr> conns := (conns (world l))(x \<mapsto> clear_read c),
      writes := (writes (world l))(fd ch := ws),
      sent := (sent (world l))(fd ch := sent (world l) (fd ch) @ data) \<rparr>,
    pendingFunctor := pendingFunctor l @ completion wc x \<rparr>)"
  using assms(2-6)
  by (simp add: conn_okD [OF assms(1)] send_def sendInLoop_def sys_write_def modify_conn_def Let_def
      clear_read_def completion_def min_def)

text \<open>
  When the kernel takes all of the data, \<open>send\<close> writes exactly the data, keeps nothing,
  empties the read buffer for the next request and, if there is a completion callback, queues its
  functor once.
\<close>

lemma send_at_once:
  assumes "conn_ok l x c ch" "isInLoopThread tid l" "state c = CConnected" "\<not> isWriting ch"
    "writes (world l) (fd ch) = Takes k # ws" "length data \<le> k"
  shows "send wc tid x data l = Inr (l\<lparr>
    world := (world l)\<lparr> conns := (conns (world l))(x \<mapsto> clear_read c),
      writes := (writes (world l))(fd ch := ws),
      sent := (sent (world l))(fd ch := sent (world l) (fd ch) @ data) \<rparr>,
    pendingFunctor := pendingFunctor l @ completion wc x \<rparr>)"
  by (rule send_all [OF assms])


lemma send_at_once_witness:
  fixes c ch l
  defines "c \<equiv> demo_conn ''abc'' 3 CConnected"
    and "ch \<equiv> demo_channel\<lparr> status := CAdded, events := CReadEvent \<rparr>"
    and "l \<equiv> demo_loop c ch [] [Takes 9]"
  shows "send False 1 3 ''hello'' l = Inr (l\<lparr>
    world := (world l)\<lparr> conns := (conns (world l))(3 \<mapsto> clear_read c),
      writes := (writes (world l))(5 := []), sent := (sent (world l))(5 := ''hello'') \<rparr> \<rparr>)"
proof -
  have ch: "channel c = 7" "status ch = CAdded" "fd ch = 5" "\<not> isWriting ch" "state c = CConnected"
    by (simp_all add: c_def ch_def demo_conn_def demo_channel_def Channel_def setter_defs isWriting_def)
  note ok = demo_conn_ok [OF ch(1-3), of "[]" "[Takes 9]", folded l_def]
  have "send False 1 3 ''hello'' l = Inr (l\<lparr>
    world := (world l)\<lparr> conns := (conns (world l))(3 \<mapsto> clear_read c),
      writes := (writes (world l))(fd ch := []),
      sent := (sent (world l))(fd ch := sent (world l) (fd ch) @ ''hello'') \<rparr>,
    pendingFunctor := pendingFunctor l @ completion False 3 \<rparr>)"
    by (rule send_at_once [OF ok ch(5,4), of 9])
      (simp_all add: l_def demo_loop_def bare_loop_def ch)
  then show ?thesis
    using ch(3) by (simp add: l_def demo_loop_def bare_loop_def completion_def demo_callbacks_def)
qed

section \<open>Sending in parts\<close>

text \<open>
  C34: when the kernel takes only the first \<open>k\<close> characters, \<open>send\<close> writes exactly these, and keeps
  the rest at the end of the write buffer up to its first zero character, since it copies a C
  string, while it counts all of it; the channel then waits for the socket to become writable. The
  data is all kept only if it has no zero character.
\<close>

theorem send_keeps_rest:
  assumes "conn_ok l x c ch" "isInLoopThread tid l" "state c = CConnected" "\<not> isWriting ch"
    "writes (world l) (fd ch) = Takes k # ws" "k < length data"
    "writeIdx c + length data - k + 1 \<le> length (writeBuf c)"
  defines "s \<equiv> before NUL (drop k data)"
  shows "\<exists>l' c'. send wc tid x data l = Inr l' \<and> conn_ok l' x c' (changed EnableWrite ch) \<and>
    isWriting (changed EnableWrite ch) \<and> state c' = CConnected \<and>
    sent (world l') = (sent (world l))(fd ch := sent (world l) (fd ch) @ take k data) \<and>
    writeIdx c' = writeIdx c + (length data - k) \<and>
    take (writeIdx c + length s) (writeBuf c') = take (writeIdx c) (writeBuf c) @ s \<and>
    writeBuf c' ! (writeIdx c + length s) = NUL \<and> length (writeBuf c') = length (writeBuf c) \<and>
    (NUL \<notin> set data \<longrightarrow> s = drop k data)"
proof -
  have "length s \<le> length data - k"
    unfolding s_def before_def by (metis length_drop length_takeWhile_le)
  then have fits: "writeIdx c + length s + 1 \<le> length (writeBuf c)" using assms(6,7) by linarith
  define b where
    "b = take (writeIdx c) (writeBuf c) @ s @ [NUL] @ drop (writeIdx c + length s + 1) (writeBuf c)"
  have cpy: "strcpy_at (writeBuf c) (writeIdx c) s = Inr b" using fits by (simp add: strcpy_at_def b_def)
  define c1 where "c1 = c\<lparr> writeBuf := b, writeIdx := writeIdx c + length data - k \<rparr>"
  let ?w = "(world l)\<lparr> writes := (writes (world l))(fd ch := ws),
    sent := (sent (world l))(fd ch := sent (world l) (fd ch) @ take k data) \<rparr>"
  define l1 where "l1 = l\<lparr> world := ?w\<lparr> conns := (conns (world l))(x \<mapsto> c1) \<rparr> \<rparr>"
  have ok1: "conn_ok l1 x c1 ch" "isInLoopThread tid l1"
    using assms(1,2) by (simp_all add: conn_ok_def l1_def c1_def chan_def isInLoopThread_def)
  obtain p where p: "change_channel tid EnableWrite x l1 = Inr (l1\<lparr> poller := p \<rparr>)"
      "conn_ok (l1\<lparr> poller := p \<rparr>) x c1 (changed EnableWrite ch)"
    using change_channel_ok [OF ok1] by blast
  let ?l = "l1\<lparr> poller := p, world := (world l1)\<lparr> conns := (conns (world l1))(x \<mapsto> clear_read c1) \<rparr> \<rparr>"
  have neq: "int (min k (length data)) \<noteq> int (length data)" "int k < int (length data)"
    using assms(6) by simp_all
  have wc: "with_channel x l1 f = f ch" for f :: "bound_call Channel.channel \<Rightarrow> loop_state res"
    by (rule conn_okD [OF ok1(1)])
  have "sendInLoop wc tid x data l = Inr ?l"
    using assms(2-6) neq p(1) cpy wc
    by (simp add: conn_okD [OF assms(1)] sendInLoop_def sys_write_def modify_conn_def Let_def
        c_string_def conn_at_def nat_diff_distrib s_def [symmetric] min.absorb1
        flip: c1_def l1_def) (simp add: clear_read_def l1_def)
  then have "send wc tid x data l = Inr ?l"
    using assms(2,3) by (simp add: send_def conn_okD [OF assms(1)])
  moreover have "conn_ok ?l x (clear_read c1) (changed EnableWrite ch)"
    using p(2) by (simp add: conn_ok_def chan_def clear_read_def loop_inv_def)
  moreover have "NUL \<notin> set data \<longrightarrow> s = drop k data"
    by (metis s_def before_all in_set_dropD)
  ultimately show ?thesis
    using fits assms(3,6)
    by (intro exI [of _ ?l] exI [of _ "clear_read c1"])
      (simp add: clear_read_def c1_def b_def l1_def nth_append, arith?)
qed

lemma demo_channel_facts:
  assumes "ch = demo_channel\<lparr> status := CAdded, events := e \<rparr>"
  shows "status ch = CAdded" "fd ch = 5" "isWriting ch \<longleftrightarrow> e AND CWriteEvent \<noteq> 0" "events ch = e"
  using assms by (simp_all add: demo_channel_def Channel_def setter_defs isWriting_def)

lemma demo_conn_facts [simp]:
  "channel (demo_conn rb i s) = 7" "state (demo_conn rb i s) = s" "writeIdx (demo_conn rb i s) = 0"
  "length (writeBuf (demo_conn rb i s)) = WRITE_BUFFER_SIZE" "readBuf (demo_conn rb i s) = rb"
  "conn_readIdx (demo_conn rb i s) = i"
  by (simp_all add: demo_conn_def)

lemma demo_loop_facts [simp]:
  "writes (world (demo_loop c ch rs ws)) = (\<lambda>_. [])(5 := ws)"
  "reads (world (demo_loop c ch rs ws)) = (\<lambda>_. [])(5 := rs)"
  "sent (world (demo_loop c ch rs ws)) = (\<lambda>_. [])"
  "conns (world (demo_loop c ch rs ws)) = [3 \<mapsto> c]"
  "wr_shut (world (demo_loop c ch rs ws)) = (\<lambda>_. False)"
  by (simp_all add: demo_loop_def bare_loop_def)

theorem send_keeps_rest_witness:
  fixes c ch l
  defines "c \<equiv> demo_conn ''abc'' 3 CConnected"
    and "ch \<equiv> demo_channel\<lparr> status := CAdded, events := CReadEvent \<rparr>"
    and "l \<equiv> demo_loop c ch [] [Takes 2]"
  shows "\<exists>l' c'. send False 1 3 ''hello'' l = Inr l' \<and> conn_ok l' 3 c' (changed EnableWrite ch) \<and>
    sent (world l') 5 = ''he'' \<and> writeIdx c' = 3 \<and> take 3 (writeBuf c') = ''llo''"
proof -
  have ch: "channel c = 7" "status ch = CAdded" "fd ch = 5" "\<not> isWriting ch" "state c = CConnected"
    using demo_channel_facts [OF ch_def [THEN meta_eq_to_obj_eq]] by (simp_all add: c_def)
  note ok = demo_conn_ok [OF ch(1-3), of "[]" "[Takes 2]", folded l_def]
  have s: "before NUL (drop 2 ''hello'') = ''llo''" by (simp add: before_def)
  have fits: "writeIdx c + length ''hello'' - 2 + 1 \<le> length (writeBuf c)"
    by (simp add: c_def WRITE_BUFFER_SIZE_def)
  have w: "writes (world l) (fd ch) = Takes 2 # []" by (simp add: l_def ch(3))
  have k: "2 < length ''hello''" by simp
  obtain l' c' where r: "send False 1 3 ''hello'' l = Inr l'"
      "conn_ok l' 3 c' (changed EnableWrite ch)"
      "sent (world l') = (sent (world l))(fd ch := sent (world l) (fd ch) @ take 2 ''hello'')"
      "writeIdx c' = writeIdx c + (length ''hello'' - 2)"
      "take (writeIdx c + length (before NUL (drop 2 ''hello''))) (writeBuf c') =
       take (writeIdx c) (writeBuf c) @ before NUL (drop 2 ''hello'')"
    using send_keeps_rest [OF ok ch(5,4) w k fits] by blast
  have "sent (world l') 5 = ''he''" using r(3) ch(3) by (simp add: l_def)
  moreover have "writeIdx c' = 3" using r(4) by (simp add: c_def)
  moreover have "take 3 (writeBuf c') = ''llo''" using r(5) unfolding s by (simp add: c_def eval_nat_numeral)
  ultimately show ?thesis using r(1,2) by blast
qed

text \<open>
  When the socket cannot take anything at the moment (\<open>EAGAIN\<close>), \<open>send\<close> does not keep the
  data for later: it copies from one character before the data, which is outside its object. The
  same happens for any error that does not mean that the connection was reset.
\<close>

lemma send_would_block_is_undefined:
  assumes "conn_ok l x c ch" "isInLoopThread tid l" "state c = CConnected" "\<not> isWriting ch"
    "writes (world l) (fd ch) = [] \<or> hd (writes (world l) (fd ch)) \<in> {Write_Blocks, Write_Fails}"
  shows "send wc tid x data l = Inl Out_Of_Bounds"
proof -
  define r where "r = (case writes (world l) (fd ch) of [] \<Rightarrow> Write_Blocks | r # _ \<Rightarrow> r)"
  define w where "w = (world l)\<lparr> writes := (writes (world l))(fd ch := tl (writes (world l) (fd ch))) \<rparr>"
  have r: "r = Write_Blocks \<or> r = Write_Fails"
    using assms(5) by (auto simp: r_def split: list.splits)
  then have sw: "sys_write (fd ch) data (world l) = ((- 1, r), w)"
    by (auto simp: sys_write_def Let_def r_def [symmetric] w_def)
  have ok: "conn_ok (l\<lparr> world := w \<rparr>) x c ch" "isInLoopThread tid (l\<lparr> world := w \<rparr>)"
    using assms(1,2) by (simp_all add: conn_ok_def chan_def w_def isInLoopThread_def)
  obtain p where p: "change_channel tid EnableWrite x (l\<lparr> world := w \<rparr>) = Inr (l\<lparr> world := w, poller := p \<rparr>)"
      "conn_ok (l\<lparr> world := w, poller := p \<rparr>) x c (changed EnableWrite ch)"
    using change_channel_ok [OF ok] by blast
  have "conn_at x (l\<lparr> world := w, poller := p \<rparr>) = Inr c" "conn_at x (l\<lparr> world := w \<rparr>) = Inr c"
    using conn_okD(4) [OF p(2)] conn_okD(4) [OF ok(1)] by simp_all
  then show ?thesis
    using assms(2-4) sw r p(1)
    by (auto simp: send_def sendInLoop_def conn_okD [OF assms(1)] c_string_def)
qed

lemma send_would_block_is_undefined_witness:
  "send False 1 3 ''hello'' (demo_loop (demo_conn [] 0 CConnected)
     (demo_channel\<lparr> status := CAdded, events := CReadEvent \<rparr>) [] [Write_Blocks]) = Inl Out_Of_Bounds"
proof -
  let ?ch = "demo_channel\<lparr> status := CAdded, events := CReadEvent \<rparr>"
  note ch = demo_channel_facts [of ?ch, OF refl]
  note ok = demo_conn_ok [of "demo_conn [] 0 CConnected" ?ch "[]" "[Write_Blocks]", OF _ ch(1,2)]
  show ?thesis
    by (rule send_would_block_is_undefined [OF ok]) (simp_all add: ch del: channel.update_convs)
qed

section \<open>Writing what was kept\<close>

text \<open>The world after \<open>write\<close> took \<open>data\<close>, with \<open>rs\<close> the results that are left.\<close>

definition written :: "int \<Rightarrow> string \<Rightarrow> write_result list \<Rightarrow> loop_state \<Rightarrow> loop_state" where
  "written n data rs l = l\<lparr> world := (world l)\<lparr> writes := (writes (world l))(n := rs),
     sent := (sent (world l))(n := sent (world l) n @ data) \<rparr> \<rparr>"

lemma written_written [simp]: "written n d' rs' (written n d rs l) = written n (d @ d') rs' l"
  by (simp add: written_def)

lemma written_simps [simp]:
  "conn_ok (written n d rs l) x c ch = conn_ok l x c ch"
  "isInLoopThread tid (written n d rs l) = isInLoopThread tid l"
  "pendingFunctor (written n d rs l) = pendingFunctor l"
  "wr_shut (world (written n d rs l)) = wr_shut (world l)"
  by (simp_all add: written_def conn_ok_def chan_def isInLoopThread_def)

definition emptied :: "tcp_conn \<Rightarrow> tcp_conn" where
  "emptied c = c\<lparr> writeIdx := 0, writeBuf := replicate (length (writeBuf c)) NUL \<rparr>"

text \<open>The state after the loop has ended, with \<open>out\<close> sent in all, and the poller it leaves.\<close>

definition flushed :: "callbacks \<Rightarrow> nat \<Rightarrow> tcp_conn \<Rightarrow> int \<Rightarrow> string \<Rightarrow> write_result list \<Rightarrow>
    bound_call poller \<Rightarrow> loop_state \<Rightarrow> loop_state" where
  "flushed cb x c n out rs p l = (written n out rs l)\<lparr> poller := p,
     pendingFunctor := pendingFunctor l @ completion (on_write_complete cb) x,
     world := (world (written n out rs l))\<lparr> conns := (conns (world l))(x \<mapsto> emptied c) \<rparr> \<rparr>"

definition write_disabled ::
    "tcp_conn \<Rightarrow> bound_call Channel.channel \<Rightarrow> loop_state \<Rightarrow> bound_call poller \<Rightarrow> bool" where
  "write_disabled c ch l p \<longleftrightarrow>
     chans p = (chans (poller l))(channel c \<mapsto> changed DisableWrite ch) \<and> loop_inv (l\<lparr> poller := p \<rparr>)"

lemma flushed_written [simp]:
  "flushed cb x c n out rs p (written n d rs' l) = flushed cb x c n (d @ out) rs p l"
  "write_disabled c ch (written n d rs' l) p = write_disabled c ch l p"
  by (simp_all add: flushed_def write_disabled_def written_def loop_inv_def chan_def)

lemma write_loop_partial:
  assumes "conn_ok l x c ch" "writeIdx c \<le> length (writeBuf c)" "0 < k" "k \<le> writeIdx c"
    "have_sent + int k < to_send - int k"
  shows "write_loop cb tid x to_send have_sent (Takes k # rs) l =
    write_loop cb tid x (to_send - int k) (have_sent + int k) rs
      (written (fd ch) (take k (writeBuf c)) rs l)"
  using assms(2-5)
  by (simp add: write_loop.simps [of cb tid x to_send have_sent] conn_okD [OF assms(1)] sys_write_def
      Let_def written_def min_def)

lemma write_loop_completes:
  assumes "conn_ok l x c ch" "isInLoopThread tid l" "isWriting ch"
    "writeIdx c \<le> length (writeBuf c)" "0 < k" "0 < writeIdx c"
    "to_send - int (min k (writeIdx c)) \<le> have_sent + int (min k (writeIdx c))"
  shows "\<exists>p. write_loop cb tid x to_send have_sent (Takes k # rs) l =
      Inr (flushed cb x c (fd ch) (take (min k (writeIdx c)) (writeBuf c)) rs p l) \<and>
    write_disabled c ch l p"
proof -
  let ?k = "min k (writeIdx c)"
  define l1 where "l1 = written (fd ch) (take ?k (writeBuf c)) rs l"
  have ok1: "conn_ok l1 x c ch" "isInLoopThread tid l1" using assms(1,2) by (simp_all add: l1_def)
  obtain p where p: "change_channel tid DisableWrite x l1 = Inr (l1\<lparr> poller := p \<rparr>)"
      "conn_ok (l1\<lparr> poller := p \<rparr>) x c (changed DisableWrite ch)"
      "chans p = (chans (poller l1))(channel c \<mapsto> changed DisableWrite ch)"
    using change_channel_ok [OF ok1] by blast
  let ?l2 = "l1\<lparr> poller := p, pendingFunctor := pendingFunctor l1 @ completion (on_write_complete cb) x \<rparr>"
  have ok2: "conn_ok ?l2 x c (changed DisableWrite ch)" and th2: "isInLoopThread tid ?l2"
    using p(2) ok1(2) by (simp_all add: conn_ok_def chan_def loop_inv_def isInLoopThread_def)
  have shut: "shutdownInLoop tid x ?l2 = Inr ?l2"
    using th2 assms(3) by (simp add: shutdownInLoop_def conn_okD [OF ok2])
  have sw: "sys_write (fd ch) (take (writeIdx c) (writeBuf c))
       ((world l)\<lparr> writes := (writes (world l))(fd ch := Takes k # rs) \<rparr>) =
      ((int ?k, Takes k), world l1)"
    using assms(4) by (simp add: sys_write_def Let_def l1_def written_def min.absorb2)
  have l1: "l\<lparr> world := world l1 \<rparr> = l1" by (simp add: l1_def written_def)
  have comp: "(if on_write_complete cb then queueInLoop tid (WriteComplete x) (l1\<lparr> poller := p \<rparr>)
      else l1\<lparr> poller := p \<rparr>) = ?l2"
    by (simp add: completion_def)
  have cw: "conns (world l1) = conns (world l)" "conns (world l) x = Some c"
    using conn_okD(2) [OF assms(1)] by (simp_all add: l1_def written_def)
  have "write_loop cb tid x to_send have_sent (Takes k # rs) l =
      modify_conn x (\<lambda>c. c\<lparr> writeIdx := 0, writeBuf := replicate (length (writeBuf c)) NUL \<rparr>) ?l2"
    unfolding write_loop.simps [of cb tid x to_send have_sent "Takes k # rs"] conn_okD(5) [OF assms(1)]
      conn_okD(4) [OF assms(1)] bindE_Inr sw l1 Let_def prod.case
    using assms(4-7) p(1) comp shut by simp
  also have "\<dots> = Inr (?l2\<lparr> world := (world l1)\<lparr> conns := (conns (world l))(x \<mapsto> emptied c) \<rparr> \<rparr>)"
    using cw by (simp add: modify_conn_def emptied_def)
  finally have "write_loop cb tid x to_send have_sent (Takes k # rs) l =
      Inr (?l2\<lparr> world := (world l1)\<lparr> conns := (conns (world l))(x \<mapsto> emptied c) \<rparr> \<rparr>)" .
  moreover have "loop_inv (l\<lparr> poller := p \<rparr>)"
    using p(2) by (simp add: conn_ok_def l1_def written_def loop_inv_def chan_def)
  ultimately show ?thesis
    using p(3) by (intro exI [of _ p]) (simp add: l1_def written_def flushed_def write_disabled_def)
qed

lemma write_loop_prefixes:
  assumes "isInLoopThread tid l" "isWriting ch" "writeIdx c \<le> length (writeBuf c)" "0 < k" "0 < writeIdx c"
    "conn_ok l x c ch" "0 \<notin> set ks" "2 * (a + sum_list ks) < writeIdx c"
    "writeIdx c \<le> 2 * (a + sum_list ks + min k (writeIdx c))"
  shows "\<exists>p. write_loop cb tid x (int (writeIdx c) - int a) (int a) (map Takes ks @ Takes k # rs) l =
      Inr (flushed cb x c (fd ch) (concat (map (\<lambda>j. take j (writeBuf c)) (ks @ [min k (writeIdx c)]))) rs p l) \<and>
    write_disabled c ch l p"
  using assms(1,6-9)
proof (induction ks arbitrary: a l)
  case Nil
  then have "int (writeIdx c) - int a - int (min k (writeIdx c)) \<le> int a + int (min k (writeIdx c))"
    by simp
  from write_loop_completes [OF Nil(2,1) assms(2-5) this, of cb rs] show ?case by simp
next
  case (Cons j ks)
  have j: "0 < j" "j \<le> writeIdx c" using Cons.prems(3,4) by auto
  let ?l = "written (fd ch) (take j (writeBuf c)) (map Takes ks @ Takes k # rs) l"
  have step: "write_loop cb tid x (int (writeIdx c) - int a) (int a) (map Takes (j # ks) @ Takes k # rs) l =
      write_loop cb tid x (int (writeIdx c) - int (a + j)) (int (a + j)) (map Takes ks @ Takes k # rs) ?l"
    using write_loop_partial [OF Cons.prems(2) assms(3) j, of "int a" "int (writeIdx c) - int a" cb tid
        "map Takes ks @ Takes k # rs"] Cons.prems(4)
    by (simp add: algebra_simps)
  have ih: "isInLoopThread tid ?l" "conn_ok ?l x c ch" "0 \<notin> set ks" "2 * (a + j + sum_list ks) < writeIdx c"
      "writeIdx c \<le> 2 * (a + j + sum_list ks + min k (writeIdx c))"
    using Cons.prems by (simp_all add: ac_simps)
  from Cons.IH [OF ih] show ?case unfolding step by simp
qed

text \<open>
  What \<open>handleWrite\<close> puts on the wire when the kernel takes the kept data in several parts:
  each \<open>write\<close> starts again at the beginning of the buffer, and the loop ends, clearing the buffer,
  as soon as half of the length has been taken. The data arrives as it is only when the first
  \<open>write\<close> takes all of it; otherwise beginnings are repeated and the end is lost. Afterwards the
  channel still waits for writability, but no longer for input, and a connection that was shut down
  is not closed for sending.
\<close>

lemma handleWrite_sends_prefixes:
  assumes "conn_ok l x c ch" "isInLoopThread tid l" "isWriting ch"
    "0 < writeIdx c" "writeIdx c \<le> length (writeBuf c)"
    "writes (world l) (fd ch) = map Takes ks @ Takes k # rs" "0 \<notin> set ks" "0 < k"
    "2 * sum_list ks < writeIdx c" "writeIdx c \<le> 2 * (sum_list ks + min k (writeIdx c))"
  defines "out \<equiv> concat (map (\<lambda>j. take j (writeBuf c)) (ks @ [min k (writeIdx c)]))"
  shows "\<exists>l'. handleWrite cb tid x l = Inr l' \<and> conn_ok l' x (emptied c) (changed DisableWrite ch) \<and>
    sent (world l') = (sent (world l))(fd ch := sent (world l) (fd ch) @ out) \<and>
    (writeIdx c \<le> k \<longrightarrow> ks = [] \<longrightarrow> out = take (writeIdx c) (writeBuf c)) \<and>
    isWriting (changed DisableWrite ch) \<and> \<not> isReading (changed DisableWrite ch) \<and>
    pendingFunctor l' = pendingFunctor l @ completion (on_write_complete cb) x \<and> wr_shut (world l') = wr_shut (world l)"
proof -
  have prem: "2 * (0 + sum_list ks) < writeIdx c"
    "writeIdx c \<le> 2 * (0 + sum_list ks + min k (writeIdx c))" using assms(9,10) by simp_all
  obtain p where p: "write_loop cb tid x (int (writeIdx c) - int 0) (int 0) (map Takes ks @ Takes k # rs) l =
      Inr (flushed cb x c (fd ch) out rs p l)" "write_disabled c ch l p"
    using write_loop_prefixes [OF assms(2,3,5,8,4,1,7) prem, of cb rs, folded out_def] by blast
  let ?l = "flushed cb x c (fd ch) out rs p l"
  have "handleWrite cb tid x l = Inr ?l"
    using assms(2,3,6) p(1) by (simp add: handleWrite_def conn_okD [OF assms(1)])
  moreover have "conn_ok ?l x (emptied c) (changed DisableWrite ch)"
  proof -
    have "loop_inv ?l" "chans p = (chans (poller l))(channel c \<mapsto> changed DisableWrite ch)"
      using p(2) loop_inv_cong [of ?l "l\<lparr> poller := p \<rparr>"] by (simp_all add: write_disabled_def flushed_def)
    then show ?thesis by (simp add: conn_ok_def chan_def emptied_def flushed_def)
  qed
  ultimately show ?thesis
    using assms(3) by (intro exI [of _ ?l]) (simp add: written_def out_def min_def flushed_def)
qed

lemma handleWrite_sends_prefixes_witness:
  fixes c ch l
  defines "c \<equiv> (demo_conn [] 0 CConnected)\<lparr> writeIdx := 5, writeBuf := ''hello'' \<rparr>"
    and "ch \<equiv> demo_channel\<lparr> status := CAdded, events := CReadEvent OR CWriteEvent \<rparr>"
    and "l \<equiv> demo_loop c ch [] [Takes 2, Takes 1]"
  shows "\<exists>l'. handleWrite demo_callbacks 1 3 l = Inr l' \<and> sent (world l') 5 = ''heh''"
proof -
  have ch: "channel c = 7" "status ch = CAdded" "fd ch = 5" "isWriting ch"
    using demo_channel_facts [OF ch_def [THEN meta_eq_to_obj_eq]]
    by (simp_all add: c_def channel_masks epoll_masks)
  note ok = demo_conn_ok [OF ch(1-3), of "[]" "[Takes 2, Takes 1]", folded l_def]
  have "\<exists>l'. handleWrite demo_callbacks 1 3 l = Inr l' \<and> conn_ok l' 3 (emptied c) (changed DisableWrite ch) \<and>
    sent (world l') = (sent (world l))(fd ch := sent (world l) (fd ch) @
      concat (map (\<lambda>j. take j (writeBuf c)) ([2] @ [min 1 (writeIdx c)]))) \<and>
    (writeIdx c \<le> 1 \<longrightarrow> [2 :: nat] = [] \<longrightarrow>
      concat (map (\<lambda>j. take j (writeBuf c)) ([2] @ [min 1 (writeIdx c)])) = take (writeIdx c) (writeBuf c)) \<and>
    isWriting (changed DisableWrite ch) \<and> \<not> isReading (changed DisableWrite ch) \<and>
    pendingFunctor l' = pendingFunctor l @ completion (on_write_complete demo_callbacks) 3 \<and> wr_shut (world l') = wr_shut (world l)"
    by (rule handleWrite_sends_prefixes [OF ok ch(4), where rs = "[]"])
      (simp_all add: c_def l_def ch(3) demo_loop_def bare_loop_def)
  then obtain l' where "handleWrite demo_callbacks 1 3 l = Inr l'"
    "sent (world l') = (sent (world l))(fd ch := sent (world l) (fd ch) @
      concat (map (\<lambda>j. take j (writeBuf c)) ([2] @ [min 1 (writeIdx c)])))"
    by blast
  then show ?thesis by (simp add: l_def c_def ch(3))
qed

text \<open>
  As long as the socket takes nothing, \<open>handleWrite\<close> does not return to the event loop to
  wait for the next event but calls \<open>write\<close> again and again: after any number of \<open>EAGAIN\<close> results it
  is where it began, and if no other result ever comes it loops for ever.
\<close>

lemma handleWrite_spins:
  assumes "conn_ok l x c ch" "isInLoopThread tid l" "isWriting ch" "writeIdx c \<le> length (writeBuf c)"
    "writes (world l) (fd ch) = replicate n Write_Blocks"
  shows "handleWrite cb tid x l = Inl Diverges"
proof -
  have "write_loop cb tid x to_send 0 (replicate n Write_Blocks) k = Inl Diverges"
    if "conn_ok k x c ch" for to_send k
    using that
  proof (induction n arbitrary: k)
    case 0
    then show ?case using assms(4) by (simp add: write_loop.simps conn_okD [OF 0])
  next
    case (Suc n)
    let ?k = "k\<lparr> world := (world k)\<lparr> writes := (writes (world k))(fd ch := replicate n Write_Blocks) \<rparr> \<rparr>"
    have "conn_ok ?k x c ch" using Suc.prems by (simp add: conn_ok_def chan_def)
    then show ?case
      using Suc.IH assms(3,4)
      by (simp add: write_loop.simps [of cb tid x to_send 0 "Write_Blocks # _"] conn_okD [OF Suc.prems]
          sys_write_def Let_def)
  qed
  then show ?thesis
    using assms by (simp add: handleWrite_def conn_okD [OF assms(1)])
qed

lemma handleWrite_spins_witness:
  "handleWrite demo_callbacks 1 3 (demo_loop (demo_conn [] 0 CConnected)
     (demo_channel\<lparr> status := CAdded, events := CWriteEvent \<rparr>) [] (replicate 4 Write_Blocks)) = Inl Diverges"
proof -
  let ?ch = "demo_channel\<lparr> status := CAdded, events := CWriteEvent \<rparr>"
  note ch = demo_channel_facts [of ?ch, OF refl]
  note ok = demo_conn_ok [of "demo_conn [] 0 CConnected" ?ch "[]" "replicate 4 Write_Blocks", OF _ ch(1,2)]
  show ?thesis
    by (rule handleWrite_spins [OF ok, where n = 4]) (simp_all add: ch del: channel.update_convs)
qed

section \<open>The life of a connection\<close>

text \<open>
  After \<open>shutdown\<close> the connection cannot be taken down any more: \<open>shutdown\<close> itself succeeds,
  moves a connected connection to \<open>CDisconnecting\<close> and closes the sending side unless output is
  pending; but then both \<open>handleClose\<close>, when the peer closes in turn, and \<open>connectionDestroyed\<close>,
  while the channel still waits for anything, fail an assertion.
\<close>

lemma shutdown_blocks_teardown:
  assumes "conn_ok l x c ch" "isInLoopThread tid l" "state c = CConnected" "events ch \<noteq> 0"
  shows "\<exists>l'. conn_shutdown tid x l = Inr l' \<and> conn_ok l' x (c\<lparr> state := CDisconnecting \<rparr>) ch \<and>
    wr_shut (world l') = (if isWriting ch then wr_shut (world l) else (wr_shut (world l))(fd ch := True)) \<and>
    handleClose cb tid x l' = Inl Assert_Failed \<and> connectionDestroyed cb tid x l' = Inl Assert_Failed"
proof -
  let ?c = "c\<lparr> state := CDisconnecting \<rparr>"
  define l1 where "l1 = l\<lparr> world := (world l)\<lparr> conns := (conns (world l))(x \<mapsto> ?c) \<rparr> \<rparr>"
  have ok1: "conn_ok l1 x ?c ch" "isInLoopThread tid l1"
    using assms(1,2) by (simp_all add: conn_ok_def chan_def l1_def isInLoopThread_def)
  have set: "setState CDisconnecting x l = Inr l1"
    using conn_okD(2) [OF assms(1)] by (simp add: setState_def modify_conn_def l1_def)
  define l2 where "l2 = (if isWriting ch then l1 else l1\<lparr> world := sys_shutdown (fd ch) (world l1) \<rparr>)"
  have "shutdownInLoop tid x l1 = Inr l2"
    using ok1(2) by (simp add: shutdownInLoop_def conn_okD [OF ok1(1)] l2_def)
  then have sd: "conn_shutdown tid x l = Inr l2"
    using assms(3) set ok1(2)
    by (simp add: conn_shutdown_def conn_okD [OF assms(1)] run_or_queue_def runInLoop_def)
  have ok2: "conn_ok l2 x ?c ch" "isInLoopThread tid l2"
    using ok1 by (simp_all add: l2_def conn_ok_def chan_def isInLoopThread_def sys_shutdown_def)
  have "handleClose cb tid x l2 = Inl Assert_Failed"
    using ok2(2) by (simp add: handleClose_def conn_okD [OF ok2(1)])
  moreover have "connectionDestroyed cb tid x l2 = Inl Assert_Failed"
    using ok2(2) assms(4) conn_okD(3) [OF ok2(1)]
    by (simp add: connectionDestroyed_def conn_okD [OF ok2(1)] channel_remove_def isNonEvent_def CNoneEvent_def)
  moreover have "wr_shut (world l2) = (if isWriting ch then wr_shut (world l) else (wr_shut (world l))(fd ch := True))"
    by (simp add: l2_def l1_def sys_shutdown_def)
  ultimately show ?thesis using sd ok2(1) by blast
qed

lemma shutdown_blocks_teardown_witness:
  "\<exists>l'. conn_shutdown 1 3 (demo_loop (demo_conn [] 0 CConnected)
       (demo_channel\<lparr> status := CAdded, events := CReadEvent \<rparr>) [] []) = Inr l' \<and>
    handleClose demo_callbacks 1 3 l' = Inl Assert_Failed"
proof -
  let ?ch = "demo_channel\<lparr> status := CAdded, events := CReadEvent \<rparr>"
  note ch = demo_channel_facts [of ?ch, OF refl]
  note ok = demo_conn_ok [of "demo_conn [] 0 CConnected" ?ch "[]" "[]", OF _ ch(1,2)]
  have "state (demo_conn [] 0 CConnected) = CConnected" "events ?ch \<noteq> 0" by simp_all
  from shutdown_blocks_teardown [OF ok this, of demo_callbacks] show ?thesis by auto
qed

text \<open>
  A connection callback that may change anything about the world, but not the event loop's channels
  and not the state of this connection; the callbacks of the HTTP server are of this kind.
\<close>

definition harmless :: "nat \<Rightarrow> (nat \<Rightarrow> loop_state \<Rightarrow> loop_state res) \<Rightarrow> bool" where
  "harmless x f \<longleftrightarrow> (\<forall>l c. conns (world l) x = Some c \<longrightarrow> (\<exists>l' c'. f x l = Inr l' \<and>
     poller l' = poller l \<and> threadId l' = threadId l \<and> eventHandling l' = eventHandling l \<and>
     conns (world l') x = Some c' \<and> state c' = state c \<and> channel c' = channel c))"

lemma harmless_call:
  assumes "harmless x f" "conn_ok l x c ch" "isInLoopThread tid l"
  obtains l' c' where "f x l = Inr l'" "conn_ok l' x c' ch" "state c' = state c" "channel c' = channel c"
    "isInLoopThread tid l'" "poller l' = poller l" "eventHandling l' = eventHandling l"
proof -
  have c: "conns (world l) x = Some c" using assms(2) by (simp add: conn_ok_def)
  then obtain l' c' where r: "f x l = Inr l'" "poller l' = poller l" "threadId l' = threadId l"
      "eventHandling l' = eventHandling l" "conns (world l') x = Some c'" "state c' = state c"
      "channel c' = channel c"
    using assms(1) unfolding harmless_def by blast
  have "conn_ok l' x c' ch"
    using assms(2) r loop_inv_cong [OF r(2)] by (simp add: conn_ok_def chan_def)
  then show ?thesis using that [of l' c'] r assms(3) by (simp add: isInLoopThread_def)
qed

lemma setState_ok:
  assumes "conn_ok l x c ch" "isInLoopThread tid l"
  obtains l' where "setState s x l = Inr l'" "conn_ok l' x (c\<lparr> state := s \<rparr>) ch" "isInLoopThread tid l'"
    "poller l' = poller l" "eventHandling l' = eventHandling l"
proof -
  define l' where "l' = l\<lparr> world := (world l)\<lparr> conns := (conns (world l))(x \<mapsto> c\<lparr> state := s \<rparr>) \<rparr> \<rparr>"
  have "setState s x l = Inr l'"
    using conn_okD(2) [OF assms(1)] by (simp add: setState_def modify_conn_def l'_def)
  moreover have "conn_ok l' x (c\<lparr> state := s \<rparr>) ch" "isInLoopThread tid l'"
    using assms by (simp_all add: conn_ok_def chan_def isInLoopThread_def l'_def)
  ultimately show ?thesis by (rule that) (simp_all add: l'_def)
qed

text \<open>What of the poller the life of a channel changes: the entries of its own descriptor.\<close>

definition poller_at :: "loop_state \<Rightarrow> int \<Rightarrow> nat option \<times> (32 word \<times> nat) option" where
  "poller_at l n = (map_of (chmap (poller l)) n, interest (poller l) n)"

definition others_kept :: "loop_state \<Rightarrow> loop_state \<Rightarrow> int \<Rightarrow> nat \<Rightarrow> bool" where
  "others_kept l l' n a \<longleftrightarrow> (\<forall>m. m \<noteq> n \<longrightarrow> poller_at l' m = poller_at l m) \<and>
     (\<forall>b. b \<noteq> a \<longrightarrow> chan l' b = chan l b)"

lemma others_kept_trans: "others_kept l k n a \<Longrightarrow> others_kept k m n a \<Longrightarrow> others_kept l m n a"
  by (simp add: others_kept_def)

lemma others_kept_poller: "poller l' = poller l \<Longrightarrow> others_kept l l' n a"
  by (simp add: others_kept_def poller_at_def chan_def)

lemma change_channel_kept:
  assumes "conn_ok l x c ch" "isInLoopThread tid l"
  obtains l' where "change_channel tid e x l = Inr l'" "conn_ok l' x c (changed e ch)" "isInLoopThread tid l'"
    "eventHandling l' = eventHandling l" "others_kept l l' (fd ch) (channel c)"
    "poller_at l' (fd ch) = (Some (channel c),
       if status (changed e ch) = CAdded then Some (EPOLLET OR events (changed e ch), channel c) else None)"
proof -
  obtain p where p: "change_channel tid e x l = Inr (l\<lparr> poller := p \<rparr>)"
    "conn_ok (l\<lparr> poller := p \<rparr>) x c (changed e ch)"
    "chans p = (chans (poller l))(channel c \<mapsto> changed e ch)"
    "interest p = (interest (poller l))(fd ch :=
      if status (changed e ch) = CAdded then Some (EPOLLET OR events (changed e ch), channel c) else None)"
    "map_of (chmap p) = (map_of (chmap (poller l)))(fd ch \<mapsto> channel c)"
    by (rule change_channel_ok [OF assms])
  show ?thesis
    by (rule that [OF p(1,2)])
      (use assms(2) p(3-5) in \<open>auto simp: others_kept_def poller_at_def chan_def isInLoopThread_def\<close>)
qed

lemma connectionEstablished_ok:
  assumes "conn_ok l x c ch" "isInLoopThread tid l" "state c = CConnecting" "events ch = 0"
    "on_connection cb = Some f" "harmless x f"
  obtains l' c' ch' where "connectionEstablished cb tid x l = Inr l'" "conn_ok l' x c' ch'"
    "isInLoopThread tid l'" "state c' = CConnected" "channel c' = channel c" "fd ch' = fd ch"
    "status ch' = CAdded" "events ch' = CReadEvent" "others_kept l l' (fd ch) (channel c)"
    "eventHandling l' = eventHandling l"
    "tied ch'" "owner ch' = x" "ch_handling ch' = ch_handling ch"
proof -
  obtain l1 where l1: "setState CConnected x l = Inr l1" "conn_ok l1 x (c\<lparr> state := CConnected \<rparr>) ch"
      "isInLoopThread tid l1" "poller l1 = poller l" "eventHandling l1 = eventHandling l"
    by (rule setState_ok [OF assms(1,2)])
  let ?c = "c\<lparr> state := CConnected \<rparr>" and ?ch = "tie x ch"
  define l2 where "l2 = l1\<lparr> poller := (poller l1)\<lparr> chans := (chans (poller l1))(channel c \<mapsto> ?ch) \<rparr> \<rparr>"
  have tie: "tie_channel x l1 = Inr l2"
    using conn_okD(3,4) [OF l1(2)] by (simp add: tie_channel_def with_poller_def modify_chan_def l2_def)
  have ok2: "conn_ok l2 x ?c ?ch"
  proof -
    have "poller_inv None (poller l1)" "chans (poller l1) (channel c) = Some ch"
      using l1(2) by (simp_all add: conn_ok_def loop_inv_def chan_def)
    then have "poller_inv None (poller l2)"
      unfolding l2_def by (simp add: poller_inv_same tie_def)
    then show ?thesis
      using l1(2) by (auto simp: conn_ok_def loop_inv_def chan_def l2_def tie_def)
  qed
  have th2: "isInLoopThread tid l2" and eh2: "eventHandling l2 = eventHandling l"
    using l1(3,5) by (simp_all add: l2_def isInLoopThread_def)
  obtain l3 where l3: "change_channel tid EnableRead x l2 = Inr l3" "conn_ok l3 x ?c (changed EnableRead ?ch)"
      "isInLoopThread tid l3" "eventHandling l3 = eventHandling l2" "others_kept l2 l3 (fd ?ch) (channel ?c)"
    by (rule change_channel_kept [OF ok2 th2])
  obtain l4 c4 where l4: "f x l3 = Inr l4" "conn_ok l4 x c4 (changed EnableRead ?ch)" "state c4 = state ?c"
      "channel c4 = channel ?c" "isInLoopThread tid l4" "poller l4 = poller l3"
      "eventHandling l4 = eventHandling l3"
    by (rule harmless_call [OF assms(6) l3(2,3)])
  have "connectionEstablished cb tid x l = Inr l4"
    using assms(2,3,5) l1(1) tie l3(1) l4(1)
    by (simp add: connectionEstablished_def conn_okD [OF assms(1)] call_def)
  moreover have "others_kept l l4 (fd ch) (channel c)"
  proof -
    have "others_kept l l2 (fd ch) (channel c)"
      using l1(4) by (simp add: others_kept_def poller_at_def chan_def l2_def)
    then have "others_kept l l3 (fd ch) (channel c)"
      using others_kept_trans l3(5) by (simp add: tie_def)
    then show ?thesis by (rule others_kept_trans [OF _ others_kept_poller [OF l4(6)]])
  qed
  ultimately show ?thesis
    using that [OF _ l4(2,5)] l4(3,4,7) l3(4) eh2 assms(4)
    by (simp add: changed_def tie_def change_events.simps)
qed

lemma handleClose_closes:
  assumes "conn_ok l x c ch" "isInLoopThread tid l" "state c = CConnected \<or> state c = CConnecting"
    "status ch = CAdded" "on_connection cb = Some f" "harmless x f" "on_close cb = Some g" "harmless x g"
  obtains l' c' ch' where "handleClose cb tid x l = Inr l'" "conn_ok l' x c' ch'" "isInLoopThread tid l'"
    "state c' = CDisconnected" "channel c' = channel c" "fd ch' = fd ch" "status ch' = CDeleted"
    "isNonEvent ch'" "others_kept l l' (fd ch) (channel c)" "eventHandling l' = eventHandling l"
    "poller_at l' (fd ch) = (Some (channel c), None)" "ch' = changed DisableAll ch"
proof -
  obtain l1 where l1: "setState CDisconnected x l = Inr l1" "conn_ok l1 x (c\<lparr> state := CDisconnected \<rparr>) ch"
      "isInLoopThread tid l1" "poller l1 = poller l" "eventHandling l1 = eventHandling l"
    by (rule setState_ok [OF assms(1,2)])
  let ?c = "c\<lparr> state := CDisconnected \<rparr>"
  obtain l2 where l2: "change_channel tid DisableAll x l1 = Inr l2" "conn_ok l2 x ?c (changed DisableAll ch)"
      "isInLoopThread tid l2" "eventHandling l2 = eventHandling l1" "others_kept l1 l2 (fd ch) (channel ?c)"
      "poller_at l2 (fd ch) = (Some (channel ?c), if status (changed DisableAll ch) = CAdded
         then Some (EPOLLET OR events (changed DisableAll ch), channel ?c) else None)"
    by (rule change_channel_kept [OF l1(2,3)])
  obtain l3 c3 where l3: "f x l2 = Inr l3" "conn_ok l3 x c3 (changed DisableAll ch)" "state c3 = state ?c"
      "channel c3 = channel ?c" "isInLoopThread tid l3" "poller l3 = poller l2"
      "eventHandling l3 = eventHandling l2"
    by (rule harmless_call [OF assms(6) l2(2,3)])
  obtain l4 c4 where l4: "g x l3 = Inr l4" "conn_ok l4 x c4 (changed DisableAll ch)" "state c4 = state c3"
      "channel c4 = channel c3" "isInLoopThread tid l4" "poller l4 = poller l3"
      "eventHandling l4 = eventHandling l3"
    by (rule harmless_call [OF assms(8) l3(2,5)])
  have st: "status (changed DisableAll ch) = CDeleted"
    using assms(4) by (simp add: changed_def change_events.simps(5) CNoneEvent_def)
  have run: "handleClose cb tid x l = Inr l4"
    using assms(2,3,5,7) l1(1) l2(1) l3(1) l4(1)
    by (simp add: handleClose_def conn_okD [OF assms(1)] call_def)
  have "others_kept l l2 (fd ch) (channel c)"
    using others_kept_trans [OF others_kept_poller [OF l1(4)] l2(5)] by simp
  moreover have "others_kept l2 l4 (fd ch) (channel c)"
    using l3(6) l4(6) by (intro others_kept_poller) simp
  ultimately have kept: "others_kept l l4 (fd ch) (channel c)" by (rule others_kept_trans)
  have at: "poller_at l4 (fd ch) = (Some (channel c), None)"
    using l2(6) l3(6) l4(6) st by (simp add: poller_at_def)
  show ?thesis
    by (rule that [OF run l4(2,5)])
      (use l4(3,4,7) l3(3,4,7) l2(4) l1(5) st kept at in simp_all)
qed

lemma handleClose_ok:
  assumes "conn_ok l x c ch" "isInLoopThread tid l" "state c = CConnected \<or> state c = CConnecting"
    "status ch = CAdded" "on_connection cb = Some f" "harmless x f" "on_close cb = Some g" "harmless x g"
  obtains l' c' ch' where "handleClose cb tid x l = Inr l'" "conn_ok l' x c' ch'" "isInLoopThread tid l'"
    "state c' = CDisconnected" "channel c' = channel c" "fd ch' = fd ch" "status ch' = CDeleted"
    "isNonEvent ch'" "others_kept l l' (fd ch) (channel c)" "eventHandling l' = eventHandling l"
    "poller_at l' (fd ch) = (Some (channel c), None)" "ch_handling ch' = ch_handling ch"
  by (rule handleClose_closes [OF assms], rule that, assumption+) simp

lemma connectionDestroyed_ok:
  assumes "conn_ok l x c ch" "isInLoopThread tid l" "state c \<noteq> CConnected" "status ch \<noteq> CNew"
    "isNonEvent ch" "\<not> eventHandling l"
  obtains l' where "connectionDestroyed cb tid x l = Inr l'" "loop_inv l'" "isInLoopThread tid l'"
    "world l' = world l" "others_kept l l' (fd ch) (channel c)" "poller_at l' (fd ch) = (None, None)"
    "chan l' (channel c) = Some (ch\<lparr> addToLoop := False, status := CNew \<rparr>)"
proof -
  have ch: "loop_inv l" "chan l (channel c) = Some ch" "threadId l = tid"
    using assms(1,2) by (simp_all add: conn_ok_def isInLoopThread_def)
  obtain p where p: "channel_remove tid (channel c) l = Inr (l\<lparr> poller := p \<rparr>)" "loop_inv (l\<lparr> poller := p \<rparr>)"
      "chans p = (chans (poller l))(channel c \<mapsto> ch\<lparr> addToLoop := False, status := CNew \<rparr>)"
      "map_of (chmap p) = (map_of (chmap (poller l)))(fd ch := None)"
      "interest p = (interest (poller l))(fd ch := None)"
    using channel_remove_ok [OF ch assms(4,5)] assms(6) by blast
  have "connectionDestroyed cb tid x l = Inr (l\<lparr> poller := p \<rparr>)"
    using assms(2,3) p(1) by (simp add: connectionDestroyed_def conn_okD [OF assms(1)])
  then show ?thesis
    by (rule that [OF _ p(2)])
      (use assms(2) p(3-5) in \<open>auto simp: isInLoopThread_def others_kept_def poller_at_def chan_def\<close>)
qed

text \<open>A channel that is added for input is what the kernel watches under its descriptor.\<close>

lemma watched_for_input:
  assumes "conn_ok l x c ch" "status ch = CAdded" "events ch = CReadEvent"
  shows "poller_at l (fd ch) = (Some (channel c), Some (CReadEvent, channel c))"
proof -
  have inv: "loop_inv l" "chan l (channel c) = Some ch" using assms(1) by (simp_all add: conn_ok_def)
  then have "map_of (chmap (poller l)) (fd ch) = Some (channel c)"
    using assms(2) by (auto simp: loop_inv_def poller_inv_def chan_def)
  moreover have "interest (poller l) = kernel_view (poller l)"
    using inv(1) by (simp add: loop_inv_def poller_inv_interest)
  moreover have "EPOLLET OR CReadEvent = CReadEvent" by (simp add: channel_masks epoll_masks)
  ultimately show ?thesis
    using inv(2) assms(2,3) by (simp add: poller_at_def kernel_view_def chan_def)
qed

lemma TcpConnection_ok:
  assumes "loop_inv l" "isInLoopThread tid l" "\<And>b d. chan l b = Some d \<Longrightarrow> fd d \<noteq> n" "chan l a = None"
  obtains c ch where "conn_ok (TcpConnection x a nm n rb wb l) x c ch"
    "isInLoopThread tid (TcpConnection x a nm n rb wb l)" "state c = CConnecting" "channel c = a"
    "fd ch = n" "status ch = CNew" "events ch = 0" "\<not> ch_handling ch"
    "others_kept l (TcpConnection x a nm n rb wb l) n a"
    "poller_at (TcpConnection x a nm n rb wb l) n = (None, None)"
    "poller_at l n = (None, None)"
    "eventHandling (TcpConnection x a nm n rb wb l) = eventHandling l"
proof -
  let ?l = "TcpConnection x a nm n rb wb l"
  let ?ch = "setCloseCB (HandleClose x) (setErrorCB (HandleError x) (setWriteCB (HandleWrite x)
                 (setReadCB (HandleRead x) (Channel n))))"
  let ?c = "\<lparr> sockFd = n, channel = a, state = CConnecting, conn_name = nm, reading = True,
                conn_readIdx = 0, writeIdx = 0, conn_context = None, readBuf = rb, writeBuf = wb \<rparr>"
  have inv: "poller_inv None (poller l)" and no: "\<And>b d. chans (poller l) b = Some d \<Longrightarrow> fd d \<noteq> n"
    and na: "chans (poller l) a = None"
    using assms by (simp_all add: loop_inv_def chan_def)
  have none: "map_of (chmap (poller l)) n = None"
    using mapped_channel [OF inv] no by (cases "map_of (chmap (poller l)) n") fastforce+
  have int: "interest (poller l) = kernel_view (poller l)" by (rule poller_inv_interest [OF inv])
  then have intn: "interest (poller l) n = None" using none by (simp add: kernel_view_def)
  have chs: "chans (poller ?l) = (chans (poller l))(a \<mapsto> ?ch)" "chmap (poller ?l) = chmap (poller l)"
      "interest (poller ?l) = interest (poller l)" "conns (world ?l) x = Some ?c"
    by (simp_all add: TcpConnection_def Let_def)
  have new: "fd ?ch = n" "status ?ch = CNew" "events ?ch = 0" "\<not> ch_handling ?ch"
    by (simp_all add: Channel_def setter_defs CNew_def)
  have ne: "b \<noteq> a" if "map_of (chmap (poller l)) m = Some b" for m b
    using mapped_channel [OF inv that] na by auto
  have view: "kernel_view (poller ?l) = kernel_view (poller l)"
    using ne by (auto simp: kernel_view_def chs fun_eq_iff split: option.split)
  have "poller_inv None (poller ?l)"
    using inv ne new(2) unfolding poller_inv_def chs(1-3) view
    by (auto simp: new(2) split: if_splits)
  then have "conn_ok ?l x ?c ?ch"
    using assms(1) no new unfolding conn_ok_def loop_inv_def chan_def chs
    by (auto split: if_splits)
  then show ?thesis
    by (rule that) (use assms(2) new none intn chs in
        \<open>auto simp: isInLoopThread_def TcpConnection_def Let_def others_kept_def poller_at_def chan_def\<close>)
qed

lemma TcpConnection_dtor_ok:
  assumes "loop_inv l" "isInLoopThread tid l" "conns (world l) x = Some c" "state c = CDisconnected"
    "chan l (channel c) = Some ch" "\<not> ch_handling ch" "\<not> addToLoop ch" "status ch = CNew"
  obtains l' where "TcpConnection_dtor tid x l = Inr l'" "loop_inv l'" "conns (world l') = (conns (world l))(x := None)"
    "chan l' (channel c) = None" "\<forall>b. b \<noteq> channel c \<longrightarrow> chan l' b = chan l b"
    "\<forall>n. poller_at l' n = poller_at l n"
proof -
  have ch: "chans (poller l) (channel c) = Some ch" using assms(5) by (simp add: chan_def)
  have inv: "poller_inv None (poller l)" using assms(1) by (simp add: loop_inv_def)
  have no: "b \<noteq> channel c" if "map_of (chmap (poller l)) n = Some b" for n b
    using mapped_channel [OF inv that] ch assms(8) by auto
  then have has: "hasChannel (channel c) (poller l) = Inr False"
    using ch by (auto simp: hasChannel_def)
  define p where "p = (poller l)\<lparr> chans := (chans (poller l))(channel c := None) \<rparr>"
  define l' where "l' = l\<lparr> poller := p, world := (world l)\<lparr> conns := (conns (world l))(x := None) \<rparr> \<rparr>"
  have view: "kernel_view p = kernel_view (poller l)"
    using no by (auto simp: kernel_view_def p_def fun_eq_iff split: option.split)
  have "TcpConnection_dtor tid x l = Inr l'"
    using assms(2-4,6,7) ch has
    by (simp add: TcpConnection_dtor_def conn_at_def channel_delete_def loop_hasChannel_def l'_def p_def)
  moreover have "poller_inv None p"
    using inv no unfolding poller_inv_def view by (auto simp: p_def)
  then have "loop_inv l'"
    using assms(1) by (auto simp: loop_inv_def chan_def l'_def p_def)
  ultimately show ?thesis
    by (rule that) (simp_all add: l'_def p_def chan_def poller_at_def)
qed

text \<open>
  The whole life of a connection that the peer closes. In a loop whose channels are
  consistent, constructing the connection, \<open>connectionEstablished\<close>, \<open>handleClose\<close>,
  \<open>connectionDestroyed\<close> and the destructor all succeed, in the states connecting, connected and
  disconnected; the kernel watches the socket for input from \<open>connectionEstablished\<close> to
  \<open>handleClose\<close>; and at the end connection, channel, map entry and kernel entry are gone, while no
  other channel or descriptor was touched.
\<close>

lemma connection_life_cycle:
  assumes "loop_inv l" "isInLoopThread tid l" "\<not> eventHandling l"
    "\<forall>b d. chan l b = Some d \<longrightarrow> fd d \<noteq> n" "chan l a = None"
    "on_connection cb = Some f" "harmless x f" "on_close cb = Some g" "harmless x g"
  shows "\<exists>l1 l2 l3 l4 c1 c2. connectionEstablished cb tid x (TcpConnection x a nm n rb wb l) = Inr l1 \<and>
    conns (world l1) x = Some c1 \<and> state c1 = CConnected \<and>
    poller_at l1 n = (Some a, Some (CReadEvent, a)) \<and>
    handleClose cb tid x l1 = Inr l2 \<and> conns (world l2) x = Some c2 \<and> state c2 = CDisconnected \<and>
    poller_at l2 n = (Some a, None) \<and>
    connectionDestroyed cb tid x l2 = Inr l3 \<and> TcpConnection_dtor tid x l3 = Inr l4 \<and>
    loop_inv l4 \<and> chan l4 a = None \<and> conns (world l4) x = None \<and> poller_at l4 n = (None, None) \<and>
    (\<forall>m. m \<noteq> n \<longrightarrow> poller_at l4 m = poller_at l m) \<and> (\<forall>b. b \<noteq> a \<longrightarrow> chan l4 b = chan l b)"
proof -
  let ?l = "TcpConnection x a nm n rb wb l"
  have free: "\<And>b d. chan l b = Some d \<Longrightarrow> fd d \<noteq> n" using assms(4) by blast
  obtain c ch where c: "conn_ok ?l x c ch" "isInLoopThread tid ?l" "state c = CConnecting" "channel c = a"
      "fd ch = n" "status ch = CNew" "events ch = 0" "\<not> ch_handling ch" "others_kept l ?l n a"
      "eventHandling ?l = eventHandling l"
    by (rule TcpConnection_ok [OF assms(1,2) free assms(5), where x = x and nm = nm and rb = rb and wb = wb])
  obtain l1 c1 ch1 where l1: "connectionEstablished cb tid x ?l = Inr l1" "conn_ok l1 x c1 ch1"
      "isInLoopThread tid l1" "state c1 = CConnected" "channel c1 = channel c" "fd ch1 = fd ch"
      "status ch1 = CAdded" "events ch1 = CReadEvent" "others_kept ?l l1 (fd ch) (channel c)"
      "eventHandling l1 = eventHandling ?l" "ch_handling ch1 = ch_handling ch"
    by (rule connectionEstablished_ok [OF c(1,2,3,7) assms(6,7)])
  have open1: "state c1 = CConnected \<or> state c1 = CConnecting" using l1(4) by simp
  obtain l2 c2 ch2 where l2: "handleClose cb tid x l1 = Inr l2" "conn_ok l2 x c2 ch2" "isInLoopThread tid l2"
      "state c2 = CDisconnected" "channel c2 = channel c1" "fd ch2 = fd ch1" "status ch2 = CDeleted"
      "isNonEvent ch2" "others_kept l1 l2 (fd ch1) (channel c1)" "eventHandling l2 = eventHandling l1"
      "poller_at l2 (fd ch1) = (Some (channel c1), None)" "ch_handling ch2 = ch_handling ch1"
    by (rule handleClose_ok [OF l1(2,3) open1 l1(7) assms(6-9)])
  have closed2: "state c2 \<noteq> CConnected" "status ch2 \<noteq> CNew" "\<not> eventHandling l2"
    using l2(4,7,10) l1(10) c(10) assms(3) by simp_all
  obtain l3 where l3: "connectionDestroyed cb tid x l2 = Inr l3" "loop_inv l3" "isInLoopThread tid l3"
      "world l3 = world l2" "others_kept l2 l3 (fd ch2) (channel c2)" "poller_at l3 (fd ch2) = (None, None)"
      "chan l3 (channel c2) = Some (ch2\<lparr> addToLoop := False, status := CNew \<rparr>)"
    by (rule connectionDestroyed_ok [OF l2(2,3) closed2(1,2) l2(8) closed2(3)])
  let ?ch3 = "ch2\<lparr> addToLoop := False, status := CNew \<rparr>"
  have c3: "conns (world l3) x = Some c2" "\<not> ch_handling ?ch3" "\<not> addToLoop ?ch3" "status ?ch3 = CNew"
    using l2(2,12) l1(11) c(8) l3(4) by (simp_all add: conn_ok_def)
  obtain l4 where l4: "TcpConnection_dtor tid x l3 = Inr l4" "loop_inv l4"
      "conns (world l4) = (conns (world l3))(x := None)" "chan l4 (channel c2) = None"
      "\<forall>b. b \<noteq> channel c2 \<longrightarrow> chan l4 b = chan l3 b" "\<forall>n. poller_at l4 n = poller_at l3 n"
    by (rule TcpConnection_dtor_ok [OF l3(2,3) c3(1) l2(4) l3(7) c3(2-4)])
  have kept: "others_kept l l3 n a"
    using c(4,5,9) l1(5,6,9) l2(5,6,9) l3(5) by (metis others_kept_trans)
  have "poller_at l1 n = (Some a, Some (CReadEvent, a))"
    using watched_for_input [OF l1(2,7,8)] l1(5,6) c(4,5) by simp
  moreover have "poller_at l2 n = (Some a, None)" "poller_at l4 n = (None, None)" "chan l4 a = None"
    using l2(11,5,6) l1(5,6) c(4,5) l3(6) l4(4,6) by simp_all
  moreover have "conns (world l1) x = Some c1" "conns (world l2) x = Some c2" "conns (world l4) x = None"
    using l1(2) l2(2) l4(3) by (simp_all add: conn_ok_def)
  moreover have "\<forall>m. m \<noteq> n \<longrightarrow> poller_at l4 m = poller_at l m" "\<forall>b. b \<noteq> a \<longrightarrow> chan l4 b = chan l b"
    using kept l4(5,6) l2(5) l1(5) c(4) by (simp_all add: others_kept_def)
  ultimately show ?thesis
    using l1(1,4) l2(1,4) l3(1) l4(1,2) by blast
qed

lemma connection_life_cycle_witness:
  fixes l :: loop_state
  defines "l \<equiv> bare_loop (EpollPoller (\<lambda>_. None)) \<lparr> conns = \<lambda>_. None, reads = \<lambda>_. [], writes = \<lambda>_. [],
    sent = \<lambda>_. [], wr_shut = \<lambda>_. False \<rparr>"
  shows "\<exists>l1 l2 l3 l4. connectionEstablished demo_callbacks 1 3 (TcpConnection 3 7 ''c'' 5 [] [] l) = Inr l1 \<and>
    handleClose demo_callbacks 1 3 l1 = Inr l2 \<and> connectionDestroyed demo_callbacks 1 3 l2 = Inr l3 \<and>
    TcpConnection_dtor 1 3 l3 = Inr l4 \<and> poller_at l4 5 = (None, None)"
proof -
  have inv: "loop_inv l"
    by (rule new_loop_inv [where m = "\<lambda>_. None"]) (simp_all add: l_def bare_loop_def)
  have "isInLoopThread 1 l" "\<not> eventHandling l" "\<forall>b d. chan l b = Some d \<longrightarrow> fd d \<noteq> 5" "chan l 7 = None"
    by (simp_all add: l_def bare_loop_def isInLoopThread_def chan_def EpollPoller_def)
  moreover have "on_connection demo_callbacks = Some (\<lambda>_. Inr)" "on_close demo_callbacks = Some (\<lambda>_. Inr)"
    "harmless 3 (\<lambda>_. Inr)"
    by (simp_all add: demo_callbacks_def harmless_def)
  ultimately show ?thesis
    using connection_life_cycle [OF inv, of 1 5 7 demo_callbacks "\<lambda>_. Inr" 3 "\<lambda>_. Inr" "''c''" "[]" "[]"]
    by blast
qed

end
