(* ===== verification/HttpResponse.thy ===== *)
theory HttpResponse
  imports HttpContext
begin

text \<open>
  src/HttpResponse.h and src/HttpResponse.cc: the response and its text.
\<close>

record http_response =
  resp_version :: string
  responseCode :: string
  responseMsg :: string
  body :: string
  resp_headers :: "(string, string) std_map"
  closeConnection :: bool

definition HttpResponse :: "bool \<Rightarrow> http_response" where
  "HttpResponse close = \<lparr> resp_version = [], responseCode = [], responseMsg = [], body = [],
     resp_headers = [], closeConnection = close \<rparr>"

definition setCloseConnection :: "bool \<Rightarrow> http_response \<Rightarrow> http_response" where
  "setCloseConnection on r = r\<lparr> closeConnection := on \<rparr>"
definition setBody :: "string \<Rightarrow> http_response \<Rightarrow> http_response" where
  "setBody s r = r\<lparr> body := s \<rparr>"
definition setRespVersion :: "string \<Rightarrow> http_response \<Rightarrow> http_response" where
  "setRespVersion v r = r\<lparr> resp_version := v \<rparr>"
definition setResponseMsg :: "string \<Rightarrow> http_response \<Rightarrow> http_response" where
  "setResponseMsg m r = r\<lparr> responseMsg := m \<rparr>"
definition setResponseCode :: "string \<Rightarrow> http_response \<Rightarrow> http_response" where
  "setResponseCode c r = r\<lparr> responseCode := c \<rparr>"
definition addRespHeader :: "string \<Rightarrow> string \<Rightarrow> http_response \<Rightarrow> http_response" where
  "addRespHeader k v r = r\<lparr> resp_headers := put k v (resp_headers r) \<rparr>"
definition addRespHeaders :: "(string, string) std_map \<Rightarrow> http_response \<Rightarrow> http_response" where
  "addRespHeaders m r = r\<lparr> resp_headers := m \<rparr>"
definition getBodySize :: "http_response \<Rightarrow> nat" where
  "getBodySize r = length (body r)"

lemmas response_setters = setCloseConnection_def setBody_def setRespVersion_def setResponseMsg_def
  setResponseCode_def addRespHeader_def addRespHeaders_def

fun append_headers :: "(string \<times> string) list \<Rightarrow> string \<Rightarrow> string" where
  "append_headers [] s = s"
| "append_headers (h # hs) s = append_headers hs (s @ fst h @ '': '' @ snd h @ CRLF)"

definition toString :: "http_response \<Rightarrow> string \<Rightarrow> string" where
  "toString r s =
     (let s = s @ resp_version r @ '' '' @ responseCode r @ '' '' @ responseMsg r @ CRLF;
          s = (if closeConnection r then s @ ''Connection: close'' @ CRLF
               else (s @ ''Content-Length: '' @ decimal_nat (getBodySize r) @ CRLF) @
                    ''Connection: Keep-Alive'' @ CRLF);
          s = append_headers (resp_headers r) s
      in s @ CRLF @ body r)"

lemma append_headers_eq: "append_headers hs s = s @ concat (map render_header hs)"
  by (induction hs arbitrary: s) (simp_all add: render_header_def)

text \<open>The header fields a response carries, in the order of its text.\<close>

definition fixed_headers :: "http_response \<Rightarrow> (string \<times> string) list" where
  "fixed_headers r = (if closeConnection r then [(''Connection'', ''close'')]
     else [(''Content-Length'', decimal_nat (length (body r))), (''Connection'', ''Keep-Alive'')])"

definition status_line :: "http_response \<Rightarrow> string" where
  "status_line r = resp_version r @ '' '' @ responseCode r @ '' '' @ responseMsg r"

lemma toString_eq:
  "toString r s = s @ status_line r @ CRLF @
     concat (map render_header (fixed_headers r @ resp_headers r)) @ CRLF @ body r"
  by (simp add: toString_def Let_def append_headers_eq status_line_def fixed_headers_def
      render_header_def getBodySize_def)

lemma digits_good_value:
  assumes "\<forall>c \<in> set v. isdigit c"
  shows "good_value v"
proof -
  have no: "isdigit c \<Longrightarrow> c \<noteq> CR \<and> c \<noteq> LF \<and> \<not> isspace c" for c
    by (auto simp: isdigit_def isspace_def)
  then show ?thesis using assms by (auto simp: good_value_def)
qed

lemma fixed_headers_good:
  "\<forall>h \<in> set (fixed_headers r). good_name (fst h) \<and> good_value (snd h)"
  using digits_good_value [of "decimal_nat (length (body r))"] decimal_nat_digits
  by (auto simp: fixed_headers_def good_name_def good_value_def isspace_def)

lemma spec_headers_blank [simp]: "spec_headers (CR # LF # t) m = Inr m"
  by (simp add: spec_headers.simps line_status_of_def)

lemma map_of_put_all:
  "keys_sorted m \<Longrightarrow> keys_sorted (put_all hs m) \<and>
   map_of (put_all hs m) k = (case map_of (rev hs) k of None \<Rightarrow> map_of m k | Some v \<Rightarrow> Some v)"
proof (induction hs arbitrary: m)
  case (Cons h hs)
  then show ?case
    using Cons.IH [of "put (fst h) (snd h) m"]
    by (cases h) (auto simp: put_sorted map_of_put map_add_def split: option.splits)
qed simp

lemma headers_end: "hs \<noteq> [] \<Longrightarrow> \<exists>s. concat (map render_header hs) = s @ CRLF"
proof (cases hs rule: rev_cases)
  case (snoc gs h)
  then show ?thesis
    by (intro exI [of _ "concat (map render_header gs) @ fst h @ '': '' @ snd h"])
      (simp add: render_header_def)
qed simp

lemma map_of_rev: "distinct (map fst xs) \<Longrightarrow> map_of (rev xs) = map_of xs"
  by (subst map_of_inject_set) (simp_all add: rev_map [symmetric])

text \<open>
  The text of a response is read back by the rules the request parser uses for header
  lines. After its first line, which ends where the status line ends, come exactly the fields the
  response holds; the connection field says whether it closes, and unless it closes the length that
  is announced is the number of characters that follow the blank line.
\<close>

lemma response_text:
  assumes "CR \<notin> set (status_line r)" "LF \<notin> set (status_line r)" "keys_sorted (resp_headers r)"
    "\<forall>h \<in> set (resp_headers r). good_name (fst h) \<and> good_value (snd h)"
    "map_of (resp_headers r) ''Connection'' = None" "map_of (resp_headers r) ''Content-Length'' = None"
  defines "t \<equiv> toString r []"
  shows "line_of t = status_line r \<and> line_status_of t = LINE_OK \<and>
    (\<exists>hs. spec_headers (drop (length (line_of t) + 2) t) [] = Inr hs \<and>
      map_of hs ''Connection'' = Some (if closeConnection r then ''close'' else ''Keep-Alive'') \<and>
      (\<not> closeConnection r \<longrightarrow> (\<exists>ds. map_of hs ''Content-Length'' = Some ds \<and> number_of ds = length (body r))) \<and>
      (\<forall>k. k \<noteq> ''Connection'' \<longrightarrow> k \<noteq> ''Content-Length'' \<longrightarrow> map_of hs k = map_of (resp_headers r) k)) \<and>
    (\<exists>hd. t = hd @ CRLF @ CRLF @ body r)"
proof -
  let ?hs = "fixed_headers r @ resp_headers r"
  have t: "t = status_line r @ CR # LF # concat (map render_header ?hs) @ CR # LF # body r"
    by (simp add: t_def toString_eq)
  have ln: "line_of t = status_line r" "line_status_of t = LINE_OK"
    unfolding t by (rule line_of_append [OF assms(1,2)], rule line_status_append [OF assms(1,2)])
  have good: "\<forall>h \<in> set ?hs. good_name (fst h) \<and> good_value (snd h)"
    using fixed_headers_good assms(4) by auto
  have rest: "drop (length (line_of t) + 2) t = concat (map render_header ?hs) @ CR # LF # body r"
    unfolding ln(1) unfolding t by (rule drop_line)
  have sp: "spec_headers (drop (length (line_of t) + 2) t) [] = Inr (put_all ?hs [])"
    unfolding rest spec_headers_render [OF good] by simp
  have d: "distinct (map fst (resp_headers r))" using assms(3) by (rule keys_sorted_distinct)
  have m: "map_of (put_all ?hs []) k =
      (case map_of (resp_headers r) k of None \<Rightarrow> map_of (rev (fixed_headers r)) k | Some v \<Rightarrow> Some v)" for k
    using map_of_put_all [of "[]" ?hs k] d
    by (simp add: map_add_def map_of_rev split: option.split)
  have e: "\<exists>hd. t = hd @ CRLF @ CRLF @ body r"
  proof -
    have "?hs \<noteq> []" by (simp add: fixed_headers_def)
    then obtain s where "concat (map render_header ?hs) = s @ CRLF" using headers_end by blast
    then show ?thesis unfolding t by (intro exI [of _ "status_line r @ CR # LF # s"]) simp
  qed
  have "map_of (put_all ?hs []) ''Connection'' = Some (if closeConnection r then ''close'' else ''Keep-Alive'')"
    unfolding m using assms(5) by (simp add: fixed_headers_def)
  moreover have "\<not> closeConnection r \<longrightarrow> map_of (put_all ?hs []) ''Content-Length'' = Some (decimal_nat (length (body r)))"
    unfolding m using assms(6) by (simp add: fixed_headers_def)
  moreover have "map_of (put_all ?hs []) k = map_of (resp_headers r) k" if "k \<noteq> ''Connection''" "k \<noteq> ''Content-Length''" for k
    unfolding m using that by (auto simp: fixed_headers_def split: option.split)
  ultimately show ?thesis using ln sp e number_of_decimal_nat by blast
qed

end
