(* ===== verification/HttpServer.thy ===== *)
theory HttpServer
  imports TcpConnection HttpResponse
begin

text \<open>
  src/HttpServer.h and src/HttpServer.cc: the callbacks the server hangs on a connection. What
  \<open>stat\<close> says of a file (its mode, or that it fails) and what the file contains are the arguments
  \<open>st\<close> and \<open>file\<close>; both get the name as the C string the system calls see.
\<close>

section \<open>Answering a request\<close>

text \<open>\<open>s.find(p) != std::string::npos\<close>.\<close>

fun contains :: "string \<Rightarrow> string \<Rightarrow> bool" where
  "contains p [] = (p = [])"
| "contains p (c # s) = (take (length p) (c # s) = p \<or> contains p s)"

definition server_name :: string where "server_name = ''47.96.106.37:9000''"

definition processError :: "http_request \<Rightarrow> http_response \<Rightarrow> http_response" where
  "processError q r =
     (let r = setCloseConnection True r;
          r = setRespVersion (req_version q) r;
          r = addRespHeader ''Server'' server_name r;
          r = addRespHeader ''Content-Type'' ''text/html charset=utf-8'' r
      in case requestCode q of
        NO_REQUEST \<Rightarrow> setBody error_400_form (setResponseMsg error_404_title (setResponseCode ''400'' r))
      | BAD_REQUEST \<Rightarrow> setBody error_404_form (setResponseMsg error_404_title (setResponseCode ''404'' r))
      | INTERNAL_ERROR \<Rightarrow> setBody error_500_form (setResponseMsg error_500_title (setResponseCode ''500'' r))
      | NO_RESOURCE \<Rightarrow> setBody error_403_form (setResponseMsg error_403_title (setResponseCode ''403'' r))
      | _ \<Rightarrow> setBody error_404_form (setResponseMsg error_404_title (setResponseCode ''404'' r)))"

definition defaultHttpCB ::
    "(string \<Rightarrow> 32 word option) \<Rightarrow> (string \<Rightarrow> string) \<Rightarrow> http_request \<Rightarrow> http_response \<Rightarrow> http_response" where
  "defaultHttpCB st file q r =
     (if requestCode q \<noteq> GET_REQUEST then processError q r
      else
        let r = setRespVersion (req_version q) r;
            r = addRespHeader ''Server'' server_name r;
            r = (if contains ''jpg'' (path q) then
                   addRespHeader ''Content-Type'' ''image/jpeg charset=utf-8'' r
                 else if contains ''pdf'' (path q) then
                   addRespHeader ''Content-Type'' ''application/pdf'' r
                 else addRespHeader ''Content-Type'' ''text/html charset=utf-8'' r);
            filePath = before NUL (''/root'' @ path q)
        in case st filePath of
          None \<Rightarrow> setBody error_404_form (setResponseMsg error_404_title (setResponseCode ''400'' r))
        | Some m \<Rightarrow>
            if m AND S_IROTH = 0 then
              setBody error_403_form (setResponseMsg error_403_title (setResponseCode ''403'' r))
            else if S_ISDIR m then
              setBody error_400_form (setResponseMsg error_400_title (setResponseCode ''400'' r))
            else setBody (file filePath) (setResponseMsg ok_200_title (setResponseCode ''200'' r)))"

definition wants_close :: "http_request \<Rightarrow> string \<Rightarrow> bool" where
  "wants_close q connection \<longleftrightarrow> connection = ''close'' \<or>
     (req_version q = ''HTTP/1.0'' \<and> connection \<noteq> ''Keep-Alive'')"

text \<open>
  \<open>onRequest\<close>. The length handed to \<open>send\<close> is the size of the text as an \<open>int\<close>; the model takes the size
  itself, so responses of more than 2 GiB are outside it.
\<close>

definition onRequest ::
    "(http_request \<Rightarrow> http_response \<Rightarrow> http_response) \<Rightarrow> bool \<Rightarrow> nat \<Rightarrow> nat \<Rightarrow> http_request \<Rightarrow>
     loop_state \<Rightarrow> loop_state res" where
  "onRequest http_cb wc tid x q l =
     bindE (getHeader ''Connection'' q) (\<lambda>connection.
       let response = http_cb q (HttpResponse (wants_close q connection));
           data = toString response []
       in bindE (send wc tid x data l) (\<lambda>l.
         if closeConnection response then conn_shutdown tid x l else Inr l))"

section \<open>The callbacks of a connection\<close>

text \<open>\<open>b0\<close> and \<open>r0\<close> are what the memory of the new parser holds where the constructor sets nothing.\<close>

definition onConnection :: "string option \<Rightarrow> nat \<Rightarrow> nat \<Rightarrow> loop_state \<Rightarrow> loop_state res" where
  "onConnection b0 r0 x l = bindE (isConnected x l) (\<lambda>yes.
     if yes then setContext (HttpContext b0 r0) x l else Inr l)"

text \<open>The parser works in the read buffer of the connection.\<close>

definition store_context :: "http_context \<Rightarrow> nat \<Rightarrow> loop_state \<Rightarrow> loop_state res" where
  "store_context ctx x = modify_conn x (\<lambda>c. c\<lparr> conn_context := Some ctx,
     readBuf := (case buf ctx of None \<Rightarrow> readBuf c | Some b \<Rightarrow> b) \<rparr>)"

definition onMessage ::
    "(http_request \<Rightarrow> http_response \<Rightarrow> http_response) \<Rightarrow> bool \<Rightarrow> nat \<Rightarrow> nat \<Rightarrow> string \<Rightarrow> nat \<Rightarrow>
     loop_state \<Rightarrow> loop_state res" where
  "onMessage http_cb wc tid x b len l = bindE (conn_at x l) (\<lambda>c.
     case conn_context c of
       None \<Rightarrow> Inl Null_Deref
     | Some ctx \<Rightarrow> bindE (parseRequest ctx) (\<lambda>(code, ctx).
         bindE (store_context ctx x l) (\<lambda>l.
         bindE (onRequest http_cb wc tid x (request ctx) l)
           (modify_conn x (\<lambda>c. c\<lparr> conn_context := map_option reset_context (conn_context c) \<rparr>)))))"

section \<open>Which answer is given\<close>

definition answer_headers :: "string \<Rightarrow> (string, string) std_map" where
  "answer_headers ct = [(''Content-Type'', ct), (''Server'', server_name)]"

definition content_type :: "string \<Rightarrow> string" where
  "content_type p = (if contains ''jpg'' p then ''image/jpeg charset=utf-8''
     else if contains ''pdf'' p then ''application/pdf'' else ''text/html charset=utf-8'')"

lemma put_order [simp]: "put ''Content-Type'' ct [(''Server'', s)] = [(''Content-Type'', ct), (''Server'', s)]"
proof -
  have "(''Content-Type'' :: string) < ''Server''" by (simp add: less_char_def)
  then show ?thesis by simp
qed

lemma default_answer_eq:
  assumes "requestCode q = GET_REQUEST"
  defines "p \<equiv> before NUL (''/root'' @ path q)"
  shows "defaultHttpCB st file q (HttpResponse close) = \<lparr> resp_version = req_version q,
    responseCode = (case st p of None \<Rightarrow> ''400'' | Some m \<Rightarrow> if m AND S_IROTH = 0 then ''403''
       else if S_ISDIR m then ''400'' else ''200''),
    responseMsg = (case st p of None \<Rightarrow> error_404_title | Some m \<Rightarrow> if m AND S_IROTH = 0 then error_403_title
       else if S_ISDIR m then error_400_title else ok_200_title),
    body = (case st p of None \<Rightarrow> error_404_form | Some m \<Rightarrow> if m AND S_IROTH = 0 then error_403_form
       else if S_ISDIR m then error_400_form else file p),
    resp_headers = answer_headers (content_type (path q)), closeConnection = close \<rparr>"
proof -
  define r where "r = (if contains ''jpg'' (path q) then
        addRespHeader ''Content-Type'' ''image/jpeg charset=utf-8''
          (addRespHeader ''Server'' server_name (setRespVersion (req_version q) (HttpResponse close)))
      else if contains ''pdf'' (path q) then
        addRespHeader ''Content-Type'' ''application/pdf''
          (addRespHeader ''Server'' server_name (setRespVersion (req_version q) (HttpResponse close)))
      else addRespHeader ''Content-Type'' ''text/html charset=utf-8''
          (addRespHeader ''Server'' server_name (setRespVersion (req_version q) (HttpResponse close))))"
  have r: "r = \<lparr> resp_version = req_version q, responseCode = [], responseMsg = [], body = [],
      resp_headers = answer_headers (content_type (path q)), closeConnection = close \<rparr>"
    unfolding r_def HttpResponse_def response_setters answer_headers_def content_type_def by simp
  show ?thesis
    unfolding defaultHttpCB_def Let_def r_def [symmetric] p_def [symmetric]
    using assms(1) r by (cases "st p") (simp_all add: response_setters)
qed

section \<open>Serving a request\<close>

text \<open>A connection that waits for the next request.\<close>

definition idle :: "loop_state \<Rightarrow> nat \<Rightarrow> tcp_conn \<Rightarrow> bound_call Channel.channel \<Rightarrow> bool" where
  "idle l x c ch \<longleftrightarrow> conn_ok l x c ch \<and> state c = CConnected \<and> \<not> isWriting ch \<and>
     (\<exists>b0 r0. conn_context c = Some (HttpContext b0 r0)) \<and> conn_readIdx c = 0 \<and>
     length (readBuf c) = READ_BUFFER_SIZE"

lemma handleRead_parses:
  assumes "idle l x c ch" "isInLoopThread tid l" "reads (world l) (fd ch) = map Received ss"
    "\<forall>s \<in> set ss. s \<noteq> []" "length (concat ss) < READ_BUFFER_SIZE"
    "on_message cb = Some (onMessage http wc tid)" "conn_context c = Some (HttpContext b0 r0)"
  defines "b \<equiv> concat ss @ drop (length (concat ss)) (readBuf c)"
  shows "handleRead cb tid x l =
    bindE (parseRequest (setBuffer b (length (concat ss)) (HttpContext b0 r0))) (\<lambda>(code, ctx).
      bindE (store_context ctx x (received x c (fd ch) (HttpContext b0 r0) (concat ss) l)) (\<lambda>l.
      bindE (onRequest http wc tid x (request ctx) l)
        (modify_conn x (\<lambda>c. c\<lparr> conn_context := map_option reset_context (conn_context c) \<rparr>))))"
proof -
  have i: "conn_ok l x c ch" "length (readBuf c) = READ_BUFFER_SIZE" "conn_readIdx c = 0"
    using assms(1) by (simp_all add: idle_def)
  have "handleRead cb tid x l = onMessage http wc tid x b (length (concat ss))
      (received x c (fd ch) (HttpContext b0 r0) (concat ss) l)"
    using handleRead_messages [OF i(1) assms(2,7,3,4) i(2) _ assms(6)] assms(5) i(3)
    by (simp add: b_def)
  also have "\<dots> = bindE (parseRequest (setBuffer b (length (concat ss)) (HttpContext b0 r0))) (\<lambda>(code, ctx).
      bindE (store_context ctx x (received x c (fd ch) (HttpContext b0 r0) (concat ss) l)) (\<lambda>l.
      bindE (onRequest http wc tid x (request ctx) l)
        (modify_conn x (\<lambda>c. c\<lparr> conn_context := map_option reset_context (conn_context c) \<rparr>))))"
    using i(3) by (simp add: onMessage_def conn_at_def received_def Let_def b_def)
  finally show ?thesis .
qed

lemma reset_context_new: "reset_context ctx = HttpContext None 0"
  by (simp add: reset_context_def HttpContext_def reset_request_def HttpRequest_def)

text \<open>What serving a request leaves alone: all of the loop but the sockets, the connection and the queue.\<close>

definition same_but_world :: "nat \<Rightarrow> tcp_conn \<Rightarrow> tcp_conn \<Rightarrow> bool \<Rightarrow> loop_state \<Rightarrow> loop_state \<Rightarrow> bool" where
  "same_but_world x c c' wc l l' \<longleftrightarrow>
     l' = l\<lparr> world := world l', pendingFunctor := pendingFunctor l @ completion wc x \<rparr> \<and>
     conns (world l') = (conns (world l))(x \<mapsto> c') \<and> conn_name c' = conn_name c \<and> channel c' = channel c"

lemma request_served:
  assumes "idle l x c ch" "isInLoopThread tid l" "reads (world l) (fd ch) = map Received ss"
    "\<forall>s \<in> set ss. s \<noteq> []" "length (concat ss) < READ_BUFFER_SIZE"
    "on_message cb = Some (onMessage http wc tid)"
    "spec_request (concat ss) = Inr (Some q)" "map_of (headers q) ''Connection'' = Some v"
    "writes (world l) (fd ch) = Takes k # ws"
    "length (toString (http q (HttpResponse (wants_close q v))) []) \<le> k"
  defines "r \<equiv> http q (HttpResponse (wants_close q v))"
  shows "\<exists>l' c'. handleRead cb tid x l = Inr l' \<and> conn_ok l' x c' ch \<and> isInLoopThread tid l' \<and>
    sent (world l') = (sent (world l))(fd ch := sent (world l) (fd ch) @ toString r []) \<and>
    writes (world l') = (writes (world l))(fd ch := ws) \<and>
    (if closeConnection r
     then state c' = CDisconnecting \<and> wr_shut (world l') = (wr_shut (world l))(fd ch := True)
     else idle l' x c' ch \<and> wr_shut (world l') = wr_shut (world l)) \<and>
    same_but_world x c c' wc l l'"
proof -
  obtain b0 r0 where ctx: "conn_context c = Some (HttpContext b0 r0)" using assms(1) by (auto simp: idle_def)
  have i: "conn_ok l x c ch" "length (readBuf c) = READ_BUFFER_SIZE" "conn_readIdx c = 0"
      "state c = CConnected" "\<not> isWriting ch"
    using assms(1) by (simp_all add: idle_def)
  let ?n = "length (concat ss)"
  define b where "b = concat ss @ drop ?n (readBuf c)"
  have nb: "?n \<le> length b" "length b = READ_BUFFER_SIZE" "take ?n b = concat ss"
    using assms(5) i(2) by (simp_all add: b_def)
  obtain code y where y: "parseRequest (setBuffer b ?n (HttpContext b0 r0)) = Inr (code, y)" "request y = q"
    using parseRequest_fresh [OF nb(1), of b0 r0] assms(7) nb(3)
    by (auto simp: outcome_def bindE_eq_Inr split: if_splits)
  obtain b' where b': "buf y = Some b'" "length b' = READ_BUFFER_SIZE"
    using parse_loop_buffer [OF y(1) [unfolded parseRequest_def]] nb(2) by (auto simp: setBuffer_def)
  define l1 where "l1 = received x c (fd ch) (HttpContext b0 r0) (concat ss) l"
  define c2 where "c2 = c\<lparr> conn_readIdx := ?n, conn_context := Some y, readBuf := b' \<rparr>"
  define l2 where "l2 = l\<lparr> world := (world l)\<lparr> reads := (reads (world l))(fd ch := []),
      conns := (conns (world l))(x \<mapsto> c2) \<rparr> \<rparr>"
  have st: "store_context y x l1 = Inr l2"
    using i(3) by (simp add: store_context_def modify_conn_def l1_def received_def Let_def b' c2_def l2_def)
  have ok2: "conn_ok l2 x c2 ch" "isInLoopThread tid l2" "state c2 = CConnected"
    using i(1,4) assms(2) by (simp_all add: conn_ok_def chan_def l2_def c2_def isInLoopThread_def)
  have w2: "writes (world l2) (fd ch) = Takes k # ws" using assms(9) by (simp add: l2_def)
  have len: "length (toString r []) \<le> k" using assms(10) by (simp add: r_def)
  define c3 where "c3 = clear_read c2"
  define l3 where "l3 = l2\<lparr> world := (world l2)\<lparr> conns := (conns (world l2))(x \<mapsto> c3),
      writes := (writes (world l2))(fd ch := ws),
      sent := (sent (world l2))(fd ch := sent (world l2) (fd ch) @ toString r []) \<rparr>,
    pendingFunctor := pendingFunctor l2 @ completion wc x \<rparr>"
  have snd: "send wc tid x (toString r []) l2 = Inr l3"
    using send_all [OF ok2(1,2,3) i(5) w2 len, of wc] by (simp add: l3_def c3_def)
  have ok3: "conn_ok l3 x c3 ch" "isInLoopThread tid l3" "state c3 = CConnected"
    using ok2 by (simp_all add: conn_ok_def chan_def l3_def c3_def clear_read_def isInLoopThread_def)
  define l4 where "l4 = (if closeConnection r then l3\<lparr> world := sys_shutdown (fd ch) ((world l3)\<lparr>
      conns := (conns (world l3))(x \<mapsto> c3\<lparr> state := CDisconnecting \<rparr>) \<rparr>) \<rparr> else l3)"
  define c4 where "c4 = (if closeConnection r then c3\<lparr> state := CDisconnecting \<rparr> else c3)"
  have ok4: "conn_ok l4 x c4 ch" "isInLoopThread tid l4"
    using ok3 by (simp_all add: conn_ok_def chan_def l4_def c4_def isInLoopThread_def sys_shutdown_def)
  have "conn_shutdown tid x l3 = Inr l4" if close: "closeConnection r"
  proof -
    define k3 where "k3 = l3\<lparr> world := (world l3)\<lparr> conns := (conns (world l3))(x \<mapsto> c3\<lparr> state := CDisconnecting \<rparr>) \<rparr> \<rparr>"
    have okk: "conn_ok k3 x (c3\<lparr> state := CDisconnecting \<rparr>) ch" "isInLoopThread tid k3"
      using ok3 by (simp_all add: conn_ok_def chan_def k3_def isInLoopThread_def)
    have "setState CDisconnecting x l3 = Inr k3"
      using conn_okD(2) [OF ok3(1)] by (simp add: setState_def modify_conn_def k3_def)
    moreover have "l4 = k3\<lparr> world := sys_shutdown (fd ch) (world k3) \<rparr>"
      using close by (simp add: l4_def k3_def)
    then have "shutdownInLoop tid x k3 = Inr l4"
      using okk(2) i(5) by (simp add: shutdownInLoop_def conn_okD [OF okk(1)])
    ultimately show ?thesis
      using ok3(3) okk(2)
      by (simp add: conn_shutdown_def conn_okD [OF ok3(1)] run_or_queue_def runInLoop_def)
  qed
  then have rq: "onRequest http wc tid x q l2 = Inr l4"
    using assms(8) snd unfolding onRequest_def getHeader_def
    by (simp add: Let_def r_def [symmetric]) (simp add: l4_def)
  define c5 where "c5 = c4\<lparr> conn_context := Some (HttpContext None 0) \<rparr>"
  define l5 where "l5 = l4\<lparr> world := (world l4)\<lparr> conns := (conns (world l4))(x \<mapsto> c5) \<rparr> \<rparr>"
  have cc: "conn_context c4 = Some y" by (simp add: c4_def c3_def clear_read_def c2_def)
  have rs: "modify_conn x (\<lambda>c. c\<lparr> conn_context := map_option reset_context (conn_context c) \<rparr>) l4 = Inr l5"
    using conn_okD(2) [OF ok4(1)] cc by (simp add: modify_conn_def l5_def c5_def reset_context_new)
  have "handleRead cb tid x l = Inr l5"
    using handleRead_parses [OF assms(1-6) ctx] y st rq rs
    by (simp add: b_def [symmetric] l1_def)
  moreover have ok5: "conn_ok l5 x c5 ch" "isInLoopThread tid l5"
    using ok4 by (simp_all add: conn_ok_def chan_def l5_def c5_def isInLoopThread_def)
  moreover have "sent (world l5) = (sent (world l))(fd ch := sent (world l) (fd ch) @ toString r [])"
    "writes (world l5) = (writes (world l))(fd ch := ws)"
    by (simp_all add: l5_def l4_def l3_def l2_def sys_shutdown_def)
  moreover have "if closeConnection r
     then state c5 = CDisconnecting \<and> wr_shut (world l5) = (wr_shut (world l))(fd ch := True)
     else idle l5 x c5 ch \<and> wr_shut (world l5) = wr_shut (world l)"
    using ok5(1) ok3(3) i(5) b'(2)
    by (auto simp: l5_def l4_def l3_def l2_def sys_shutdown_def c5_def c4_def c3_def idle_def clear_read_def
        c2_def)
  moreover have "same_but_world x c c5 wc l l5"
    by (simp add: same_but_world_def l5_def l4_def l3_def l2_def c5_def c4_def c3_def c2_def clear_read_def sys_shutdown_def)
  ultimately show ?thesis by blast
qed

lemma request_served_idle:
  assumes "idle l x c ch" "isInLoopThread tid l" "reads (world l) (fd ch) = map Received ss"
    "\<forall>s \<in> set ss. s \<noteq> []" "length (concat ss) < READ_BUFFER_SIZE"
    "on_message cb = Some (onMessage http wc tid)"
    "spec_request (concat ss) = Inr (Some q)" "map_of (headers q) ''Connection'' = Some v"
    "writes (world l) (fd ch) = Takes k # ws" "r = http q (HttpResponse (wants_close q v))"
    "length (toString r []) \<le> k" "\<not> closeConnection r"
  shows "\<exists>l' c'. handleRead cb tid x l = Inr l' \<and> isInLoopThread tid l' \<and> idle l' x c' ch \<and>
    sent (world l') = (sent (world l))(fd ch := sent (world l) (fd ch) @ toString r []) \<and> same_but_world x c c' wc l l'"
  using request_served [OF assms(1-9)] assms(10-12) by auto

text \<open>
  A request without a connection header, and every request that is rejected, takes the
  server down: \<open>onRequest\<close> reads the value of the header through the end iterator of the map. The
  error responses are therefore never sent.
\<close>

lemma missing_connection_header_is_undefined:
  assumes "idle l x c ch" "isInLoopThread tid l" "reads (world l) (fd ch) = map Received ss"
    "\<forall>s \<in> set ss. s \<noteq> []" "length (concat ss) < READ_BUFFER_SIZE"
    "on_message cb = Some (onMessage http wc tid)"
    "spec_request (concat ss) = Inr None \<or>
     (\<exists>q. spec_request (concat ss) = Inr (Some q) \<and> map_of (headers q) ''Connection'' = None)"
  shows "handleRead cb tid x l = Inl Dangling"
proof -
  obtain b0 r0 where ctx: "conn_context c = Some (HttpContext b0 r0)" using assms(1) by (auto simp: idle_def)
  have i: "length (readBuf c) = READ_BUFFER_SIZE" using assms(1) by (simp add: idle_def)
  let ?n = "length (concat ss)"
  define b where "b = concat ss @ drop ?n (readBuf c)"
  have nb: "?n \<le> length b" "take ?n b = concat ss" using assms(5) i by (simp_all add: b_def)
  obtain code y where y: "parseRequest (setBuffer b ?n (HttpContext b0 r0)) = Inr (code, y)"
      "map_of (headers (request y)) ''Connection'' = None"
  proof (cases "spec_request (concat ss) = Inr None")
    case True
    then show ?thesis using parseRequest_rejects [OF nb(1), of b0 r0] nb(2) that by auto
  next
    case False
    then show ?thesis
      using assms(7) parseRequest_fresh [OF nb(1), of b0 r0] nb(2) that
      by (auto simp: outcome_def bindE_eq_Inr split: if_splits)
  qed
  have "\<exists>l2. store_context y x (received x c (fd ch) (HttpContext b0 r0) (concat ss) l) = Inr l2"
    by (simp add: store_context_def modify_conn_def received_def Let_def)
  then show ?thesis
    using handleRead_parses [OF assms(1-6) ctx] y
    by (auto simp: b_def [symmetric] onRequest_def getHeader_def)
qed

text \<open>The response to what the grammar says of a request, if there is one to be asked for.\<close>

definition answer_to :: "(http_request \<Rightarrow> http_response \<Rightarrow> http_response) \<Rightarrow> http_request option \<Rightarrow> http_response option" where
  "answer_to http a = (case a of None \<Rightarrow> None
     | Some q \<Rightarrow> map_option (\<lambda>v. http q (HttpResponse (wants_close q v))) (map_of (headers q) ''Connection''))"

text \<open>
  C2: what one readable event of an idle connection does. \<open>handleRead\<close> takes the characters that are
  there, however many consecutive calls of \<open>read\<close> return them, for one request; it does not wait for
  more, so a request that is split over two events is parsed, and answered or rejected, at the first.
  If the grammar accepts the characters and there is a \<open>Connection\<close> header, the HTTP callback is asked,
  and when one call of \<open>write\<close> takes all of the response, exactly its text is sent; a response that keeps
  the connection leaves it idle again, one that closes it shuts the sending side down. If the grammar
  rejects the characters, or accepts them without a \<open>Connection\<close> header, the behaviour is undefined:
  the value of the header is read through the end iterator of the map. The error responses of
  \<open>processError\<close> are therefore never sent.
\<close>

theorem request_is_served:
  assumes "idle l x c ch" "isInLoopThread tid l" "reads (world l) (fd ch) = map Received ss"
    "\<forall>s \<in> set ss. s \<noteq> []" "length (concat ss) < READ_BUFFER_SIZE"
    "on_message cb = Some (onMessage http wc tid)" "spec_request (concat ss) = Inr a"
  shows "case answer_to http a of
      None \<Rightarrow> handleRead cb tid x l = Inl Dangling
    | Some r \<Rightarrow> (\<forall>k ws. writes (world l) (fd ch) = Takes k # ws \<longrightarrow> length (toString r []) \<le> k \<longrightarrow>
        (\<exists>l' c'. handleRead cb tid x l = Inr l' \<and> conn_ok l' x c' ch \<and> isInLoopThread tid l' \<and>
          sent (world l') = (sent (world l))(fd ch := sent (world l) (fd ch) @ toString r []) \<and>
          writes (world l') = (writes (world l))(fd ch := ws) \<and>
          (if closeConnection r
           then state c' = CDisconnecting \<and> wr_shut (world l') = (wr_shut (world l))(fd ch := True)
           else idle l' x c' ch \<and> wr_shut (world l') = wr_shut (world l))))"
proof (cases "\<exists>q v. a = Some q \<and> map_of (headers q) ''Connection'' = Some v")
  case True
  then obtain q v where q: "a = Some q" "map_of (headers q) ''Connection'' = Some v" by blast
  then have ans: "answer_to http a = Some (http q (HttpResponse (wants_close q v)))" by (simp add: answer_to_def)
  show ?thesis
    unfolding ans option.case
    using request_served [OF assms(1-6) assms(7) [unfolded q(1)] q(2)] by blast
next
  case False
  then have none: "answer_to http a = None" by (auto simp: answer_to_def split: option.split)
  have "spec_request (concat ss) = Inr None \<or>
      (\<exists>q. spec_request (concat ss) = Inr (Some q) \<and> map_of (headers q) ''Connection'' = None)"
    using assms(7) False by (cases a) auto
  from missing_connection_header_is_undefined [OF assms(1-6) this] show ?thesis by (simp add: none)
qed

definition http_callbacks ::
    "(http_request \<Rightarrow> http_response \<Rightarrow> http_response) \<Rightarrow> nat \<Rightarrow> callbacks" where
  "http_callbacks http tid = \<lparr> on_connection = Some (onConnection None 0),
     on_message = Some (onMessage http False tid), on_close = Some (\<lambda>_. Inr), on_write_complete = False \<rparr>"

definition demo_request :: "string list" where
  "demo_request = [''GET /a HTTP/1.1'' @ CRLF @ ''Conn'', ''ection: close'' @ CRLF @ CRLF]"

definition demo_parsed :: http_request where
  "demo_parsed = \<lparr> requestCode = GET_REQUEST, req_method = ''GET'', path = ''/a'', query = [],
     req_version = ''HTTP/1.1'', headers = [(''Connection'', ''close'')] \<rparr>"

lemma demo_request_parsed: "spec_request (concat demo_request) = Inr (Some demo_parsed)"
  by (simp add: demo_request_def demo_parsed_def spec_request_def spec_headers.simps line_status_of_def
      request_line_def Let_def before_def from_char_def valid_version_def header_value_def isspace_def)

definition demo_idle :: "read_result list \<Rightarrow> write_result list \<Rightarrow> loop_state" where
  "demo_idle rs ws = demo_loop (demo_conn (replicate READ_BUFFER_SIZE NUL) 0 CConnected)
     (demo_channel\<lparr> status := CAdded, events := CReadEvent \<rparr>) rs ws"

lemma demo_idle_ok:
  "idle (demo_idle rs ws) 3 (demo_conn (replicate READ_BUFFER_SIZE NUL) 0 CConnected)
     (demo_channel\<lparr> status := CAdded, events := CReadEvent \<rparr>)"
  "isInLoopThread 1 (demo_idle rs ws)"
proof -
  let ?c = "demo_conn (replicate READ_BUFFER_SIZE NUL) 0 CConnected"
  let ?ch = "demo_channel\<lparr> status := CAdded, events := CReadEvent \<rparr>"
  note ch = demo_channel_facts [of ?ch, OF refl]
  note ok = demo_conn_ok [of ?c ?ch rs ws, OF _ ch(1,2)]
  show "idle (demo_idle rs ws) 3 ?c ?ch"
    using ok ch(3) by (auto simp: idle_def demo_idle_def demo_conn_def)
  show "isInLoopThread 1 (demo_idle rs ws)" using ok by (simp add: demo_idle_def)
qed

theorem request_is_served_witness:
  fixes http r
  defines "http \<equiv> defaultHttpCB (\<lambda>_. None) (\<lambda>_. [])"
    and "r \<equiv> http demo_parsed (HttpResponse True)"
  shows "\<exists>l'. handleRead (http_callbacks http 1) 1 3
      (demo_idle (map Received demo_request) [Takes (length (toString r []))]) = Inr l' \<and>
    sent (world l') 5 = toString r [] \<and> wr_shut (world l') 5"
proof -
  let ?c = "demo_conn (replicate READ_BUFFER_SIZE NUL) 0 CConnected"
  let ?ch = "demo_channel\<lparr> status := CAdded, events := CReadEvent \<rparr>"
  let ?l = "demo_idle (map Received demo_request) [Takes (length (toString r []))]"
  have fd: "fd ?ch = 5" by (rule demo_channel_facts(2) [OF refl])
  have rd: "reads (world ?l) (fd ?ch) = map Received demo_request"
    "writes (world ?l) (fd ?ch) = Takes (length (toString r [])) # []" "sent (world ?l) = (\<lambda>_. [])"
    unfolding fd by (simp_all add: demo_idle_def)
  have ne: "\<forall>s \<in> set demo_request. s \<noteq> []" "length (concat demo_request) < READ_BUFFER_SIZE"
    by (simp_all add: demo_request_def READ_BUFFER_SIZE_def)
  have cb: "on_message (http_callbacks http 1) = Some (onMessage http False 1)"
    by (simp add: http_callbacks_def)
  have v: "map_of (headers demo_parsed) ''Connection'' = Some ''close''" "wants_close demo_parsed ''close''"
    by (simp_all add: demo_parsed_def wants_close_def)
  have close: "closeConnection r"
    using default_answer_eq [of demo_parsed "\<lambda>_. None" "\<lambda>_. []" True]
    by (simp add: r_def http_def demo_parsed_def)
  show ?thesis
    using request_is_served [OF demo_idle_ok rd(1) ne cb demo_request_parsed] v close fd rd(2,3)
    by (auto simp: r_def answer_to_def)
qed

section \<open>Many requests on one connection\<close>

text \<open>New input arrives at the socket, and it can take \<open>k\<close> characters.\<close>

definition feed :: "int \<Rightarrow> string list \<Rightarrow> nat \<Rightarrow> loop_state \<Rightarrow> loop_state" where
  "feed n ss k l = l\<lparr> world := (world l)\<lparr> reads := (reads (world l))(n := map Received ss),
     writes := (writes (world l))(n := [Takes k]) \<rparr> \<rparr>"

fun session :: "callbacks \<Rightarrow> nat \<Rightarrow> nat \<Rightarrow> int \<Rightarrow> (string list \<times> nat) list \<Rightarrow> loop_state \<Rightarrow> loop_state res" where
  "session cb tid x n [] l = Inr l"
| "session cb tid x n ((ss, k) # inputs) l =
     bindE (handleRead cb tid x (feed n ss k l)) (session cb tid x n inputs)"

text \<open>A round of the session: the request that arrives, and a response that keeps the connection.\<close>

definition answerable ::
    "(http_request \<Rightarrow> http_response \<Rightarrow> http_response) \<Rightarrow> string list \<times> nat \<Rightarrow> http_response \<Rightarrow> bool" where
  "answerable http i r \<longleftrightarrow> (\<forall>s \<in> set (fst i). s \<noteq> []) \<and> length (concat (fst i)) < READ_BUFFER_SIZE \<and>
     (\<exists>q v. spec_request (concat (fst i)) = Inr (Some q) \<and> map_of (headers q) ''Connection'' = Some v \<and>
        r = http q (HttpResponse (wants_close q v))) \<and>
     length (toString r []) \<le> snd i \<and> \<not> closeConnection r"

text \<open>
  C21: a connection that is kept serves any number of requests under the conditions that \<open>answerable\<close>
  names: each request arrives whole within one readable event (in any number of \<open>read\<close>s) and fits the
  buffer, the grammar accepts it, it has a \<open>Connection\<close> header, its response keeps the connection, and
  one \<open>write\<close> takes all of the response. Then the responses go out in the order of the requests, each
  complete and nothing in between, and after the last one the connection is idle. Without these
  conditions it fails: theorem \<open>request_is_served\<close> says what becomes of split requests and missing
  headers, and after a response that did not go out at once \<open>disableWrite\<close> stops the input as well.
\<close>

theorem requests_served_in_order:
  assumes "idle l x c ch" "isInLoopThread tid l" "on_message cb = Some (onMessage http wc tid)"
    "list_all2 (answerable http) inputs rs"
  shows "\<exists>l' c'. session cb tid x (fd ch) inputs l = Inr l' \<and> idle l' x c' ch \<and>
    sent (world l') (fd ch) = sent (world l) (fd ch) @ concat (map (\<lambda>r. toString r []) rs)"
  using assms(4,1,2)
proof (induction inputs rs arbitrary: l c rule: list_all2_induct)
  case Nil
  then show ?case by auto
next
  case (Cons i inputs r rs)
  obtain ss k where i: "i = (ss, k)" by (cases i)
  obtain q v where a: "\<forall>s \<in> set ss. s \<noteq> []" "length (concat ss) < READ_BUFFER_SIZE"
      "spec_request (concat ss) = Inr (Some q)" "map_of (headers q) ''Connection'' = Some v"
      "r = http q (HttpResponse (wants_close q v))" "length (toString r []) \<le> k" "\<not> closeConnection r"
    using Cons.hyps(1) i by (auto simp: answerable_def)
  let ?l = "feed (fd ch) ss k l"
  have f: "idle ?l x c ch" "isInLoopThread tid ?l" "reads (world ?l) (fd ch) = map Received ss"
      "writes (world ?l) (fd ch) = Takes k # []" "sent (world ?l) = sent (world l)"
    using Cons.prems by (simp_all add: idle_def conn_ok_def chan_def feed_def isInLoopThread_def)
  obtain l1 c1 where l1: "handleRead cb tid x ?l = Inr l1" "isInLoopThread tid l1" "idle l1 x c1 ch"
      "sent (world l1) = (sent (world l))(fd ch := sent (world l) (fd ch) @ toString r [])"
    using request_served_idle [OF f(1-3) a(1,2) assms(3) a(3,4) f(4)] a(5-7) f(5) by auto
  show ?case
    using Cons.IH [OF l1(3,2)] l1(1,4) i by auto
qed

lemma keep_alive_parsed:
  "spec_request (concat [''GET /a HTTP/1.1'' @ CRLF @ ''Connection: Keep-Alive'' @ CRLF @ CRLF]) =
     Inr (Some (demo_parsed\<lparr> headers := [(''Connection'', ''Keep-Alive'')] \<rparr>))"
  by (simp add: demo_parsed_def spec_request_def spec_headers.simps line_status_of_def
      request_line_def Let_def before_def from_char_def valid_version_def header_value_def isspace_def)

text \<open>The default callback without files, a request that keeps the connection, and what it answers.\<close>

definition demo_http :: "http_request \<Rightarrow> http_response \<Rightarrow> http_response" where
  "demo_http = defaultHttpCB (\<lambda>_. None) (\<lambda>_. [])"

definition demo_kept :: http_response where
  "demo_kept = demo_http (demo_parsed\<lparr> headers := [(''Connection'', ''Keep-Alive'')] \<rparr>) (HttpResponse False)"

definition demo_input :: "string list \<times> nat" where
  "demo_input = ([''GET /a HTTP/1.1'' @ CRLF @ ''Connection: Keep-Alive'' @ CRLF @ CRLF], length (toString demo_kept []))"

lemma demo_answerable: "answerable demo_http demo_input demo_kept"
proof -
  let ?q = "demo_parsed\<lparr> headers := [(''Connection'', ''Keep-Alive'')] \<rparr>"
  have r: "demo_kept = demo_http ?q (HttpResponse (wants_close ?q ''Keep-Alive''))" "\<not> closeConnection demo_kept"
    using default_answer_eq [of ?q "\<lambda>_. None" "\<lambda>_. []" False]
    by (simp_all add: demo_kept_def demo_http_def wants_close_def demo_parsed_def)
  have q: "map_of (headers ?q) ''Connection'' = Some ''Keep-Alive''" by simp
  have "spec_request (concat (fst demo_input)) = Inr (Some ?q)"
    unfolding demo_input_def fst_conv by (rule keep_alive_parsed)
  then show ?thesis
    unfolding answerable_def using r q by (auto simp: demo_input_def READ_BUFFER_SIZE_def)
qed

theorem requests_served_in_order_witness:
  "\<exists>l'. session (http_callbacks demo_http 1) 1 3 5 [demo_input, demo_input] (demo_idle [] []) = Inr l' \<and>
    sent (world l') 5 = toString demo_kept [] @ toString demo_kept []"
proof -
  let ?ch = "demo_channel\<lparr> status := CAdded, events := CReadEvent \<rparr>"
  have fd: "fd ?ch = 5" by (rule demo_channel_facts(2) [OF refl])
  have cb: "on_message (http_callbacks demo_http 1) = Some (onMessage demo_http False 1)"
    by (simp add: http_callbacks_def)
  have "list_all2 (answerable demo_http) [demo_input, demo_input] [demo_kept, demo_kept]"
    by (simp add: demo_answerable)
  from requests_served_in_order [OF demo_idle_ok cb this] fd show ?thesis
    by (auto simp: demo_idle_def)
qed

lemma missing_connection_header_is_undefined_witness:
  "handleRead (http_callbacks (\<lambda>_ r. r) 1) 1 3 (demo_idle [Received (''GET / HTTP/1.1'' @ CRLF @ CRLF)] []) =
     Inl Dangling"
proof -
  let ?ch = "demo_channel\<lparr> status := CAdded, events := CReadEvent \<rparr>"
  let ?ss = "[''GET / HTTP/1.1'' @ CRLF @ CRLF]"
  have fd: "fd ?ch = 5" by (rule demo_channel_facts(2) [OF refl])
  have rd: "reads (world (demo_idle [Received (''GET / HTTP/1.1'' @ CRLF @ CRLF)] [])) (fd ?ch) = map Received ?ss"
    unfolding fd by (simp add: demo_idle_def)
  have "\<exists>q. spec_request (concat ?ss) = Inr (Some q) \<and> map_of (headers q) ''Connection'' = None"
    by (simp add: spec_request_def spec_headers.simps line_status_of_def
      request_line_def Let_def before_def from_char_def valid_version_def)
  then show ?thesis
    by (intro missing_connection_header_is_undefined [OF demo_idle_ok rd])
      (simp_all add: READ_BUFFER_SIZE_def http_callbacks_def)
qed



end
