(* ===== verification/EventLoopThreadPool.thy ===== *)
theory EventLoopThreadPool
  imports Reactor_Prelude
begin

text \<open>
  src/EventLoopThreadPool.h and src/EventLoopThreadPool.cc: the loops that new connections are
  handed to in turn. A loop is a number; \<open>startLoop i\<close> is the loop the \<open>i\<close>th new thread returns, and
  \<open>here\<close> says whether the caller is the thread of the base loop. The names of the threads are left
  out.
\<close>

section \<open>The pool\<close>

record loop_pool =
  baseLoop :: nat
  next_idx :: nat
  numThreads :: int
  pool_started :: bool
  pool_loops :: "nat list"

definition EventLoopThreadPool :: "nat \<Rightarrow> loop_pool" where
  "EventLoopThreadPool b =
     \<lparr> baseLoop = b, next_idx = 0, numThreads = 0, pool_started = False, pool_loops = [] \<rparr>"

definition setNumThreads :: "int \<Rightarrow> loop_pool \<Rightarrow> loop_pool" where
  "setNumThreads n p = p\<lparr> numThreads := n \<rparr>"

fun start_threads :: "(nat \<Rightarrow> nat) \<Rightarrow> nat \<Rightarrow> nat \<Rightarrow> loop_pool \<Rightarrow> loop_pool" where
  "start_threads startLoop i 0 p = p"
| "start_threads startLoop i (Suc k) p =
     start_threads startLoop (i + 1) k (p\<lparr> pool_loops := pool_loops p @ [startLoop i] \<rparr>)"

text \<open>
  The second result lists the loops the initialisation callback is called with: every new thread
  calls it for its loop, and without threads it is called for the base loop.
\<close>

definition pool_start :: "bool \<Rightarrow> (nat \<Rightarrow> nat) \<Rightarrow> bool \<Rightarrow> loop_pool \<Rightarrow> (loop_pool \<times> nat list) res" where
  "pool_start here startLoop cb p =
     bindE (assertE (\<not> pool_started p)) (\<lambda>_.
     bindE (assertE here) (\<lambda>_.
       let p = start_threads startLoop 0 (nat (numThreads p)) (p\<lparr> pool_started := True \<rparr>);
           calls = (if cb then map startLoop [0..<nat (numThreads p)] else [])
       in Inr (p, if numThreads p = 0 \<and> cb then calls @ [baseLoop p] else calls)))"

definition getNextLoop :: "bool \<Rightarrow> loop_pool \<Rightarrow> (nat \<times> loop_pool) res" where
  "getNextLoop here p =
     bindE (assertE here) (\<lambda>_.
     bindE (assertE (pool_started p)) (\<lambda>_.
       if pool_loops p \<noteq> [] then
         bindE (rd (pool_loops p) (next_idx p)) (\<lambda>l.
           Inr (l, p\<lparr> next_idx := (next_idx p + 1) mod length (pool_loops p) \<rparr>))
       else Inr (baseLoop p, p)))"

section \<open>Round robin\<close>

text \<open>The loops of the pool, or the base loop when it has none.\<close>

definition ring :: "loop_pool \<Rightarrow> nat list" where
  "ring p = (if pool_loops p = [] then [baseLoop p] else pool_loops p)"

definition pool_ok :: "loop_pool \<Rightarrow> bool" where
  "pool_ok p \<longleftrightarrow> pool_started p \<and> next_idx p < length (ring p)"

lemma start_threads_eq:
  "start_threads f i k p = p\<lparr> pool_loops := pool_loops p @ map f [i..<i + k] \<rparr>"
proof (induction k arbitrary: i p)
  case (Suc k)
  have "[i..<i + Suc k] = i # [Suc i..<Suc i + k]" by (simp add: upt_conv_Cons)
  then show ?case using Suc [of "Suc i"] by simp
qed simp

lemma pool_start_ok:
  assumes "pool_start True f cb (setNumThreads n (EventLoopThreadPool b)) = Inr (p, calls)" "0 \<le> n"
  shows "pool_ok p" "ring p = (if n = 0 then [b] else map f [0..<nat n])"
    "calls = (if cb then ring p else [])" "next_idx p = 0"
proof -
  let ?p = "\<lparr> baseLoop = b, next_idx = 0, numThreads = n, pool_started = True,
      pool_loops = map f [0..<nat n] \<rparr>"
  let ?c = "if n = 0 \<and> cb then [b] else if cb then map f [0..<nat n] else []"
  have "pool_start True f cb (setNumThreads n (EventLoopThreadPool b)) = Inr (?p, ?c)"
    unfolding pool_start_def setNumThreads_def EventLoopThreadPool_def start_threads_eq Let_def by simp
  then have p: "p = ?p" and c: "calls = ?c" using assms(1) by simp_all
  show r: "ring p = (if n = 0 then [b] else map f [0..<nat n])"
    using assms(2) by (simp add: ring_def p)
  show "next_idx p = 0" by (simp add: p)
  show "calls = (if cb then ring p else [])" using c r by simp
  show "pool_ok p" using assms(2) r by (simp add: pool_ok_def p)
qed

lemma getNextLoop_ok:
  assumes "pool_ok p"
  shows "\<exists>p'. getNextLoop True p = Inr (ring p ! next_idx p, p') \<and> pool_ok p' \<and> ring p' = ring p \<and>
    next_idx p' = (next_idx p + 1) mod length (ring p) \<and> baseLoop p' = baseLoop p"
proof (cases "pool_loops p = []")
  case True
  then show ?thesis
    using assms by (intro exI [of _ p]) (simp add: getNextLoop_def pool_ok_def ring_def)
next
  case False
  then show ?thesis
    using assms
    by (intro exI [of _ "p\<lparr> next_idx := (next_idx p + 1) mod length (pool_loops p) \<rparr>"])
      (simp add: getNextLoop_def pool_ok_def ring_def)
qed

fun next_loops :: "nat \<Rightarrow> loop_pool \<Rightarrow> (nat list \<times> loop_pool) res" where
  "next_loops 0 p = Inr ([], p)"
| "next_loops (Suc k) p = bindE (getNextLoop True p) (\<lambda>(l, p).
     bindE (next_loops k p) (\<lambda>(ls, p). Inr (l # ls, p)))"

lemma next_loops_ring:
  "pool_ok p \<Longrightarrow> \<exists>p'. next_loops k p =
     Inr (map (\<lambda>i. ring p ! ((next_idx p + i) mod length (ring p))) [0..<k], p') \<and> pool_ok p'"
proof (induction k arbitrary: p)
  case (Suc k)
  obtain q where q: "getNextLoop True p = Inr (ring p ! next_idx p, q)" "pool_ok q" "ring q = ring p"
      "next_idx q = (next_idx p + 1) mod length (ring p)"
    using getNextLoop_ok [OF Suc.prems] by blast
  obtain p' where p': "next_loops k q =
      Inr (map (\<lambda>i. ring q ! ((next_idx q + i) mod length (ring q))) [0..<k], p')" "pool_ok p'"
    using Suc.IH [OF q(2)] by blast
  have "next_idx p < length (ring p)" using Suc.prems by (simp add: pool_ok_def)
  then have "map (\<lambda>i. ring p ! ((next_idx p + i) mod length (ring p))) [0..<Suc k] =
      ring p ! next_idx p # map (\<lambda>i. ring p ! ((next_idx p + Suc i) mod length (ring p))) [0..<k]"
    by (simp add: upt_conv_Cons map_Suc_upt [symmetric] del: upt_Suc map_Suc_upt)
  then show ?case
    using q p' by (auto simp: mod_add_left_eq)
qed simp

text \<open>
  After \<open>start\<close> with \<open>n\<close> threads the initialisation callback has been called exactly once for
  every loop that will ever get connections, and \<open>getNextLoop\<close> hands out these loops in turn, over
  and over: of any \<open>n\<close> calls in a row every loop gets one. Without threads it is always the base loop.
\<close>

lemma loops_in_turn:
  assumes "0 \<le> n" "pool_start True startLoop cb (setNumThreads n (EventLoopThreadPool b)) = Inr (p, calls)"
  shows "calls = (if cb then (if n = 0 then [b] else map startLoop [0..<nat n]) else []) \<and>
    (\<exists>p'. next_loops k p =
      Inr (map (\<lambda>i. if n = 0 then b else startLoop (i mod nat n)) [0..<k], p') \<and> pool_ok p')"
proof -
  note p = pool_start_ok [OF assms(2,1)]
  have "map (\<lambda>i. ring p ! ((next_idx p + i) mod length (ring p))) [0..<k] =
      map (\<lambda>i. if n = 0 then b else startLoop (i mod nat n)) [0..<k]"
    using assms(1) by (simp add: p(2,4))
  then show ?thesis using next_loops_ring [OF p(1), of k] p(2,3) by auto
qed

lemma loops_in_turn_witness:
  "\<exists>p p'. pool_start True (\<lambda>i. 10 + i) True (setNumThreads 3 (EventLoopThreadPool 1)) = Inr (p, [10, 11, 12]) \<and>
     next_loops 5 p = Inr ([10, 11, 12, 10, 11], p')"
proof -
  obtain p calls where p: "pool_start True (\<lambda>i. 10 + i) True (setNumThreads 3 (EventLoopThreadPool 1)) = Inr (p, calls)"
    by (simp add: pool_start_def setNumThreads_def EventLoopThreadPool_def Let_def)
  have u: "[0..<5] = [0, 1, 2, 3, 4 :: nat]" "[0..<3] = [0, 1, 2 :: nat]" by (simp_all add: upt_rec)
  show ?thesis
    using loops_in_turn [OF _ p, of 5] p by (auto simp: u)
qed

end
