(* ===== verification/TcpServer.thy ===== *)
theory TcpServer
  imports HttpServer EventLoopThreadPool
begin

text \<open>
  src/Acceptor.h, src/Acceptor.cc, src/TcpServer.h and src/TcpServer.cc, with the constructor of
  src/HttpServer.cc: the base loop accepts connections and hands them to the loops of the pool, each
  of which has a thread of its own. Every loop is an event loop of theory TcpConnection; the server
  refers to the loops by number and to a connection by its address, which is unique among all loops.
  Every operation says which thread makes it; an operation of one thread is atomic, and threads
  interleave between operations.
\<close>

section \<open>The server\<close>

record tcp_server =
  loops :: "nat \<Rightarrow> loop_state"
  loop_pool :: loop_pool
  srv_name :: string
  connections :: "(string, nat) std_map"
  loop_of :: "nat \<Rightarrow> nat"
  acceptor_fd :: int
  server_started :: bool
  nextConnId :: int
  accepted :: "int list"
  nonblock :: "int set"
  open_socks :: "int set"

text \<open>
  \<open>loop_of\<close> is the member \<open>loop_\<close> of the connections, \<open>accepted\<close> what the next calls of \<open>accept\<close>
  return (and a failure after that), \<open>open_socks\<close> the sockets that are open.
\<close>

definition base :: "tcp_server \<Rightarrow> nat" where
  "base s = baseLoop (loop_pool s)"

definition on_base_thread :: "nat \<Rightarrow> tcp_server \<Rightarrow> bool" where
  "on_base_thread tid s = isInLoopThread tid (loops s (base s))"

definition set_loop :: "nat \<Rightarrow> loop_state \<Rightarrow> tcp_server \<Rightarrow> tcp_server" where
  "set_loop L l s = s\<lparr> loops := (loops s)(L := l) \<rparr>"

definition on_loop :: "nat \<Rightarrow> (loop_state \<Rightarrow> loop_state res) \<Rightarrow> tcp_server \<Rightarrow> tcp_server res" where
  "on_loop L f s = bindE (f (loops s L)) (\<lambda>l. Inr (set_loop L l s))"

section \<open>Acceptor\<close>

text \<open>
  The constructor, with \<open>createNonBlockingFd\<close>: \<open>lfd\<close> is what \<open>socket\<close> returns, \<open>bound\<close> whether \<open>bind\<close>
  succeeds, \<open>a\<close> the address of the channel. \<open>None\<close> stands for \<open>exit(1)\<close>.
\<close>

definition Acceptor :: "nat \<Rightarrow> int \<Rightarrow> bool \<Rightarrow> nat \<Rightarrow> loop_state \<Rightarrow> loop_state option res" where
  "Acceptor tid lfd bound a l =
     bindE (assertE (lfd > 0)) (\<lambda>_.
       if \<not> bound then Inr None
       else let l = l\<lparr> poller := (poller l)\<lparr> chans := (chans (poller l))(a \<mapsto>
                setReadCB AcceptorHandleRead (Channel lfd)) \<rparr> \<rparr>
            in bindE (change tid EnableRead a l) (\<lambda>l. Inr (Some l)))"

section \<open>Construction and start\<close>

definition TcpServer :: "nat \<Rightarrow> nat \<Rightarrow> string \<Rightarrow> int \<Rightarrow> bool \<Rightarrow> nat \<Rightarrow> (nat \<Rightarrow> loop_state) \<Rightarrow> int list \<Rightarrow>
    tcp_server option res" where
  "TcpServer tid b nm lfd bound a ls ns =
     bindE (Acceptor tid lfd bound a (ls b)) (\<lambda>r. case r of None \<Rightarrow> Inr None
       | Some l \<Rightarrow> Inr (Some \<lparr> loops = ls(b := l), loop_pool = EventLoopThreadPool b, srv_name = nm,
           connections = [], loop_of = \<lambda>_. b, acceptor_fd = lfd, server_started = False, nextConnId = 1,
           accepted = ns, nonblock = {lfd}, open_socks = {lfd} \<rparr>))"

definition setThreadNum :: "int \<Rightarrow> tcp_server \<Rightarrow> tcp_server res" where
  "setThreadNum n s = bindE (assertE (n \<ge> 0)) (\<lambda>_.
     Inr (s\<lparr> loop_pool := setNumThreads n (loop_pool s) \<rparr>))"

text \<open>\<open>startLoop i\<close> is the loop of the \<open>i\<close>th new thread; \<open>cb\<close>: an initialisation callback is set.\<close>

definition server_start :: "nat \<Rightarrow> (nat \<Rightarrow> nat) \<Rightarrow> bool \<Rightarrow> tcp_server \<Rightarrow> (tcp_server \<times> nat list) res" where
  "server_start tid startLoop cb s =
     bindE (assertE (\<not> server_started s)) (\<lambda>_.
     let s = s\<lparr> server_started := True \<rparr> in
     bindE (assertE (on_base_thread tid s)) (\<lambda>_.
     bindE (pool_start (on_base_thread tid s) startLoop cb (loop_pool s)) (\<lambda>(p, calls).
       Inr (s\<lparr> loop_pool := p \<rparr>, calls))))"

section \<open>Connections\<close>

text \<open>
  \<open>closeCB_\<close> is the last thing \<open>handleClose\<close> of a connection calls. It reaches another loop, so the
  callback of the connection does nothing here and the server's callback follows it.
\<close>

definition inner :: "callbacks \<Rightarrow> callbacks" where
  "inner cb = cb\<lparr> on_close := Some (\<lambda>x. Inr) \<rparr>"

definition connName :: "tcp_server \<Rightarrow> int \<Rightarrow> string" where
  "connName s i = srv_name s @ ''-'' @ ''9000'' @ ''*'' @ decimal i"

text \<open>\<open>x\<close>, \<open>a\<close>, \<open>rb\<close> and \<open>wb\<close> are the memory the new connection and its channel get.\<close>

definition newConnection :: "(nat \<Rightarrow> callbacks) \<Rightarrow> nat \<Rightarrow> int \<Rightarrow> nat \<Rightarrow> nat \<Rightarrow> string \<Rightarrow> string \<Rightarrow>
    tcp_server \<Rightarrow> tcp_server res" where
  "newConnection cbs tid n x a rb wb s =
     bindE (assertE (on_base_thread tid s)) (\<lambda>_.
     bindE (getNextLoop (on_base_thread tid s) (loop_pool s)) (\<lambda>(ioLoop, p).
     let name = connName s (nextConnId s) in
     bindE (if nextConnId s = INT_MAX then Inl Signed_Overflow else Inr (nextConnId s + 1)) (\<lambda>i.
     let s = s\<lparr> loop_pool := p, nextConnId := i \<rparr>;
         s = set_loop ioLoop (TcpConnection x a name n rb wb (loops s ioLoop)) s;
         s = s\<lparr> loop_of := (loop_of s)(x := ioLoop), connections := put name x (connections s) \<rparr>
     in on_loop ioLoop (run_or_queue tid (ConnectionEstablished x)
          (connectionEstablished (inner (cbs tid)) tid x)) s)))"

definition acceptor_handleRead :: "(nat \<Rightarrow> callbacks) \<Rightarrow> nat \<Rightarrow> nat \<Rightarrow> nat \<Rightarrow> string \<Rightarrow> string \<Rightarrow>
    tcp_server \<Rightarrow> tcp_server res" where
  "acceptor_handleRead cbs tid x a rb wb s =
     bindE (assertE (on_base_thread tid s)) (\<lambda>_.
     let newFd = (case accepted s of [] \<Rightarrow> - 1 | n # ns \<Rightarrow> n);
         s = s\<lparr> accepted := tl (accepted s) \<rparr>
     in if newFd > 0 then
          newConnection cbs tid newFd x a rb wb
            (s\<lparr> open_socks := insert newFd (open_socks s), nonblock := insert newFd (nonblock s) \<rparr>)
        else Inr s)"

definition removeConnectionInLoop :: "nat \<Rightarrow> nat \<Rightarrow> tcp_server \<Rightarrow> tcp_server res" where
  "removeConnectionInLoop tid x s =
     bindE (assertE (on_base_thread tid s)) (\<lambda>_.
     bindE (conn_at x (loops s (loop_of s x))) (\<lambda>c.
     bindE (assertE (map_of (connections s) (conn_name c) \<noteq> None)) (\<lambda>_.
     let s = s\<lparr> connections := erase (conn_name c) (connections s) \<rparr>
     in on_loop (loop_of s x) (\<lambda>l. Inr (queueInLoop tid (ConnectionDestroyed x) l)) s)))"

definition removeConnection :: "nat \<Rightarrow> nat \<Rightarrow> tcp_server \<Rightarrow> tcp_server res" where
  "removeConnection tid x s =
     (if on_base_thread tid s then removeConnectionInLoop tid x s
      else on_loop (base s) (\<lambda>l. Inr (queueInLoop tid (RemoveConnectionInLoop x) l)) s)"

text \<open>\<open>handleClose\<close> of a connection in its loop, with the server's close callback.\<close>

definition conn_handleClose :: "(nat \<Rightarrow> callbacks) \<Rightarrow> nat \<Rightarrow> nat \<Rightarrow> tcp_server \<Rightarrow> tcp_server res" where
  "conn_handleClose cbs L x s =
     (let tid = threadId (loops s L)
      in bindE (on_loop L (handleClose (inner (cbs tid)) tid x) s) (removeConnection tid x))"

section \<open>The functors of a loop\<close>

text \<open>
  The last reference to a connection goes when \<open>connectionDestroyed\<close> has run and the map does not
  hold the connection any more: then it is destructed. The callbacks of channels are never queued,
  and completion callbacks are not modelled: the last equation ignores them.
\<close>

definition release :: "nat \<Rightarrow> nat \<Rightarrow> nat \<Rightarrow> tcp_server \<Rightarrow> tcp_server res" where
  "release L tid x s = (if x \<in> snd ` set (connections s) then Inr s else on_loop L (TcpConnection_dtor tid x) s)"

fun run_call :: "(nat \<Rightarrow> callbacks) \<Rightarrow> nat \<Rightarrow> bound_call \<Rightarrow> tcp_server \<Rightarrow> tcp_server res" where
  "run_call cbs L (ConnectionEstablished x) s =
     (let tid = threadId (loops s L) in on_loop L (connectionEstablished (inner (cbs tid)) tid x) s)"
| "run_call cbs L (ConnectionDestroyed x) s =
     (let tid = threadId (loops s L)
      in bindE (on_loop L (connectionDestroyed (inner (cbs tid)) tid x) s) (release L tid x))"
| "run_call cbs L (RemoveConnectionInLoop x) s = removeConnectionInLoop (threadId (loops s L)) x s"
| "run_call cbs L (SendInLoop x data len) s =
     (let tid = threadId (loops s L) in on_loop L (sendInLoop (on_write_complete (cbs tid)) tid x data) s)"
| "run_call cbs L (ShutdownInLoop x) s = on_loop L (shutdownInLoop (threadId (loops s L)) x) s"
| "run_call cbs L (StartReadInLoop x) s = on_loop L (startReadInLoop (threadId (loops s L)) x) s"
| "run_call cbs L (StopReadInLoop x) s = on_loop L (stopReadInLoop (threadId (loops s L)) x) s"
| "run_call cbs L _ s = Inr s"

fun run_calls :: "(nat \<Rightarrow> callbacks) \<Rightarrow> nat \<Rightarrow> bound_call list \<Rightarrow> tcp_server \<Rightarrow> tcp_server res" where
  "run_calls cbs L [] s = Inr s"
| "run_calls cbs L (f # fs) s = bindE (run_call cbs L f s) (run_calls cbs L fs)"

text \<open>\<open>EventLoop::doPendingFunctors\<close> of loop \<open>L\<close>, whose functors may reach the other loops.\<close>

definition run_pending :: "(nat \<Rightarrow> callbacks) \<Rightarrow> nat \<Rightarrow> tcp_server \<Rightarrow> tcp_server res" where
  "run_pending cbs L s =
     (let fs = pendingFunctor (loops s L)
      in bindE (run_calls cbs L fs
             (set_loop L ((loops s L)\<lparr> pendingFunctor := [], callingPendingFunctor := True \<rparr>) s)) (\<lambda>s.
           Inr (set_loop L ((loops s L)\<lparr> callingPendingFunctor := False \<rparr>) s)))"

section \<open>The destructor\<close>

text \<open>The loop resets the pointers in the map, which then goes away; here the entries go one by one.\<close>

fun destroy_all :: "(nat \<Rightarrow> callbacks) \<Rightarrow> nat \<Rightarrow> (string \<times> nat) list \<Rightarrow> tcp_server \<Rightarrow> tcp_server res" where
  "destroy_all cbs tid [] s = Inr s"
| "destroy_all cbs tid ((name, x) # rest) s =
     (let L = loop_of s x; here = isInLoopThread tid (loops s L);
          s = s\<lparr> connections := erase name (connections s) \<rparr>
      in bindE (on_loop L (run_or_queue tid (ConnectionDestroyed x)
               (connectionDestroyed (inner (cbs tid)) tid x)) s) (\<lambda>s.
         bindE (if here then release L tid x s else Inr s) (destroy_all cbs tid rest)))"

definition TcpServer_dtor :: "(nat \<Rightarrow> callbacks) \<Rightarrow> nat \<Rightarrow> tcp_server \<Rightarrow> tcp_server res" where
  "TcpServer_dtor cbs tid s =
     bindE (assertE (on_base_thread tid s)) (\<lambda>_. destroy_all cbs tid (connections s) s)"

section \<open>What an operation on one connection leaves alone\<close>

text \<open>The queue of a loop and the names of its connections.\<close>

definition names :: "loop_state \<Rightarrow> nat \<Rightarrow> string option" where
  "names l x = map_option conn_name (conns (world l) x)"

definition same_frame :: "loop_state \<Rightarrow> loop_state \<Rightarrow> bool" where
  "same_frame l l' \<longleftrightarrow> pendingFunctor l' = pendingFunctor l \<and> names l' = names l \<and>
     threadId l' = threadId l"

lemma same_frame_refl [simp]: "same_frame l l"
  by (simp add: same_frame_def)

lemma same_frame_trans [trans]: "same_frame l k \<Longrightarrow> same_frame k m \<Longrightarrow> same_frame l m"
  by (simp add: same_frame_def)

text \<open>A connection callback as a server sets it: it works and keeps the frame.\<close>

definition benign :: "callbacks \<Rightarrow> bool" where
  "benign cb \<longleftrightarrow> (case on_connection cb of None \<Rightarrow> False | Some f \<Rightarrow>
     (\<forall>x. harmless x f) \<and> (\<forall>x l. on_Inr (same_frame l) (f x l)))"

lemma same_frame_bind:
  "on_Inr (same_frame l) r \<Longrightarrow> (\<And>k. r = Inr k \<Longrightarrow> on_Inr (same_frame k) (f k)) \<Longrightarrow>
   on_Inr (same_frame l) (bindE r f)"
  by (cases r) (auto intro: same_frame_trans simp: on_Inr_def split: sum.splits)

lemma with_poller_frame: "on_Inr (same_frame l) (with_poller g l)"
  unfolding with_poller_def by (intro on_Inr_intros) (simp add: same_frame_def names_def fun_eq_iff)

lemma setState_frame: "on_Inr (same_frame l) (setState v x l)"
  unfolding setState_def modify_conn_def
  by (rule on_Inr_bindE) (auto simp: same_frame_def names_def split: option.splits)

lemma change_frame: "on_Inr (same_frame l) (change tid e a l)"
  unfolding change_def EventLoop.channel_update_def loop_updateChannel_def
  by (intro same_frame_bind with_poller_frame on_Inr_bindE)

lemma change_channel_frame: "on_Inr (same_frame l) (change_channel tid e x l)"
  unfolding change_channel_def by (intro on_Inr_bindE change_frame)

lemma channel_remove_frame: "on_Inr (same_frame l) (channel_remove tid a l)"
  unfolding channel_remove_def loop_removeChannel_def
  by (intro on_Inr_bindE same_frame_bind with_poller_frame)

lemma call_frame: "benign cb \<Longrightarrow> on_Inr (same_frame l) (call (on_connection cb) x l)"
  by (auto simp: benign_def call_def split: option.splits)

lemmas frames = setState_frame change_channel_frame channel_remove_frame call_frame with_poller_frame

lemma inner_simps [simp]: "on_connection (inner cb) = on_connection cb"
  "on_close (inner cb) = Some (\<lambda>x. Inr)" "benign (inner cb) = benign cb"
  by (simp_all add: inner_def benign_def)

lemma connectionEstablished_frame:
  "benign cb \<Longrightarrow> on_Inr (same_frame l) (connectionEstablished cb tid x l)"
  unfolding connectionEstablished_def tie_channel_def
  by (intro on_Inr_bindE on_Inr_if same_frame_bind frames; simp)

lemma handleClose_frame: "benign cb \<Longrightarrow> on_Inr (same_frame l) (handleClose (inner cb) tid x l)"
  unfolding handleClose_def
  by (intro on_Inr_bindE same_frame_bind frames; simp add: call_def)

lemma connectionDestroyed_frame: "benign cb \<Longrightarrow> on_Inr (same_frame l) (connectionDestroyed cb tid x l)"
  unfolding connectionDestroyed_def
  by (intro on_Inr_bindE on_Inr_if same_frame_bind frames; simp)

section \<open>The invariant of the server\<close>

text \<open>
  The loops are consistent, and every entry of the map is a connection that lives in the loop that
  was chosen for it, under the name it is registered with, which was made from an earlier number.
\<close>

definition server_inv :: "tcp_server \<Rightarrow> bool" where
  "server_inv s \<longleftrightarrow> pool_ok (loop_pool s) \<and>
     (\<forall>L \<in> insert (base s) (set (ring (loop_pool s))). loop_inv (loops s L)) \<and>
     keys_sorted (connections s) \<and> 0 < nextConnId s \<and> nextConnId s \<le> INT_MAX \<and>
     (\<forall>nm x. map_of (connections s) nm = Some x \<longrightarrow> loop_of s x \<in> set (ring (loop_pool s)) \<and>
        names (loops s (loop_of s x)) x = Some nm \<and>
        (\<exists>i. 0 < i \<and> i < nextConnId s \<and> nm = connName s i))"

text \<open>The loop the next connection goes to, and memory that is free for it.\<close>

definition next_loop :: "tcp_server \<Rightarrow> nat" where
  "next_loop s = ring (loop_pool s) ! next_idx (loop_pool s)"

definition fresh_for :: "tcp_server \<Rightarrow> nat \<Rightarrow> int \<Rightarrow> nat \<Rightarrow> nat \<Rightarrow> bool" where
  "fresh_for s L n x a \<longleftrightarrow> (\<forall>b d. chan (loops s L) b = Some d \<longrightarrow> fd d \<noteq> n) \<and> chan (loops s L) a = None \<and>
     names (loops s L) x = None \<and> x \<notin> snd ` set (connections s)"

lemma connName_inj:
  assumes "connName s i = connName s j" "0 < i" "0 < j"
  shows "i = j"
proof -
  have "decimal_nat (nat i) = decimal_nat (nat j)" using assms by (simp add: connName_def decimal_def)
  then have "nat i = nat j" by (rule decimal_nat_inj)
  then show ?thesis using assms by simp
qed

lemma next_loop_in: "pool_ok (loop_pool s) \<Longrightarrow> next_loop s \<in> set (ring (loop_pool s))"
  by (simp add: next_loop_def pool_ok_def)

text \<open>The server after the entries of a new connection are made, before it is established.\<close>

definition registered :: "tcp_server \<Rightarrow> loop_pool \<Rightarrow> loop_state \<Rightarrow> nat \<Rightarrow> tcp_server" where
  "registered s p l x = s\<lparr> loop_pool := p, nextConnId := nextConnId s + 1,
     loop_of := (loop_of s)(x := next_loop s),
     connections := put (connName s (nextConnId s)) x (connections s),
     loops := (loops s)(next_loop s := l) \<rparr>"

lemma newConnection_registers:
  assumes "server_inv s" "on_base_thread tid s" "nextConnId s < INT_MAX"
  shows "\<exists>p. pool_ok p \<and> ring p = ring (loop_pool s) \<and> baseLoop p = base s \<and>
    next_idx p = (next_idx (loop_pool s) + 1) mod length (ring p) \<and>
    newConnection cbs tid n x a rb wb s =
      bindE (run_or_queue tid (ConnectionEstablished x) (connectionEstablished (inner (cbs tid)) tid x)
        (TcpConnection x a (connName s (nextConnId s)) n rb wb (loops s (next_loop s))))
        (\<lambda>k. Inr (registered s p k x))"
proof -
  obtain p where p: "getNextLoop True (loop_pool s) = Inr (next_loop s, p)" "pool_ok p"
      "ring p = ring (loop_pool s)" "next_idx p = (next_idx (loop_pool s) + 1) mod length (ring (loop_pool s))"
      "baseLoop p = base s"
    using getNextLoop_ok [of "loop_pool s"] assms(1) by (auto simp: server_inv_def next_loop_def base_def)
  have "newConnection cbs tid n x a rb wb s =
      bindE (run_or_queue tid (ConnectionEstablished x) (connectionEstablished (inner (cbs tid)) tid x)
        (TcpConnection x a (connName s (nextConnId s)) n rb wb (loops s (next_loop s))))
        (\<lambda>k. Inr (registered s p k x))"
    using assms(2,3) p(1)
    by (simp add: newConnection_def set_loop_def on_loop_def Let_def registered_def connName_def
        cong: bindE_cong)
  then show ?thesis using p by auto
qed

lemma registered_inv:
  assumes "server_inv s" "nextConnId s < INT_MAX" "x \<notin> snd ` set (connections s)"
    "pool_ok p" "ring p = ring (loop_pool s)" "baseLoop p = base s" "loop_inv l"
    "names l = (names (loops s (next_loop s)))(x \<mapsto> connName s (nextConnId s))"
  shows "server_inv (registered s p l x)"
proof -
  let ?s = "registered s p l x" and ?nm = "connName s (nextConnId s)"
  have inv: "keys_sorted (connections s)" "0 < nextConnId s" "next_loop s \<in> set (ring (loop_pool s))"
    using assms(1) next_loop_in by (simp_all add: server_inv_def)
  have cn: "connName ?s = connName s" by (simp add: connName_def registered_def fun_eq_iff)
  have map: "map_of (connections ?s) = (map_of (connections s))(?nm \<mapsto> x)"
    by (simp add: registered_def map_of_put [OF inv(1)])
  have "loop_of ?s y \<in> set (ring (loop_pool ?s)) \<and> names (loops ?s (loop_of ?s y)) y = Some nm \<and>
      (\<exists>i. 0 < i \<and> i < nextConnId ?s \<and> nm = connName ?s i)"
    if y: "map_of (connections ?s) nm = Some y" for nm y
  proof (cases "nm = ?nm")
    case True
    then have "y = x" using y map by simp
    then show ?thesis using True inv assms(5,8) unfolding cn by (auto simp: registered_def intro!: exI [of _ "nextConnId s"])
  next
    case False
    then have old: "map_of (connections s) nm = Some y" using y map by simp
    then have "y \<noteq> x" using assms(3) map_of_SomeD by force
    moreover have "loop_of s y \<in> set (ring (loop_pool s))" "names (loops s (loop_of s y)) y = Some nm"
      "\<exists>i. 0 < i \<and> i < nextConnId s \<and> nm = connName s i"
      using assms(1) old unfolding server_inv_def by blast+
    moreover have "names (loops ?s (loop_of s y)) y = names (loops s (loop_of s y)) y"
      using \<open>y \<noteq> x\<close> assms(8) by (simp add: registered_def)
    ultimately show ?thesis
      unfolding cn by (auto simp: registered_def assms(5) intro: less_trans)
  qed
  then show ?thesis
    using assms inv put_sorted [OF inv(1)]
    unfolding server_inv_def by (auto simp: registered_def base_def)
qed

lemma TcpConnection_names:
  "names (TcpConnection x a nm n rb wb l) = (names l)(x \<mapsto> nm)"
  by (simp add: names_def TcpConnection_def Let_def fun_eq_iff)

lemma newConnection_ok:
  assumes "server_inv s" "on_base_thread tid s" "nextConnId s < INT_MAX" "benign (cbs tid)"
    "fresh_for s (next_loop s) n x a"
  shows "\<exists>p l c ch. newConnection cbs tid n x a rb wb s = Inr (registered s p l x) \<and>
    server_inv (registered s p l x) \<and> pool_ok p \<and> ring p = ring (loop_pool s) \<and> baseLoop p = base s \<and>
    next_idx p = (next_idx (loop_pool s) + 1) mod length (ring p) \<and>
    threadId l = threadId (loops s (next_loop s)) \<and> conn_ok l x c ch \<and> channel c = a \<and> fd ch = n \<and>
    others_kept (loops s (next_loop s)) l n a \<and>
    names l = (names (loops s (next_loop s)))(x \<mapsto> connName s (nextConnId s)) \<and>
    pendingFunctor l = pendingFunctor (loops s (next_loop s)) @
      (if isInLoopThread tid (loops s (next_loop s)) then [] else [ConnectionEstablished x]) \<and>
    (if isInLoopThread tid (loops s (next_loop s)) then state c = CConnected
     else state c = CConnecting \<and> l = (TcpConnection x a (connName s (nextConnId s)) n rb wb (loops s (next_loop s)))
            \<lparr> pendingFunctor := pendingFunctor (loops s (next_loop s)) @ [ConnectionEstablished x] \<rparr>)"
proof -
  let ?L = "next_loop s" and ?nm = "connName s (nextConnId s)"
  let ?l = "TcpConnection x a ?nm n rb wb (loops s ?L)"
  obtain p where p: "pool_ok p" "ring p = ring (loop_pool s)" "baseLoop p = base s"
      "next_idx p = (next_idx (loop_pool s) + 1) mod length (ring p)"
    and run: "newConnection cbs tid n x a rb wb s =
      bindE (run_or_queue tid (ConnectionEstablished x) (connectionEstablished (inner (cbs tid)) tid x) ?l)
        (\<lambda>k. Inr (registered s p k x))"
    using newConnection_registers [OF assms(1-3)] by metis
  have L: "loop_inv (loops s ?L)" using assms(1) next_loop_in by (auto simp: server_inv_def)
  have free: "\<And>b d. chan (loops s ?L) b = Some d \<Longrightarrow> fd d \<noteq> n" "chan (loops s ?L) a = None"
    and x: "x \<notin> snd ` set (connections s)"
    using assms(5) by (simp_all add: fresh_for_def)
  have th: "threadId ?l = threadId (loops s ?L)" "pendingFunctor ?l = pendingFunctor (loops s ?L)"
    by (simp_all add: TcpConnection_def Let_def)
  have own: "isInLoopThread (threadId (loops s ?L)) (loops s ?L)" by (simp add: isInLoopThread_def)
  obtain c ch where c: "conn_ok ?l x c ch" "isInLoopThread (threadId (loops s ?L)) ?l" "state c = CConnecting"
      "channel c = a" "fd ch = n" "status ch = CNew" "events ch = 0" "\<not> ch_handling ch"
      "others_kept (loops s ?L) ?l n a" "poller_at ?l n = (None, None)" "poller_at (loops s ?L) n = (None, None)"
      "eventHandling ?l = eventHandling (loops s ?L)"
    by (rule TcpConnection_ok [OF L own free, where x = x and nm = ?nm and rb = rb and wb = wb])
  show ?thesis
  proof (cases "isInLoopThread tid (loops s ?L)")
    case True
    then have tid: "isInLoopThread tid ?l" by (simp add: isInLoopThread_def th)
    obtain f where f: "on_connection (inner (cbs tid)) = Some f" "harmless x f"
      using assms(4) by (auto simp: benign_def split: option.splits)
    obtain k c' ch' where k: "connectionEstablished (inner (cbs tid)) tid x ?l = Inr k" "conn_ok k x c' ch'"
        "isInLoopThread tid k" "state c' = CConnected" "channel c' = channel c" "fd ch' = fd ch"
        "status ch' = CAdded" "events ch' = CReadEvent" "others_kept ?l k (fd ch) (channel c)"
      by (rule connectionEstablished_ok [OF c(1) tid c(3,7) f])
    have fr: "same_frame ?l k"
      using connectionEstablished_frame [of "inner (cbs tid)" ?l tid x] assms(4) k(1) by simp
    have "server_inv (registered s p k x)"
    proof (rule registered_inv [OF assms(1,3) x p(1-3)])
      show "loop_inv k" using k(2) by (simp add: conn_ok_def)
      show "names k = (names (loops s ?L))(x \<mapsto> ?nm)"
        using fr by (simp add: same_frame_def TcpConnection_names)
    qed
    moreover have "newConnection cbs tid n x a rb wb s = Inr (registered s p k x)"
      using run tid k(1) by (simp add: run_or_queue_def runInLoop_def)
    ultimately show ?thesis
      using True p k c(4,5) fr th others_kept_trans [OF c(9), of k]
      by (intro exI [of _ p] exI [of _ k] exI [of _ c'] exI [of _ ch'])
        (simp add: same_frame_def TcpConnection_names)
  next
    case False
    let ?k = "?l\<lparr> pendingFunctor := pendingFunctor (loops s ?L) @ [ConnectionEstablished x] \<rparr>"
    have ok: "conn_ok ?k x c ch" using c(1) by (simp add: conn_ok_def chan_def)
    have "server_inv (registered s p ?k x)"
    proof (rule registered_inv [OF assms(1,3) x p(1-3)])
      show "loop_inv ?k" using ok by (simp add: conn_ok_def)
      show "names ?k = (names (loops s ?L))(x \<mapsto> ?nm)"
        using TcpConnection_names [of x a ?nm n rb wb "loops s ?L"] by (simp add: names_def fun_eq_iff)
    qed
    moreover have "newConnection cbs tid n x a rb wb s = Inr (registered s p ?k x)"
      using run False th by (simp add: run_or_queue_def runInLoop_def isInLoopThread_def)
    ultimately show ?thesis
      using False p ok c th others_kept_trans [OF c(9) others_kept_poller [of ?k ?l]]
        TcpConnection_names [of x a ?nm n rb wb "loops s ?L"]
      by (intro exI [of _ p] exI [of _ ?k] exI [of _ c] exI [of _ ch]) (simp add: names_def fun_eq_iff)
  qed
qed

section \<open>Accepting\<close>

text \<open>The memory each new connection gets: its address, its channel and the two buffers.\<close>

type_synonym blocks = "nat \<times> nat \<times> string \<times> string"

fun accept_all :: "(nat \<Rightarrow> callbacks) \<Rightarrow> nat \<Rightarrow> blocks list \<Rightarrow> tcp_server \<Rightarrow> tcp_server res" where
  "accept_all cbs tid [] s = Inr s"
| "accept_all cbs tid ((x, a, rb, wb) # ms) s =
     bindE (acceptor_handleRead cbs tid x a rb wb s) (accept_all cbs tid ms)"

definition fresh_all :: "tcp_server \<Rightarrow> int list \<Rightarrow> blocks list \<Rightarrow> bool" where
  "fresh_all s ns ms \<longleftrightarrow> length ns = length ms \<and> distinct ns \<and> list_all (\<lambda>n. n > 0) ns \<and>
     distinct (map fst ms) \<and> distinct (map (\<lambda>(x, a, rb, wb). a) ms) \<and>
     (\<forall>L \<in> set (ring (loop_pool s)). (\<forall>b d. chan (loops s L) b = Some d \<longrightarrow> fd d \<notin> set ns) \<and>
        (\<forall>(x, a, rb, wb) \<in> set ms. chan (loops s L) a = None \<and> names (loops s L) x = None)) \<and>
     fst ` set ms \<inter> snd ` set (connections s) = {}"

text \<open>The functors one loop of the ring gets, when connections are handed out from position \<open>i\<close> on.\<close>

fun handed :: "nat list \<Rightarrow> nat \<Rightarrow> nat list \<Rightarrow> nat \<Rightarrow> bound_call list" where
  "handed R i [] L = []"
| "handed R i (x # xs) L =
     (if R ! (i mod length R) = L then [ConnectionEstablished x] else []) @ handed R (i + 1) xs L"

lemma handed_mod: "handed R (i mod length R) xs L = handed R i xs L"
proof (induction xs arbitrary: i)
  case (Cons x xs)
  have "handed R (i mod length R + 1) xs L = handed R ((i mod length R + 1) mod length R) xs L"
    using Cons by metis
  also have "\<dots> = handed R (i + 1) xs L" using Cons [of "i + 1"] by (simp add: mod_Suc_eq)
  finally show ?case by simp
qed simp

lemma accept_step:
  assumes "server_inv s" "on_base_thread tid s" "nextConnId s < INT_MAX" "benign (cbs tid)"
    "accepted s = n # ns" "fresh_all s (n # ns) ((x, a, rb, wb) # ms)"
  shows "\<exists>s'. acceptor_handleRead cbs tid x a rb wb s = Inr s' \<and> server_inv s' \<and> on_base_thread tid s' \<and>
    accepted s' = ns \<and> fresh_all s' ns ms \<and> nextConnId s' = nextConnId s + 1 \<and>
    ring (loop_pool s') = ring (loop_pool s) \<and> srv_name s' = srv_name s \<and>
    next_idx (loop_pool s') = (next_idx (loop_pool s) + 1) mod length (ring (loop_pool s)) \<and>
    connections s' = put (connName s (nextConnId s)) x (connections s) \<and>
    loop_of s' = (loop_of s)(x := next_loop s) \<and> (\<forall>L. threadId (loops s' L) = threadId (loops s L)) \<and>
    open_socks s' = insert n (open_socks s) \<and>
    (\<forall>L. \<not> isInLoopThread tid (loops s L) \<longrightarrow>
      pendingFunctor (loops s' L) = pendingFunctor (loops s L) @
        (if L = next_loop s then [ConnectionEstablished x] else []))"
proof -
  let ?s = "s\<lparr> accepted := ns, open_socks := insert n (open_socks s), nonblock := insert n (nonblock s) \<rparr>"
  have same: "connName ?s = connName s" "next_loop ?s = next_loop s"
    by (simp_all add: connName_def next_loop_def fun_eq_iff)
  have inv: "server_inv ?s"
    using assms(1) unfolding server_inv_def by (simp add: same base_def)
  have L: "next_loop s \<in> set (ring (loop_pool s))" using assms(1) next_loop_in by (simp add: server_inv_def)
  have fr: "fresh_for ?s (next_loop ?s) n x a"
    using assms(6) L unfolding same by (auto simp: fresh_for_def fresh_all_def)
  obtain p l c ch where new: "newConnection cbs tid n x a rb wb ?s = Inr (registered ?s p l x)"
      "server_inv (registered ?s p l x)" "ring p = ring (loop_pool s)" "baseLoop p = base s"
      "next_idx p = (next_idx (loop_pool s) + 1) mod length (ring p)"
      "threadId l = threadId (loops s (next_loop s))" "conn_ok l x c ch" "channel c = a" "fd ch = n"
      "others_kept (loops s (next_loop s)) l n a"
      "names l = (names (loops s (next_loop s)))(x \<mapsto> connName s (nextConnId s))"
      "pendingFunctor l = pendingFunctor (loops s (next_loop s)) @
        (if isInLoopThread tid (loops s (next_loop s)) then [] else [ConnectionEstablished x])"
    using newConnection_ok [OF inv, of tid cbs n x a rb wb] assms(2-4) fr
    unfolding same by (auto simp: on_base_thread_def base_def)
  let ?s' = "registered ?s p l x"
  have s': "loops ?s' = (loops s)(next_loop s := l)" "loop_pool ?s' = p"
      "connections ?s' = put (connName s (nextConnId s)) x (connections s)"
      "loop_of ?s' = (loop_of s)(x := next_loop s)" "nextConnId ?s' = nextConnId s + 1"
      "accepted ?s' = ns" "srv_name ?s' = srv_name s" "open_socks ?s' = insert n (open_socks s)"
    using same by (simp_all add: registered_def)
  have n: "n > 0" using assms(6) by (simp add: fresh_all_def)
  have run: "acceptor_handleRead cbs tid x a rb wb s = Inr ?s'"
    using assms(2,5) n new(1) by (simp add: acceptor_handleRead_def)
  have "base ?s' = base s" by (simp add: base_def s'(2)) (simp add: base_def [symmetric] new(4))
  then have th: "on_base_thread tid ?s'" "threadId (loops ?s' L) = threadId (loops s L)" for L
    using assms(2) new(6) by (auto simp: on_base_thread_def isInLoopThread_def s'(1))
  have ch: "chan l a = Some ch" using new(7,8) by (simp add: conn_ok_def)
  have "fresh_all ?s' ns ms"
  proof -
    have F: "chan (loops s M) a' = None" "names (loops s M) x' = None"
      if "M \<in> set (ring (loop_pool s))" "(x', a', rb', wb') \<in> set ms" for M x' a' rb' wb'
      using that assms(6) by (auto simp: fresh_all_def)
    have nx: "n \<notin> set ns" "x \<notin> fst ` set ms" "a \<notin> (\<lambda>(x, a, rb, wb). a) ` set ms"
      using assms(6) by (simp_all add: fresh_all_def)
    have D: "x' \<noteq> x" "a' \<noteq> a" if "(x', a', rb', wb') \<in> set ms" for x' a' rb' wb'
    proof -
      have "x' \<in> fst ` set ms" "a' \<in> (\<lambda>(x, a, rb, wb). a) ` set ms"
        using that by (auto intro: rev_image_eqI)
      then show "x' \<noteq> x" "a' \<noteq> a" using nx(2,3) by blast+
    qed
    have C: "chan l b = (if b = a then Some ch else chan (loops s (next_loop s)) b)" for b
      using new(10) ch by (auto simp: others_kept_def)
    have "fd d \<notin> set ns" if "M \<in> set (ring (loop_pool s))" "chan (loops ?s' M) b = Some d" for M b d
    proof -
      have free: "fd e \<notin> set ns" if "M \<in> set (ring (loop_pool s))" "chan (loops s M) b = Some e" for M b e
        using that assms(6) by (auto simp: fresh_all_def)
      show ?thesis using that free [of M] free [of "next_loop s"] L C new(9) nx(1)
        by (auto simp: s'(1) split: if_splits)
    qed
    moreover have "chan (loops ?s' M) a' = None \<and> names (loops ?s' M) x' = None"
      if "M \<in> set (ring (loop_pool s))" "(x', a', rb', wb') \<in> set ms" for M x' a' rb' wb'
      using F [OF that] D [OF that(2)] C new(11) by (auto simp: s'(1))
    moreover have "fst ` set ms \<inter> snd ` set (connections ?s') = {}"
    proof -
      have "snd ` set (connections ?s') \<subseteq> insert x (snd ` set (connections s))"
        using set_put_subset [of "connName s (nextConnId s)" x "connections s"] unfolding s'(3) by force
      moreover have "fst ` set ms \<inter> snd ` set (connections s) = {}"
        using assms(6) by (simp add: fresh_all_def)
      ultimately show ?thesis using nx(2) by blast
    qed
    moreover have "length ns = length ms" "distinct ns" "list_all (\<lambda>n. n > 0) ns" "distinct (map fst ms)"
      "distinct (map (\<lambda>(x, a, rb, wb). a) ms)"
      using assms(6) by (simp_all add: fresh_all_def)
    ultimately show ?thesis
      unfolding fresh_all_def s'(2) new(3) by blast
  qed
  then show ?thesis
    using run new(2,3,5,12) th by (intro exI [of _ ?s']) (simp add: s')
qed

lemma accept_all_spread:
  "server_inv s \<Longrightarrow> on_base_thread tid s \<Longrightarrow> benign (cbs tid) \<Longrightarrow> fresh_all s (accepted s) ms \<Longrightarrow>
   nextConnId s + int (length ms) \<le> INT_MAX \<Longrightarrow> R = ring (loop_pool s) \<Longrightarrow> k = next_idx (loop_pool s) \<Longrightarrow>
   \<exists>s'. accept_all cbs tid ms s = Inr s' \<and> server_inv s' \<and> accepted s' = [] \<and>
    (\<forall>i < length ms. map_of (connections s') (connName s (nextConnId s + int i)) = Some (fst (ms ! i)) \<and>
       loop_of s' (fst (ms ! i)) = R ! ((k + i) mod length R)) \<and>
    (\<forall>nm y. map_of (connections s) nm = Some y \<longrightarrow>
       map_of (connections s') nm = Some y \<and> loop_of s' y = loop_of s y) \<and>
    (\<forall>L. \<not> isInLoopThread tid (loops s L) \<longrightarrow>
       pendingFunctor (loops s' L) = pendingFunctor (loops s L) @ handed R k (map fst ms) L)"
proof (induction ms arbitrary: s k)
  case Nil
  then have "accepted s = []" by (auto simp: fresh_all_def)
  then show ?case using Nil by simp
next
  case (Cons m ms)
  obtain x a rb wb where m: "m = (x, a, rb, wb)" by (metis prod.exhaust)
  obtain n ns where ns: "accepted s = n # ns"
    using Cons.prems(4) by (cases "accepted s") (auto simp: fresh_all_def)
  have id: "nextConnId s < INT_MAX" using Cons.prems(5) by simp
  obtain s1 where s1: "acceptor_handleRead cbs tid x a rb wb s = Inr s1" "server_inv s1" "on_base_thread tid s1"
      "accepted s1 = ns" "fresh_all s1 ns ms" "nextConnId s1 = nextConnId s + 1"
      "ring (loop_pool s1) = R" "srv_name s1 = srv_name s"
      "next_idx (loop_pool s1) = (k + 1) mod length R"
      "connections s1 = put (connName s (nextConnId s)) x (connections s)"
      "loop_of s1 = (loop_of s)(x := next_loop s)" "\<And>L. threadId (loops s1 L) = threadId (loops s L)"
      "\<And>L. \<not> isInLoopThread tid (loops s L) \<Longrightarrow> pendingFunctor (loops s1 L) =
        pendingFunctor (loops s L) @ (if L = next_loop s then [ConnectionEstablished x] else [])"
    using accept_step [of s tid cbs n ns x a rb wb ms] Cons.prems(1-4,6,7) id ns
    unfolding m ns by blast
  obtain s' where s': "accept_all cbs tid ms s1 = Inr s'" "server_inv s'" "accepted s' = []"
      "\<forall>i < length ms. map_of (connections s') (connName s1 (nextConnId s1 + int i)) = Some (fst (ms ! i)) \<and>
        loop_of s' (fst (ms ! i)) = R ! (((k + 1) mod length R + i) mod length R)"
      "\<forall>nm y. map_of (connections s1) nm = Some y \<longrightarrow>
        map_of (connections s') nm = Some y \<and> loop_of s' y = loop_of s1 y"
      "\<forall>L. \<not> isInLoopThread tid (loops s1 L) \<longrightarrow>
        pendingFunctor (loops s' L) = pendingFunctor (loops s1 L) @ handed R ((k + 1) mod length R) (map fst ms) L"
    using Cons.IH [of s1 "(k + 1) mod length R"] s1(2-9) Cons.prems(3,5) by auto
  have cn: "connName s1 = connName s" by (simp add: connName_def s1(8) fun_eq_iff)
  have kR: "k < length R" using Cons.prems(1,6,7) by (simp add: server_inv_def pool_ok_def)
  have nl: "next_loop s = R ! k" using Cons.prems(6,7) by (simp add: next_loop_def)
  have sorted: "keys_sorted (connections s)" and pos: "0 < nextConnId s" using Cons.prems(1) by (simp_all add: server_inv_def)
  have map1: "map_of (connections s1) = (map_of (connections s))(connName s (nextConnId s) \<mapsto> x)"
    by (simp add: s1(10) map_of_put [OF sorted])
  have "map_of (connections s') (connName s (nextConnId s + int i)) = Some (fst ((m # ms) ! i)) \<and>
      loop_of s' (fst ((m # ms) ! i)) = R ! ((k + i) mod length R)" if "i < length (m # ms)" for i
  proof (cases i)
    case 0
    then show ?thesis
      using s'(5) [rule_format, of "connName s (nextConnId s)" x] map1 s1(11) nl kR by (simp add: m)
  next
    case (Suc j)
    have "((k + 1) mod length R + j) mod length R = (k + i) mod length R"
      by (simp add: Suc mod_add_left_eq)
    then show ?thesis using s'(4) that by (simp add: Suc cn s1(6) add.assoc)
  qed
  moreover have "map_of (connections s') nm = Some y \<and> loop_of s' y = loop_of s y"
    if y: "map_of (connections s) nm = Some y" for nm y
  proof -
    obtain i where i: "0 < i" "i < nextConnId s" "nm = connName s i"
      using Cons.prems(1) y unfolding server_inv_def by blast
    then have "nm \<noteq> connName s (nextConnId s)" using connName_inj [of s i "nextConnId s"] pos by auto
    then have "map_of (connections s1) nm = Some y" using map1 y by simp
    moreover have "y \<noteq> x"
    proof -
      have "y \<in> snd ` set (connections s)" using map_of_SomeD [OF y] by (rule image_eqI [rotated]) simp
      moreover have "x \<notin> snd ` set (connections s)" using Cons.prems(4) by (simp add: fresh_all_def m)
      ultimately show ?thesis by blast
    qed
    ultimately show ?thesis using s'(5) s1(11) by simp
  qed
  moreover have "pendingFunctor (loops s' L) = pendingFunctor (loops s L) @ handed R k (map fst (m # ms)) L"
    if "\<not> isInLoopThread tid (loops s L)" for L
  proof -
    have "\<not> isInLoopThread tid (loops s1 L)" using that s1(12) by (simp add: isInLoopThread_def)
    then show ?thesis using s'(6) s1(13) [OF that] nl kR by (simp add: m handed_mod)
  qed
  moreover have "accept_all cbs tid (m # ms) s = Inr s'" using s1(1) s'(1) by (simp add: m)
  ultimately show ?case using s'(2,3) by blast
qed

text \<open>
  C10: connections are spread evenly. For every pending client in turn the acceptor registers a
  connection under a name of its own and hands it to the next loop of the pool, over and over: the
  \<open>i\<close>th one goes to the loop \<open>i\<close> places further in the ring. For every loop of another thread, the calls
  that will establish the connections handed to it, one for each, are queued behind what its queue
  held, in the order of arrival; what running such a call does is part of theorem \<open>server_life_cycle\<close>. (In a
  server without threads the only loop is the caller's own, of which this says nothing more.)
\<close>

theorem connections_spread:
  assumes "server_inv s" "on_base_thread tid s" "benign (cbs tid)" "fresh_all s (accepted s) ms"
    "nextConnId s + int (length ms) \<le> INT_MAX"
  shows "\<exists>s'. accept_all cbs tid ms s = Inr s' \<and> server_inv s' \<and>
    (\<forall>i < length ms. map_of (connections s') (connName s (nextConnId s + int i)) = Some (fst (ms ! i)) \<and>
       loop_of s' (fst (ms ! i)) = ring (loop_pool s) !
         ((next_idx (loop_pool s) + i) mod length (ring (loop_pool s)))) \<and>
    (\<forall>L. \<not> isInLoopThread tid (loops s L) \<longrightarrow> pendingFunctor (loops s' L) = pendingFunctor (loops s L) @
       handed (ring (loop_pool s)) (next_idx (loop_pool s)) (map fst ms) L)"
  using accept_all_spread [of s tid cbs ms, OF assms refl refl] by blast

section \<open>Starting\<close>

text \<open>A channel that is new to a loop does not disturb it.\<close>

lemma new_channel_inv:
  fixes l :: loop_state
  assumes "loop_inv l" "\<forall>b d. chan l b = Some d \<longrightarrow> fd d \<noteq> fd ch" "chan l a = None" "status ch = CNew" "events ch = 0"
  shows "loop_inv (l\<lparr> poller := (poller l)\<lparr> chans := (chans (poller l))(a \<mapsto> ch) \<rparr> \<rparr>)"
proof -
  let ?p = "(poller l)\<lparr> chans := (chans (poller l))(a \<mapsto> ch) \<rparr>"
  have inv: "poller_inv None (poller l)" using assms(1) by (simp add: loop_inv_def)
  have ne: "b \<noteq> a" if "map_of (chmap (poller l)) m = Some b" for m b
    using mapped_channel [OF inv that] assms(3) by (auto simp: chan_def)
  then have view: "kernel_view ?p = kernel_view (poller l)"
    by (auto simp: kernel_view_def fun_eq_iff split: option.split)
  have "poller_inv None ?p"
    using inv ne assms(4) unfolding poller_inv_def view by (auto split: if_splits)
  moreover have "fd ch \<noteq> fd d" if "chans (poller l) b = Some d" for b d
    using assms(2) that by (metis chan_def)
  ultimately show ?thesis
    using assms unfolding loop_inv_def chan_def by (auto split: if_splits)
qed

lemma Acceptor_ok:
  assumes "loop_inv l" "isInLoopThread tid l" "lfd > 0" "chan l a = None"
    "\<forall>b d. chan l b = Some d \<longrightarrow> fd d \<noteq> lfd"
  shows "\<exists>l'. Acceptor tid lfd True a l = Inr (Some l') \<and> loop_inv l' \<and> isInLoopThread tid l' \<and>
    poller_at l' lfd = (Some a, Some (CReadEvent, a))"
proof -
  let ?ch = "setReadCB AcceptorHandleRead (Channel lfd)"
  let ?l = "l\<lparr> poller := (poller l)\<lparr> chans := (chans (poller l))(a \<mapsto> ?ch) \<rparr> \<rparr>"
  have ch: "fd ?ch = lfd" "status ?ch = CNew" "events ?ch = 0"
    by (simp_all add: Channel_def setter_defs CNew_def)
  have inv: "loop_inv ?l" by (rule new_channel_inv [OF assms(1)]) (use assms(4,5) ch in auto)
  have th: "threadId ?l = tid" "chan ?l a = Some ?ch" using assms(2) by (simp_all add: isInLoopThread_def chan_def)
  obtain p where p: "change tid EnableRead a ?l = Inr (?l\<lparr> poller := p \<rparr>)" "loop_inv (?l\<lparr> poller := p \<rparr>)"
    "map_of (chmap p) = (map_of (chmap (poller ?l)))(fd ?ch \<mapsto> a)"
    "interest p = (interest (poller ?l))(fd ?ch :=
      if status (changed EnableRead ?ch) = CAdded
      then Some (EPOLLET OR events (changed EnableRead ?ch), a) else None)"
    using change_ok [OF inv th(2,1), of EnableRead] by blast
  have "EPOLLET OR CReadEvent = CReadEvent" "CReadEvent \<noteq> 0"
    by (simp_all add: channel_masks epoll_masks)
  then have "status (changed EnableRead ?ch) = CAdded" "EPOLLET OR events (changed EnableRead ?ch) = CReadEvent"
    using ch by (simp_all add: changed_def change_events.simps)
  then show ?thesis
    using assms(2,3) p ch by (auto simp: Acceptor_def poller_at_def isInLoopThread_def)
qed

text \<open>
  A server that is constructed on the loop of the calling thread and started with \<open>n\<close> threads
  watches its listening socket, hands connections to the loops of the new threads (or to the base
  loop), and is consistent; a second start fails its assertion, and a port that cannot be bound ends
  the program.
\<close>

lemma server_starts:
  assumes "loop_inv (ls b)" "isInLoopThread tid (ls b)" "lfd > 0" "chan (ls b) a = None"
    "\<forall>c d. chan (ls b) c = Some d \<longrightarrow> fd d \<noteq> lfd" "0 \<le> n"
    "\<forall>i < nat n. loop_inv (ls (startLoop i)) \<and> startLoop i \<noteq> b"
  shows "TcpServer tid b nm lfd False a ls ns = Inr None \<and>
    (\<exists>s s1 s2 calls. TcpServer tid b nm lfd True a ls ns = Inr (Some s) \<and> setThreadNum n s = Inr s1 \<and>
      server_start tid startLoop cb s1 = Inr (s2, calls) \<and> server_inv s2 \<and> on_base_thread tid s2 \<and>
      ring (loop_pool s2) = (if n = 0 then [b] else map startLoop [0..<nat n]) \<and>
      next_idx (loop_pool s2) = 0 \<and> calls = (if cb then ring (loop_pool s2) else []) \<and>
      base s2 = b \<and> connections s2 = [] \<and> nextConnId s2 = 1 \<and> accepted s2 = ns \<and> srv_name s2 = nm \<and>
      poller_at (loops s2 b) lfd = (Some a, Some (CReadEvent, a)) \<and> (\<forall>L. L \<noteq> b \<longrightarrow> loops s2 L = ls L) \<and>
      server_start tid startLoop cb s2 = Inl Assert_Failed)"
proof -
  obtain l where l: "Acceptor tid lfd True a (ls b) = Inr (Some l)" "loop_inv l" "isInLoopThread tid l"
      "poller_at l lfd = (Some a, Some (CReadEvent, a))"
    using Acceptor_ok [OF assms(1-5)] by blast
  let ?s = "\<lparr> loops = ls(b := l), loop_pool = EventLoopThreadPool b, srv_name = nm,
           connections = [], loop_of = \<lambda>_. b, acceptor_fd = lfd, server_started = False, nextConnId = 1,
           accepted = ns, nonblock = {lfd}, open_socks = {lfd} \<rparr>"
  let ?s1 = "?s\<lparr> loop_pool := setNumThreads n (EventLoopThreadPool b) \<rparr>"
  have s: "TcpServer tid b nm lfd True a ls ns = Inr (Some ?s)" "setThreadNum n ?s = Inr ?s1"
    using l(1) assms(6) by (simp_all add: TcpServer_def setThreadNum_def)
  obtain p calls where p: "pool_start True startLoop cb (setNumThreads n (EventLoopThreadPool b)) = Inr (p, calls)"
    by (simp add: pool_start_def setNumThreads_def EventLoopThreadPool_def Let_def)
  note q = pool_start_ok [OF p assms(6)]
  have b: "baseLoop p = b"
    using p by (auto simp: pool_start_def setNumThreads_def EventLoopThreadPool_def Let_def start_threads_eq)
  let ?s2 = "?s1\<lparr> server_started := True, loop_pool := p \<rparr>"
  have start: "server_start tid startLoop cb ?s1 = Inr (?s2, calls)"
    using l(3) p by (simp add: server_start_def on_base_thread_def base_def setNumThreads_def EventLoopThreadPool_def)
  have "server_inv ?s2"
    using q(1,2) l(2) assms(7) b by (auto simp: server_inv_def base_def INT_MAX_def)
  moreover have "on_base_thread tid ?s2" using l(3) b by (simp add: on_base_thread_def base_def)
  moreover have "TcpServer tid b nm lfd False a ls ns = Inr None"
    using assms(3) by (simp add: TcpServer_def Acceptor_def)
  moreover have "server_start tid startLoop cb ?s2 = Inl Assert_Failed" by (simp add: server_start_def)
  ultimately show ?thesis
    using s start q l(4) b by (auto simp: base_def intro!: exI [of _ ?s] exI [of _ ?s1] exI [of _ ?s2])
qed

section \<open>The life of a connection across the loops\<close>

lemma loop_flags [simp]:
  "conn_ok (l\<lparr> callingPendingFunctor := b \<rparr>) x c ch = conn_ok l x c ch"
  "conn_ok (l\<lparr> pendingFunctor := fs \<rparr>) x c ch = conn_ok l x c ch"
  "names (l\<lparr> callingPendingFunctor := b \<rparr>) = names l" "names (l\<lparr> pendingFunctor := fs \<rparr>) = names l"
  "poller_at (l\<lparr> callingPendingFunctor := b \<rparr>) n = poller_at l n" "poller_at (l\<lparr> pendingFunctor := fs \<rparr>) n = poller_at l n"
  "chan (l\<lparr> callingPendingFunctor := b \<rparr>) a = chan l a" "chan (l\<lparr> pendingFunctor := fs \<rparr>) a = chan l a"
  "isInLoopThread tid (l\<lparr> callingPendingFunctor := b \<rparr>) = isInLoopThread tid l"
  "isInLoopThread tid (l\<lparr> pendingFunctor := fs \<rparr>) = isInLoopThread tid l"
  "loop_inv (l\<lparr> callingPendingFunctor := b \<rparr>) = loop_inv l"
  by (auto simp: conn_ok_def names_def poller_at_def chan_def isInLoopThread_def loop_inv_def)

lemma set_loop_simps [simp]:
  "loops (set_loop L l s) = (loops s)(L := l)" "loop_pool (set_loop L l s) = loop_pool s"
  "connections (set_loop L l s) = connections s" "loop_of (set_loop L l s) = loop_of s"
  "base (set_loop L l s) = base s" "open_socks (set_loop L l s) = open_socks s"
  "nextConnId (set_loop L l s) = nextConnId s" "srv_name (set_loop L l s) = srv_name s"
  "set_loop L l (set_loop L l' s) = set_loop L l s"
  by (simp_all add: set_loop_def base_def)

text \<open>A loop whose queue holds one call makes that call.\<close>

lemma run_pending_one:
  assumes "pendingFunctor (loops s L) = [f]"
    "run_call cbs L f (set_loop L ((loops s L)\<lparr> pendingFunctor := [], callingPendingFunctor := True \<rparr>) s) = Inr s'"
  shows "run_pending cbs L s = Inr (set_loop L ((loops s' L)\<lparr> callingPendingFunctor := False \<rparr>) s')"
  using assms by (simp add: run_pending_def)

lemma benign_connection:
  assumes "benign cb"
  obtains f where "on_connection (inner cb) = Some f" "harmless x f"
  using assms by (auto simp: benign_def split: option.splits)

lemma pending_established:
  assumes "pendingFunctor (loops s L) = [ConnectionEstablished x]" "conn_ok (loops s L) x c ch"
    "state c = CConnecting" "events ch = 0" "\<not> ch_handling ch" "benign (cbs (threadId (loops s L)))"
    "\<not> eventHandling (loops s L)"
  obtains l c' ch' where "run_pending cbs L s = Inr (set_loop L l s)" "conn_ok l x c' ch'" "state c' = CConnected"
    "channel c' = channel c" "fd ch' = fd ch" "status ch' = CAdded" "events ch' = CReadEvent" "\<not> ch_handling ch'"
    "others_kept (loops s L) l (fd ch) (channel c)" "names l = names (loops s L)" "pendingFunctor l = []"
    "threadId l = threadId (loops s L)" "\<not> eventHandling l"
proof -
  let ?l = "(loops s L)\<lparr> pendingFunctor := [], callingPendingFunctor := True \<rparr>"
  let ?tid = "threadId (loops s L)"
  have ok: "conn_ok ?l x c ch" "isInLoopThread ?tid ?l" using assms(2) by (simp_all add: isInLoopThread_def)
  obtain f where f: "on_connection (inner (cbs ?tid)) = Some f" "harmless x f"
    by (rule benign_connection [OF assms(6)])
  obtain k c' ch' where k: "connectionEstablished (inner (cbs ?tid)) ?tid x ?l = Inr k" "conn_ok k x c' ch'"
      "isInLoopThread ?tid k" "state c' = CConnected" "channel c' = channel c" "fd ch' = fd ch"
      "status ch' = CAdded" "events ch' = CReadEvent" "others_kept ?l k (fd ch) (channel c)"
      "eventHandling k = eventHandling ?l" "tied ch'" "owner ch' = x" "ch_handling ch' = ch_handling ch"
    by (rule connectionEstablished_ok [OF ok assms(3,4) f])
  have fr: "same_frame ?l k"
    using connectionEstablished_frame [of "inner (cbs ?tid)" ?l ?tid x] assms(6) k(1) by simp
  have "run_call cbs L (ConnectionEstablished x) (set_loop L ?l s) = Inr (set_loop L k s)"
    using k(1) by (simp add: on_loop_def)
  from run_pending_one [OF assms(1) this]
  have run: "run_pending cbs L s = Inr (set_loop L (k\<lparr> callingPendingFunctor := False \<rparr>) s)" by simp
  have "others_kept (loops s L) k (fd ch) (channel c)" using k(9) by (simp add: others_kept_def)
  then show ?thesis
    using that [OF run, of c' ch'] k(2,4-8,10,13) fr assms(5,7)
    by (simp add: same_frame_def others_kept_def)
qed

lemma closed_by_peer:
  assumes "conn_ok (loops s L) x c ch" "state c = CConnected" "status ch = CAdded"
    "benign (cbs (threadId (loops s L)))" "L \<noteq> base s" "\<not> on_base_thread (threadId (loops s L)) s"
    "\<not> eventHandling (loops s L)" "\<not> ch_handling ch"
  obtains l c' ch' where
    "conn_handleClose cbs L x s = Inr (set_loop (base s)
       ((loops s (base s))\<lparr> pendingFunctor := pendingFunctor (loops s (base s)) @ [RemoveConnectionInLoop x] \<rparr>)
       (set_loop L l s))"
    "conn_ok l x c' ch'" "state c' = CDisconnected" "channel c' = channel c" "fd ch' = fd ch" "status ch' = CDeleted"
    "isNonEvent ch'" "\<not> ch_handling ch'" "others_kept (loops s L) l (fd ch) (channel c)" "names l = names (loops s L)"
    "pendingFunctor l = pendingFunctor (loops s L)" "threadId l = threadId (loops s L)" "\<not> eventHandling l"
proof -
  let ?tid = "threadId (loops s L)"
  have tid: "isInLoopThread ?tid (loops s L)" by (simp add: isInLoopThread_def)
  have open_c: "state c = CConnected \<or> state c = CConnecting" using assms(2) by simp
  obtain f where f: "on_connection (inner (cbs ?tid)) = Some f" "harmless x f"
    by (rule benign_connection [OF assms(4)])
  have g: "on_close (inner (cbs ?tid)) = Some (\<lambda>x. Inr)" "harmless x (\<lambda>x. Inr)"
    by (simp_all add: harmless_def)
  obtain l c' ch' where l: "handleClose (inner (cbs ?tid)) ?tid x (loops s L) = Inr l" "conn_ok l x c' ch'"
      "isInLoopThread ?tid l" "state c' = CDisconnected" "channel c' = channel c" "fd ch' = fd ch"
      "status ch' = CDeleted" "isNonEvent ch'" "others_kept (loops s L) l (fd ch) (channel c)"
      "eventHandling l = eventHandling (loops s L)" "poller_at l (fd ch) = (Some (channel c), None)"
      "ch_handling ch' = ch_handling ch"
    by (rule handleClose_ok [OF assms(1) tid open_c assms(3) f g])
  have fr: "same_frame (loops s L) l"
    using handleClose_frame [of "cbs ?tid" "loops s L" ?tid x] assms(4) l(1) by simp
  have "conn_handleClose cbs L x s = Inr (set_loop (base s)
       ((loops s (base s))\<lparr> pendingFunctor := pendingFunctor (loops s (base s)) @ [RemoveConnectionInLoop x] \<rparr>)
       (set_loop L l s))"
    using assms(5,6) l(1)
    by (simp add: conn_handleClose_def on_loop_def removeConnection_def on_base_thread_def)
  then show ?thesis
    using that l fr assms(7,8) by (simp add: same_frame_def)
qed

lemma pending_removed:
  assumes "pendingFunctor (loops s B) = [RemoveConnectionInLoop x]" "B = base s" "loop_of s x = L" "L \<noteq> B"
    "names (loops s L) x = Some nm" "map_of (connections s) nm \<noteq> None"
  shows "run_pending cbs B s = Inr (set_loop B ((loops s B)\<lparr> pendingFunctor := [], callingPendingFunctor := False \<rparr>)
    (set_loop L ((loops s L)\<lparr> pendingFunctor := pendingFunctor (loops s L) @ [ConnectionDestroyed x] \<rparr>)
      (s\<lparr> connections := erase nm (connections s) \<rparr>)))"
proof -
  let ?s = "set_loop B ((loops s B)\<lparr> pendingFunctor := [], callingPendingFunctor := True \<rparr>) s"
  obtain c where c: "conns (world (loops s L)) x = Some c" "conn_name c = nm"
    using assms(5) by (auto simp: names_def)
  have "run_call cbs B (RemoveConnectionInLoop x) ?s = Inr (set_loop L
      ((loops s L)\<lparr> pendingFunctor := pendingFunctor (loops s L) @ [ConnectionDestroyed x] \<rparr>)
      (?s\<lparr> connections := erase nm (connections s) \<rparr>))"
    using assms c
    by (simp add: removeConnectionInLoop_def on_base_thread_def isInLoopThread_def conn_at_def on_loop_def Let_def)
  from run_pending_one [OF assms(1) this] show ?thesis
    using assms(4) by (simp add: set_loop_def fun_upd_twist)
qed

lemma TcpConnection_dtor_frame:
  "on_Inr (\<lambda>m. pendingFunctor m = pendingFunctor l \<and> threadId m = threadId l) (TcpConnection_dtor tid x l)"
  unfolding TcpConnection_dtor_def channel_delete_def
  by (intro on_Inr_bindE) (auto simp: bindE_eq_Inr)

lemma pending_destroyed:
  assumes "pendingFunctor (loops s L) = [ConnectionDestroyed x]" "conn_ok (loops s L) x c ch"
    "state c = CDisconnected" "status ch = CDeleted" "isNonEvent ch" "\<not> ch_handling ch"
    "\<not> eventHandling (loops s L)" "benign (cbs (threadId (loops s L)))" "x \<notin> snd ` set (connections s)"
  obtains l where "run_pending cbs L s = Inr (set_loop L l s)" "loop_inv l"
    "names l = (names (loops s L))(x := None)" "pendingFunctor l = []" "threadId l = threadId (loops s L)"
    "chan l (channel c) = None" "conns (world l) x = None" "poller_at l (fd ch) = (None, None)"
    "others_kept (loops s L) l (fd ch) (channel c)"
proof -
  let ?l = "(loops s L)\<lparr> pendingFunctor := [], callingPendingFunctor := True \<rparr>" and ?tid = "threadId (loops s L)"
  have ok: "conn_ok ?l x c ch" "isInLoopThread ?tid ?l" using assms(2) by (simp_all add: isInLoopThread_def)
  have st: "state c \<noteq> CConnected" "status ch \<noteq> CNew" "\<not> eventHandling ?l"
    using assms(3,4,7) by (simp_all add: CDeleted_def CNew_def)
  obtain k where k: "connectionDestroyed (inner (cbs ?tid)) ?tid x ?l = Inr k" "loop_inv k" "isInLoopThread ?tid k"
      "world k = world ?l" "others_kept ?l k (fd ch) (channel c)" "poller_at k (fd ch) = (None, None)"
      "chan k (channel c) = Some (ch\<lparr> addToLoop := False, status := CNew \<rparr>)"
    by (rule connectionDestroyed_ok [OF ok st(1,2) assms(5) st(3)])
  let ?ch = "ch\<lparr> addToLoop := False, status := CNew \<rparr>"
  have k': "conns (world k) x = Some c" "\<not> ch_handling ?ch" "\<not> addToLoop ?ch" "status ?ch = CNew"
    using assms(2,6) k(4) by (simp_all add: conn_ok_def)
  obtain m where m: "TcpConnection_dtor ?tid x k = Inr m" "loop_inv m"
      "conns (world m) = (conns (world k))(x := None)" "chan m (channel c) = None"
      "\<forall>b. b \<noteq> channel c \<longrightarrow> chan m b = chan k b" "\<forall>n. poller_at m n = poller_at k n"
    by (rule TcpConnection_dtor_ok [OF k(2,3) k'(1) assms(3) k(7) k'(2-4)])
  have fr: "same_frame ?l k"
    using connectionDestroyed_frame [of "inner (cbs ?tid)" ?l ?tid x] assms(8) k(1) by simp
  have pm: "pendingFunctor m = pendingFunctor k" "threadId m = threadId k"
    using TcpConnection_dtor_frame [THEN on_InrD, OF m(1)] by simp_all
  have "run_call cbs L (ConnectionDestroyed x) (set_loop L ?l s) = Inr (set_loop L m s)"
    using k(1,3) m(1) assms(9) by (simp add: on_loop_def release_def)
  from run_pending_one [OF assms(1) this]
  have run: "run_pending cbs L s = Inr (set_loop L (m\<lparr> callingPendingFunctor := False \<rparr>) s)" by simp
  show ?thesis
  proof (rule that [OF run])
    have "names m = (names k)(x := None)" using m(3) by (simp add: names_def fun_eq_iff)
    then show "names (m\<lparr> callingPendingFunctor := False \<rparr>) = (names (loops s L))(x := None)"
      using fr by (simp add: same_frame_def)
    show "others_kept (loops s L) (m\<lparr> callingPendingFunctor := False \<rparr>) (fd ch) (channel c)"
      using k(5) m(5,6) by (simp add: others_kept_def)
  qed (use m k(6) fr pm in \<open>simp_all add: same_frame_def\<close>)
qed

lemma erase_put:
  assumes "keys_sorted m" "map_of m k = None"
  shows "erase k (put k v m) = m"
proof (rule keys_sorted_canonical)
  show "keys_sorted (erase k (put k v m))" using assms(1) by (simp add: erase_sorted put_sorted)
  show "map_of (erase k (put k v m)) = map_of m"
    using assms by (auto simp: map_of_erase put_sorted map_of_put)
qed (fact assms(1))

lemma new_name_free:
  assumes "server_inv s"
  shows "map_of (connections s) (connName s (nextConnId s)) = None"
proof (rule ccontr)
  assume "map_of (connections s) (connName s (nextConnId s)) \<noteq> None"
  then obtain i where "0 < i" "i < nextConnId s" "connName s (nextConnId s) = connName s i"
    using assms unfolding server_inv_def by blast
  then show False using connName_inj [of s "nextConnId s" i] by simp
qed

text \<open>
  \<open>serving s\<^sub>0 s L x nm n a\<close>: since \<open>s\<^sub>0\<close> the connection \<open>x\<close> on socket \<open>n\<close> with the channel \<open>a\<close> was
  accepted under the name \<open>nm\<close> and established in loop \<open>L\<close>, and nothing else has changed.
\<close>

definition serving :: "tcp_server \<Rightarrow> tcp_server \<Rightarrow> nat \<Rightarrow> nat \<Rightarrow> string \<Rightarrow> int \<Rightarrow> nat \<Rightarrow> bool" where
  "serving s0 s L x nm n a \<longleftrightarrow>
     (\<forall>K. K \<noteq> L \<longrightarrow> loops s K = loops s0 K) \<and> connections s = put nm x (connections s0) \<and> base s = base s0 \<and>
     loop_of s x = L \<and> n \<in> open_socks s \<and> pendingFunctor (loops s L) = [] \<and>
     threadId (loops s L) = threadId (loops s0 L) \<and> \<not> eventHandling (loops s L) \<and>
     names (loops s L) = (names (loops s0 L))(x \<mapsto> nm) \<and> others_kept (loops s0 L) (loops s L) n a \<and>
     (\<exists>c ch. conn_ok (loops s L) x c ch \<and> state c = CConnected \<and> channel c = a \<and> fd ch = n \<and>
        status ch = CAdded \<and> events ch = CReadEvent \<and> \<not> ch_handling ch)"

lemma connection_opens:
  assumes "server_inv s" "on_base_thread tid s" "nextConnId s < INT_MAX" "\<forall>t. benign (cbs t)"
    "accepted s = n # ns" "n > 0" "L = next_loop s" "fresh_for s L n x a" "threadId (loops s L) \<noteq> tid"
    "\<not> eventHandling (loops s L)" "pendingFunctor (loops s L) = []"
  shows "\<exists>s1 s2. acceptor_handleRead cbs tid x a rb wb s = Inr s1 \<and> run_pending cbs L s1 = Inr s2 \<and>
    serving s s2 L x (connName s (nextConnId s)) n a \<and>
    loops s1 L = (TcpConnection x a (connName s (nextConnId s)) n rb wb (loops s L))\<lparr> pendingFunctor := [ConnectionEstablished x] \<rparr>"
proof -
  let ?nm = "connName s (nextConnId s)" and ?B = "base s"
  let ?s = "s\<lparr> accepted := ns, open_socks := insert n (open_socks s), nonblock := insert n (nonblock s) \<rparr>"
  have same: "connName ?s = connName s" "next_loop ?s = L" "base ?s = ?B"
    by (simp_all add: connName_def next_loop_def base_def fun_eq_iff assms(7))
  have inv: "server_inv ?s"
    using assms(1) unfolding server_inv_def by (simp add: same base_def connName_def)
  have fr: "fresh_for ?s (next_loop ?s) n x a" using assms(8) by (simp add: same(2)) (simp add: fresh_for_def)
  obtain p l1 c1 ch1 where new: "newConnection cbs tid n x a rb wb ?s = Inr (registered ?s p l1 x)"
      "baseLoop p = ?B" "threadId l1 = threadId (loops s L)" "conn_ok l1 x c1 ch1" "channel c1 = a" "fd ch1 = n"
      "others_kept (loops s L) l1 n a" "names l1 = (names (loops s L))(x \<mapsto> ?nm)"
      "pendingFunctor l1 = [ConnectionEstablished x]" "state c1 = CConnecting"
      "l1 = (TcpConnection x a ?nm n rb wb (loops s L))\<lparr> pendingFunctor := [ConnectionEstablished x] \<rparr>"
    using newConnection_ok [OF inv, of tid cbs n x a rb wb] assms(2-4,9,11) fr
    unfolding same by (auto simp: on_base_thread_def base_def isInLoopThread_def)
  define s1 where "s1 = registered ?s p l1 x"
  have s1: "loops s1 = (loops s)(L := l1)" "connections s1 = put ?nm x (connections s)" "base s1 = ?B"
      "loop_of s1 x = L" "n \<in> open_socks s1"
    using new(2) by (simp_all add: s1_def registered_def same base_def connName_def)
  have run1: "acceptor_handleRead cbs tid x a rb wb s = Inr s1"
    using assms(2,5,6) new(1) by (simp add: acceptor_handleRead_def s1_def)
  have new_ch: "events ch1 = 0" "\<not> ch_handling ch1" "\<not> eventHandling l1"
    using new(4,5) assms(10)
    by (auto simp: new(11) conn_ok_def chan_def TcpConnection_def Let_def Channel_def setter_defs)
  obtain l2 c2 ch2 where e: "run_pending cbs L s1 = Inr (set_loop L l2 s1)" "conn_ok l2 x c2 ch2"
      "state c2 = CConnected" "channel c2 = a" "fd ch2 = n" "status ch2 = CAdded" "events ch2 = CReadEvent"
      "\<not> ch_handling ch2" "others_kept l1 l2 n a" "names l2 = names l1" "pendingFunctor l2 = []"
      "threadId l2 = threadId l1" "\<not> eventHandling l2"
    by (rule pending_established [of s1 L x c1 ch1 cbs]) (use new(4-6,9,10) new_ch assms(4) s1(1) in auto)
  have "others_kept (loops s L) l2 n a" using others_kept_trans [OF new(7) e(9)] .
  then have "serving s (set_loop L l2 s1) L x ?nm n a"
    using e(2-8,10-13) new(3,8) s1 by (simp add: serving_def) blast
  then show ?thesis using run1 e(1) s1(1) new(11) by (intro exI [of _ s1] exI [of _ "set_loop L l2 s1"]) simp
qed

text \<open>
  A connection that its loop has closed: the base loop takes it out of the map, and its loop destructs it.
\<close>

lemma connection_removed:
  assumes "server_inv s" "nm = connName s (nextConnId s)" "\<forall>t. benign (cbs t)" "L \<noteq> base s"
    "names (loops s L) x = None" "x \<notin> snd ` set (connections s)"
    "pendingFunctor (loops s3 (base s)) = [RemoveConnectionInLoop x]" "connections s3 = put nm x (connections s)"
    "base s3 = base s" "loop_of s3 x = L" "n \<in> open_socks s3" "conn_ok (loops s3 L) x c ch" "state c = CDisconnected"
    "channel c = a" "fd ch = n" "status ch = CDeleted" "isNonEvent ch" "\<not> ch_handling ch"
    "others_kept (loops s L) (loops s3 L) n a" "names (loops s3 L) = (names (loops s L))(x \<mapsto> nm)"
    "pendingFunctor (loops s3 L) = []" "\<not> eventHandling (loops s3 L)"
  shows "\<exists>s4 s5. run_pending cbs (base s) s3 = Inr s4 \<and> run_pending cbs L s4 = Inr s5 \<and>
    connections s5 = connections s \<and> conns (world (loops s5 L)) x = None \<and>
    chan (loops s5 L) a = None \<and> poller_at (loops s5 L) n = (None, None) \<and>
    others_kept (loops s L) (loops s5 L) n a \<and> names (loops s5 L) = names (loops s L) \<and>
    pendingFunctor (loops s5 L) = [] \<and> pendingFunctor (loops s5 (base s)) = [] \<and> n \<in> open_socks s5"
proof -
  let ?B = "base s" and ?l3 = "loops s3 L"
  have sorted: "keys_sorted (connections s)" using assms(1) by (simp add: server_inv_def)
  have name3: "names (loops s3 L) x = Some nm" "map_of (connections s3) nm \<noteq> None"
    by (simp_all add: assms(8,20) map_of_put [OF sorted])
  define s4 where "s4 = set_loop ?B ((loops s3 ?B)\<lparr> pendingFunctor := [], callingPendingFunctor := False \<rparr>)
    (set_loop L (?l3\<lparr> pendingFunctor := [ConnectionDestroyed x] \<rparr>) (s3\<lparr> connections := connections s \<rparr>))"
  have run4: "run_pending cbs ?B s3 = Inr s4"
    using pending_removed [OF assms(7) _ assms(10,4) name3]
      erase_put [OF sorted new_name_free [OF assms(1)]] assms(21)
    by (simp add: s4_def assms(2,8,9))
  have s4: "loops s4 L = ?l3\<lparr> pendingFunctor := [ConnectionDestroyed x] \<rparr>" "connections s4 = connections s"
      "pendingFunctor (loops s4 ?B) = []" "n \<in> open_socks s4"
    using assms(4,11) by (simp_all add: s4_def set_loop_def)
  obtain l5 where d: "run_pending cbs L s4 = Inr (set_loop L l5 s4)"
      "names l5 = (names (loops s4 L))(x := None)" "pendingFunctor l5 = []"
      "chan l5 (channel c) = None" "conns (world l5) x = None" "poller_at l5 (fd ch) = (None, None)"
      "others_kept (loops s4 L) l5 (fd ch) (channel c)"
    by (rule pending_destroyed [of s4 L x c ch cbs]) (use assms in \<open>simp_all add: s4\<close>)
  have "names l5 = names (loops s L)"
    using d(2) assms(5,20) by (auto simp: s4(1) fun_eq_iff)
  moreover have "others_kept ?l3 l5 n a" using d(7) unfolding assms(14,15) by (simp add: s4(1) others_kept_def)
  then have "others_kept (loops s L) l5 n a" using others_kept_trans assms(19) by blast
  ultimately show ?thesis
    using run4 d assms(4,14,15) s4 by (intro exI [of _ s4] exI [of _ "set_loop L l5 s4"]) simp
qed

lemma connection_ends:
  assumes "server_inv s" "serving s s2 L x nm n a" "nm = connName s (nextConnId s)" "\<forall>t. benign (cbs t)"
    "L \<noteq> base s" "threadId (loops s (base s)) \<noteq> threadId (loops s L)" "names (loops s L) x = None"
    "x \<notin> snd ` set (connections s)" "pendingFunctor (loops s (base s)) = []"
  shows "\<exists>s3 s4 s5. conn_handleClose cbs L x s2 = Inr s3 \<and> run_pending cbs (base s) s3 = Inr s4 \<and>
    run_pending cbs L s4 = Inr s5 \<and> connections s5 = connections s \<and> conns (world (loops s5 L)) x = None \<and>
    chan (loops s5 L) a = None \<and> poller_at (loops s5 L) n = (None, None) \<and>
    others_kept (loops s L) (loops s5 L) n a \<and> names (loops s5 L) = names (loops s L) \<and>
    pendingFunctor (loops s5 L) = [] \<and> pendingFunctor (loops s5 (base s)) = [] \<and> n \<in> open_socks s5"
proof -
  let ?B = "base s"
  have s2: "loops s2 ?B = loops s ?B" "connections s2 = put nm x (connections s)" "base s2 = ?B" "loop_of s2 x = L"
    "n \<in> open_socks s2" "pendingFunctor (loops s2 L) = []" "threadId (loops s2 L) = threadId (loops s L)"
    "\<not> eventHandling (loops s2 L)" "names (loops s2 L) = (names (loops s L))(x \<mapsto> nm)"
    "others_kept (loops s L) (loops s2 L) n a"
    using assms(2,5) by (auto simp: serving_def)
  obtain c2 ch2 where e: "conn_ok (loops s2 L) x c2 ch2" "state c2 = CConnected" "channel c2 = a" "fd ch2 = n"
      "status ch2 = CAdded" "\<not> ch_handling ch2"
    using assms(2) by (auto simp: serving_def)
  have nbase: "\<not> on_base_thread (threadId (loops s2 L)) s2"
    using assms(6) by (simp add: on_base_thread_def isInLoopThread_def s2)
  obtain l3 c3 ch3 where h: "conn_handleClose cbs L x s2 = Inr (set_loop ?B
        ((loops s2 ?B)\<lparr> pendingFunctor := pendingFunctor (loops s2 ?B) @ [RemoveConnectionInLoop x] \<rparr>) (set_loop L l3 s2))"
      "conn_ok l3 x c3 ch3" "state c3 = CDisconnected" "channel c3 = a" "fd ch3 = n" "status ch3 = CDeleted"
      "isNonEvent ch3" "\<not> ch_handling ch3" "others_kept (loops s2 L) l3 n a" "names l3 = names (loops s2 L)"
      "pendingFunctor l3 = []" "threadId l3 = threadId (loops s2 L)" "\<not> eventHandling l3"
    by (rule closed_by_peer [of s2 L x c2 ch2 cbs]) (use e nbase assms(4,5) s2 in auto)
  define s3 where "s3 = set_loop ?B ((loops s ?B)\<lparr> pendingFunctor := [RemoveConnectionInLoop x] \<rparr>) (set_loop L l3 s2)"
  have s3: "pendingFunctor (loops s3 ?B) = [RemoveConnectionInLoop x]" "loops s3 L = l3"
      "connections s3 = put nm x (connections s)" "?B = base s3" "loop_of s3 x = L"
    using assms(5) s2 by (simp_all add: s3_def)
  have run3: "conn_handleClose cbs L x s2 = Inr s3" using h(1) assms(9) s2 by (simp add: s3_def)
  have "others_kept (loops s L) l3 n a" using others_kept_trans [OF s2(10) h(9)] .
  moreover have "names l3 = (names (loops s L))(x \<mapsto> nm)" using h(10) s2(9) by simp
  moreover have "base s3 = ?B" "n \<in> open_socks s3" using s2(3,5) by (simp_all add: s3_def set_loop_def base_def)
  ultimately show ?thesis
    using connection_removed [OF assms(1,3,4,5,7,8) s3(1,3), where n = n and c = c3 and ch = ch3 and a = a] s3(2,5) h run3 by auto
qed

text \<open>The peer has closed: \<open>read\<close> finds the end of the stream.\<close>

definition at_end :: "int \<Rightarrow> loop_state \<Rightarrow> loop_state" where
  "at_end n l = l\<lparr> world := (world l)\<lparr> reads := (reads (world l))(n := [Received []]) \<rparr> \<rparr>"

lemma at_end_is_ignored:
  assumes "conn_ok l x c ch" "isInLoopThread tid l"
  shows "\<exists>l'. handleRead cb tid x (at_end (fd ch) l) = Inr l' \<and> only_buffered x (fd ch) (at_end (fd ch) l) l'"
proof -
  have "conn_ok (at_end (fd ch) l) x c ch" "isInLoopThread tid (at_end (fd ch) l)"
    using assms by (simp_all add: conn_ok_def at_end_def chan_def isInLoopThread_def)
  moreover have "read_loop b i [Received []] = (Stopped, b, i, [Received []])" for b i by (simp add: read_loop.simps)
  then have "read_loop (readBuf c) (conn_readIdx c) (reads (world (at_end (fd ch) l)) (fd ch)) =
      (Stopped, readBuf c, conn_readIdx c, [Received []])"
    by (simp add: at_end_def)
  ultimately show ?thesis using not_drained_buffers [of "at_end (fd ch) l" x c ch tid] by simp
qed

text \<open>
  C6: the life of a connection in a server with threads. The acceptor registers it and queues it at
  an io loop, whose thread establishes it and watches its socket for input. When its close callback
  runs, which is for an event with \<open>EPOLLHUP\<close>, the io loop queues its removal at the base loop, which
  takes it out of the map and queues its destruction at the io loop, which destructs it. No assertion
  fails on the way, and afterwards map, loops and queues are as if the connection had never been; but
  the socket is still open, for nothing closes it. A peer that just closes its side does not cause any
  of this: at the end of the stream \<open>handleRead\<close> touches nothing but the buffer, so the connection stays
  registered, watched and in the map.
\<close>

theorem server_life_cycle:
  assumes "server_inv s" "on_base_thread tid s" "nextConnId s < INT_MAX" "\<forall>t. benign (cbs t)"
    "accepted s = n # ns" "n > 0" "L = next_loop s" "fresh_for s L n x a" "threadId (loops s L) \<noteq> tid"
    "\<not> eventHandling (loops s L)" "pendingFunctor (loops s L) = []" "pendingFunctor (loops s (base s)) = []"
  shows "\<exists>s1 s2 s3 s4 s5 c. acceptor_handleRead cbs tid x a rb wb s = Inr s1 \<and> run_pending cbs L s1 = Inr s2 \<and>
    map_of (connections s2) (connName s (nextConnId s)) = Some x \<and> loop_of s2 x = L \<and>
    conns (world (loops s2 L)) x = Some c \<and> state c = CConnected \<and>
    poller_at (loops s2 L) n = (Some a, Some (CReadEvent, a)) \<and>
    (\<exists>l. handleRead (cbs (threadId (loops s L))) (threadId (loops s L)) x (at_end n (loops s2 L)) = Inr l \<and>
      only_buffered x n (at_end n (loops s2 L)) l) \<and>
    conn_handleClose cbs L x s2 = Inr s3 \<and> run_pending cbs (base s) s3 = Inr s4 \<and>
    run_pending cbs L s4 = Inr s5 \<and> connections s5 = connections s \<and> conns (world (loops s5 L)) x = None \<and>
    chan (loops s5 L) a = None \<and> poller_at (loops s5 L) n = (None, None) \<and>
    (\<forall>m. m \<noteq> n \<longrightarrow> poller_at (loops s5 L) m = poller_at (loops s L) m) \<and>
    names (loops s5 L) = names (loops s L) \<and>
    pendingFunctor (loops s5 L) = [] \<and> pendingFunctor (loops s5 (base s)) = [] \<and> n \<in> open_socks s5"
proof -
  let ?nm = "connName s (nextConnId s)"
  obtain s1 s2 where o: "acceptor_handleRead cbs tid x a rb wb s = Inr s1" "run_pending cbs L s1 = Inr s2"
      "serving s s2 L x ?nm n a"
    using connection_opens [OF assms(1-11)] by blast
  then obtain c ch where c: "conn_ok (loops s2 L) x c ch" "state c = CConnected" "channel c = a" "fd ch = n"
      "status ch = CAdded" "events ch = CReadEvent"
    by (auto simp: serving_def)
  have tid: "threadId (loops s (base s)) = tid" using assms(2) by (simp add: on_base_thread_def isInLoopThread_def)
  then have "L \<noteq> base s" "threadId (loops s (base s)) \<noteq> threadId (loops s L)" using assms(9) by auto
  from connection_ends [OF assms(1) o(3) refl assms(4) this] obtain s3 s4 s5 where
    s: "conn_handleClose cbs L x s2 = Inr s3" "run_pending cbs (base s) s3 = Inr s4" "run_pending cbs L s4 = Inr s5"
      "connections s5 = connections s" "conns (world (loops s5 L)) x = None" "chan (loops s5 L) a = None"
      "poller_at (loops s5 L) n = (None, None)" "others_kept (loops s L) (loops s5 L) n a"
      "names (loops s5 L) = names (loops s L)" "pendingFunctor (loops s5 L) = []"
      "pendingFunctor (loops s5 (base s)) = []" "n \<in> open_socks s5"
    using assms(8,12) by (auto simp: fresh_for_def)
  have "poller_at (loops s2 L) n = (Some a, Some (CReadEvent, a))"
    using watched_for_input [OF c(1,5,6)] c(3,4) by simp
  moreover have "map_of (connections s2) ?nm = Some x" "loop_of s2 x = L" "conns (world (loops s2 L)) x = Some c"
    using o(3) c(1) assms(1) by (simp_all add: serving_def server_inv_def map_of_put conn_ok_def)
  moreover have "isInLoopThread (threadId (loops s L)) (loops s2 L)" using o(3) by (simp add: serving_def isInLoopThread_def)
  then have "\<exists>l. handleRead (cbs (threadId (loops s L))) (threadId (loops s L)) x (at_end n (loops s2 L)) = Inr l \<and>
      only_buffered x n (at_end n (loops s2 L)) l"
    using at_end_is_ignored [OF c(1)] c(4) by simp
  moreover have "\<forall>m. m \<noteq> n \<longrightarrow> poller_at (loops s5 L) m = poller_at (loops s L) m"
    using s(8) by (simp add: others_kept_def)
  ultimately show ?thesis
    using o(1,2) s c(2)
    by (intro exI [of _ s1] exI [of _ s2] exI [of _ s3] exI [of _ s4] exI [of _ s5] exI [of _ c]) simp
qed

section \<open>A server of HTTP connections\<close>

text \<open>
  The constructor of HttpServer: a TcpServer with the HTTP callbacks for connections and messages;
  \<open>start\<close> is the one of the TcpServer. The callbacks run in the thread of the connection's loop.
\<close>

definition HttpServer_ctor :: "(http_request \<Rightarrow> http_response \<Rightarrow> http_response) \<Rightarrow> nat \<Rightarrow> nat \<Rightarrow> string \<Rightarrow> int \<Rightarrow>
    bool \<Rightarrow> nat \<Rightarrow> (nat \<Rightarrow> loop_state) \<Rightarrow> int list \<Rightarrow> (tcp_server option \<times> (nat \<Rightarrow> callbacks)) res" where
  "HttpServer_ctor http tid b nm lfd bound a ls ns =
     bindE (TcpServer tid b nm lfd bound a ls ns) (\<lambda>s. Inr (s, http_callbacks http))"

lemma http_benign: "benign (http_callbacks http tid)"
proof -
  have "harmless x (onConnection None 0)" for x
    by (auto simp: harmless_def onConnection_def isConnected_def conn_at_def setContext_def modify_conn_def)
  moreover have "on_Inr (same_frame l) (onConnection None 0 x l)" for x l
    unfolding onConnection_def setContext_def modify_conn_def
    by (intro on_Inr_bindE on_Inr_if) (auto simp: same_frame_def names_def split: option.splits)
  ultimately show ?thesis by (simp add: benign_def http_callbacks_def)
qed

text \<open>Loop 0 is the base loop of thread 1, the loops 5 and 6 belong to the threads 6 and 7.\<close>

definition demo_world :: tcp_world where
  "demo_world = \<lparr> conns = \<lambda>_. None, reads = \<lambda>_. [], writes = \<lambda>_. [], sent = \<lambda>_. [], wr_shut = \<lambda>_. False \<rparr>"

definition empty_loops :: "nat \<Rightarrow> loop_state" where
  "empty_loops L = (bare_loop (EpollPoller (\<lambda>_. None)) demo_world)\<lparr> threadId := L + 1 \<rparr>"

lemma empty_loops_ok:
  "loop_inv (empty_loops L)" "threadId (empty_loops L) = L + 1" "chan (empty_loops L) a = None"
  "names (empty_loops L) = (\<lambda>_. None)" "\<not> eventHandling (empty_loops L)" "pendingFunctor (empty_loops L) = []"
proof -
  show "loop_inv (empty_loops L)"
    by (rule new_loop_inv [where m = "\<lambda>_. None"]) (simp_all add: empty_loops_def bare_loop_def)
qed (simp_all add: empty_loops_def bare_loop_def chan_def EpollPoller_def names_def demo_world_def fun_eq_iff)

lemma server_starts_witness:
  "\<exists>s s1 s2. TcpServer 1 0 ''holy'' 3 True 9 empty_loops [] = Inr (Some s) \<and> setThreadNum 2 s = Inr s1 \<and>
    server_start 1 (\<lambda>i. i + 5) True s1 = Inr (s2, [5, 6]) \<and> server_inv s2 \<and>
    poller_at (loops s2 0) 3 = (Some 9, Some (CReadEvent, 9))"
proof -
  have u: "[0..<2] = [0, 1 :: nat]" by (simp add: upt_rec)
  show ?thesis
    using server_starts [of empty_loops 0 1 3 9 2 "\<lambda>i. i + 5" "''holy''" "[]" True]
    by (auto simp: empty_loops_ok isInLoopThread_def u)
qed

definition demo_server :: "int list \<Rightarrow> tcp_server" where
  "demo_server ns = \<lparr> loops = empty_loops,
     loop_pool = \<lparr> baseLoop = 0, next_idx = 0, numThreads = 2, pool_started = True, pool_loops = [5, 6] \<rparr>,
     srv_name = ''holy'', connections = [], loop_of = \<lambda>_. 0, acceptor_fd = 3, server_started = True,
     nextConnId = 1, accepted = ns, nonblock = {3}, open_socks = {3} \<rparr>"

lemma demo_server_ok:
  "server_inv (demo_server ns)" "on_base_thread 1 (demo_server ns)"
  by (simp_all add: server_inv_def demo_server_def pool_ok_def ring_def base_def empty_loops_ok INT_MAX_def
      on_base_thread_def isInLoopThread_def)

lemma demo_server_parts:
  "loops (demo_server ns) = empty_loops" "ring (loop_pool (demo_server ns)) = [5, 6]"
  "next_idx (loop_pool (demo_server ns)) = 0" "nextConnId (demo_server ns) = 1"
  "accepted (demo_server ns) = ns" "connections (demo_server ns) = []"
  by (simp_all add: demo_server_def ring_def)

theorem connections_spread_witness:
  "\<exists>s'. accept_all (http_callbacks (\<lambda>q r. r)) 1 [(20, 30, [], []), (21, 31, [], []), (22, 32, [], [])]
      (demo_server [7, 8, 10]) = Inr s' \<and> loop_of s' 20 = 5 \<and> loop_of s' 21 = 6 \<and> loop_of s' 22 = 5 \<and>
    pendingFunctor (loops s' 5) = [ConnectionEstablished 20, ConnectionEstablished 22]"
proof -
  let ?ms = "[(20, 30, [], []), (21, 31, [], []), (22, 32, [], [])] :: blocks list"
  have "fresh_all (demo_server [7, 8, 10]) (accepted (demo_server [7, 8, 10])) ?ms"
    by (simp add: fresh_all_def demo_server_parts empty_loops_ok)
  moreover have "nextConnId (demo_server [7, 8, 10]) + int (length ?ms) \<le> INT_MAX"
    by (simp add: demo_server_parts INT_MAX_def)
  ultimately obtain s' where s': "accept_all (http_callbacks (\<lambda>q r. r)) 1 ?ms (demo_server [7, 8, 10]) = Inr s'"
    "\<forall>i < length ?ms. loop_of s' (fst (?ms ! i)) = [5, 6] ! ((0 + i) mod length [5, 6 :: nat])"
    "\<forall>L. \<not> isInLoopThread 1 (empty_loops L) \<longrightarrow>
       pendingFunctor (loops s' L) = pendingFunctor (empty_loops L) @ handed [5, 6] 0 (map fst ?ms) L"
    using connections_spread [OF demo_server_ok, of "http_callbacks (\<lambda>q r. r)" "[7, 8, 10]" ?ms] http_benign
    unfolding demo_server_parts by blast
  have "loop_of s' 20 = 5" "loop_of s' 21 = 6" "loop_of s' 22 = 5"
    using s'(2) [rule_format, of 0] s'(2) [rule_format, of 1] s'(2) [rule_format, of 2] by simp_all
  then show ?thesis
    using s'(1) s'(3) [rule_format, of 5] by (simp add: isInLoopThread_def empty_loops_ok)
qed

theorem server_life_cycle_witness:
  "\<exists>s1 s2 s3 s4 s5. acceptor_handleRead (http_callbacks (\<lambda>q r. r)) 1 20 30 [] [] (demo_server [7]) = Inr s1 \<and>
    run_pending (http_callbacks (\<lambda>q r. r)) 5 s1 = Inr s2 \<and>
    conn_handleClose (http_callbacks (\<lambda>q r. r)) 5 20 s2 = Inr s3 \<and>
    run_pending (http_callbacks (\<lambda>q r. r)) 0 s3 = Inr s4 \<and>
    run_pending (http_callbacks (\<lambda>q r. r)) 5 s4 = Inr s5 \<and> connections s5 = [] \<and> 7 \<in> open_socks s5"
proof -
  have b: "base (demo_server [7]) = 0" "next_loop (demo_server [7]) = 5"
    by (simp_all add: base_def demo_server_def next_loop_def ring_def)
  have "fresh_for (demo_server [7]) 5 7 20 30"
    by (simp add: fresh_for_def demo_server_def empty_loops_ok)
  then show ?thesis
    using server_life_cycle [OF demo_server_ok, of "[7]" "http_callbacks (\<lambda>q r. r)" 7 "[]" 5 20 30 "[]" "[]"]
    unfolding b by (auto simp: http_benign demo_server_def empty_loops_ok INT_MAX_def)
qed

end
