(* ===== verification/ConfigUtil.thy ===== *)
theory ConfigUtil
  imports CString StdMap
begin

text \<open>
  src/ConfigUtil.h and src/ConfigUtil.cc: \<open>get_config\<close>, which looks one key up in a configuration
  file, and \<open>ConfigFile\<close>, which reads a whole file into a map. Both read the file line by line into
  one buffer of 255 characters, which starts with whatever the stack holds and keeps what longer lines
  have left behind the shorter ones.
\<close>

section \<open>Reading lines\<close>

text \<open>\<open>fgets(line, n, fd)\<close> on the rest of the file: the characters it stores, and what is left.\<close>

definition fgets :: "nat \<Rightarrow> string \<Rightarrow> string \<times> string" where
  "fgets n f = (let l = take (n - 1) f; k = (if LF \<in> set l then Suc (length (before LF l)) else length l)
     in (take k f, drop k f))"

definition store_line :: "string \<Rightarrow> string \<Rightarrow> string" where
  "store_line b l = l @ NUL # drop (Suc (length l)) b"

text \<open>The program passes 255 for \<open>n\<close>.\<close>

definition LINE_SIZE :: nat where
  "LINE_SIZE = 255"

lemma fgets_shorter: "f \<noteq> [] \<Longrightarrow> length (snd (fgets LINE_SIZE f)) < length f"
  by (cases f) (simp_all add: fgets_def LINE_SIZE_def Let_def)

lemma length_before: "c \<in> set l \<Longrightarrow> length (before c l) < length l"
  using from_char_nonempty [of c l] arg_cong [OF before_from_char [of c l], of length]
  by (cases "from_char c l") auto

lemma fgets_length: "length (fst (fgets LINE_SIZE f)) < LINE_SIZE"
  using length_before [of LF "take 254 f"]
  by (auto simp: fgets_def LINE_SIZE_def Let_def min_def)

text \<open>The lines one after the other.\<close>

function file_lines :: "string \<Rightarrow> string list" where
  "file_lines f = (if f = [] then [] else
     let (l, r) = fgets LINE_SIZE f in l # file_lines r)"
  by pat_completeness auto

termination
  by (relation "measure length") (simp_all, metis fgets_shorter snd_conv)

declare file_lines.simps [simp del]

section \<open>get_config\<close>

definition skip_blank :: "string \<Rightarrow> string res" where
  "skip_blank m = (case dropWhile isblank m of [] \<Rightarrow> Inl Out_Of_Bounds | s \<Rightarrow> Inr s)"

text \<open>\<open>while (!isblank( *ite)) ++ite\<close> and \<open>while (!isblank( *ite) && *ite != 0) ++ite\<close>: how far they get.\<close>

definition until_blank :: "string \<Rightarrow> nat res" where
  "until_blank m = (if dropWhile (\<lambda>c. \<not> isblank c) m = [] then Inl Out_Of_Bounds
     else Inr (length (takeWhile (\<lambda>c. \<not> isblank c) m)))"

definition until_blank_or_end :: "string \<Rightarrow> nat res" where
  "until_blank_or_end m = (if dropWhile (\<lambda>c. \<not> isblank c \<and> c \<noteq> NUL) m = [] then Inl Out_Of_Bounds
     else Inr (length (takeWhile (\<lambda>c. \<not> isblank c \<and> c \<noteq> NUL) m)))"

text \<open>
  \<open>strncpy(dst, s, n); dst[n] = 0\<close> for a \<open>dst\<close> of \<open>cap\<close> characters: the C string it holds then.
\<close>

definition copy_token :: "string \<Rightarrow> nat \<Rightarrow> nat \<Rightarrow> string res" where
  "copy_token s n cap = bindE (strncpy_from s n) (\<lambda>t. if n < cap then Inr t else Inl Out_Of_Bounds)"

text \<open>One pass of the loop over the buffer \<open>line\<close>: \<open>None\<close> is \<open>continue\<close>, \<open>Some\<close> the value found.\<close>

definition config_line :: "string \<Rightarrow> string \<Rightarrow> nat \<Rightarrow> string option res" where
  "config_line line key cap =
     bindE (find_in (\<lambda>c. c = CHR ''='') line) (\<lambda>equal.
     bindE (skip_blank line) (\<lambda>fs.
       if hd fs = CHR ''#'' then Inr None
       else bindE (until_blank fs) (\<lambda>n.
            bindE (copy_token fs n LINE_SIZE) (\<lambda>left.
              if left \<noteq> key then Inr None
              else case equal of
                None \<Rightarrow> Inl Null_Deref
              | Some i \<Rightarrow>
                  bindE (skip_blank (drop (i + 1) line)) (\<lambda>bs.
                  bindE (until_blank_or_end bs) (\<lambda>n.
                  bindE (copy_token bs n cap) (\<lambda>v. Inr (Some v)))))))) "

function config_loop :: "string \<Rightarrow> string \<Rightarrow> string \<Rightarrow> nat \<Rightarrow> string option res" where
  "config_loop line f key cap =
     (if f = [] then Inr None
      else let (l, rest) = fgets LINE_SIZE f; line = store_line line l
        in bindE (config_line line key cap) (\<lambda>r.
             case r of None \<Rightarrow> config_loop line rest key cap | Some v \<Rightarrow> Inr (Some v)))"
  by pat_completeness auto

termination
  by (relation "measure (\<lambda>(line, f, key, cap). length f)") (simp_all, metis fgets_shorter snd_conv)

declare config_loop.simps [simp del]

text \<open>
  \<open>fopen\<close> gives the contents of the file at a path, \<open>junk\<close> is what the line buffer holds at first,
  \<open>val\<close> the C string in the caller's buffer of \<open>cap\<close> characters. The result is \<open>find\<close> and the
  string in that buffer; \<open>None\<close> stands for \<open>exit(1)\<close>.
\<close>

definition get_config :: "(string \<Rightarrow> string option) \<Rightarrow> string \<Rightarrow> string \<Rightarrow> string \<Rightarrow> string \<Rightarrow> nat \<Rightarrow>
    (bool \<times> string) option res" where
  "get_config fopen junk path key val cap =
     (case fopen path of
        None \<Rightarrow> Inr None
      | Some f \<Rightarrow> bindE (config_loop junk f key cap) (\<lambda>r.
          Inr (Some (case r of None \<Rightarrow> (False, val) | Some v \<Rightarrow> (True, v)))))"

section \<open>ConfigFile\<close>

type_synonym conf_map = "(string, string) std_map"

fun key_end :: "string \<Rightarrow> nat \<Rightarrow> nat \<Rightarrow> nat res" where
  "key_end [] ite equal = Inl Out_Of_Bounds"
| "key_end (c # m) ite equal =
     (if \<not> isblank c \<and> ite \<noteq> equal then key_end m (ite + 1) equal else Inr ite)"

text \<open>One pass of the loop of \<open>init\<close>; the pointers are positions in the buffer.\<close>

definition init_line :: "string \<Rightarrow> conf_map \<Rightarrow> conf_map res" where
  "init_line line confMap =
     bindE (find_in (\<lambda>c. c = CHR ''='') line) (\<lambda>equal.
       case equal of
         None \<Rightarrow> Inr confMap
       | Some equal \<Rightarrow>
           bindE (skip_blank line) (\<lambda>m.
             let fs = length line - length m
             in if hd m = CHR ''#'' then Inr confMap
                else bindE (key_end m fs equal) (\<lambda>fe.
                     bindE (skip_blank (drop (equal + 1) line)) (\<lambda>bs.
                     bindE (until_blank_or_end bs) (\<lambda>n.
                       let key = take (fe - fs) m; val = take n bs
                       in Inr (if key \<noteq> [] \<and> val \<noteq> [] then put_new key val confMap else confMap))))))"

function init_loop :: "string \<Rightarrow> string \<Rightarrow> conf_map \<Rightarrow> conf_map res" where
  "init_loop line f confMap =
     (if f = [] then Inr confMap
      else let (l, rest) = fgets LINE_SIZE f; line = store_line line l
        in bindE (init_line line confMap) (\<lambda>confMap. init_loop line rest confMap))"
  by pat_completeness auto

termination
  by (relation "measure (\<lambda>(line, f, confMap). length f)") (simp_all, metis fgets_shorter snd_conv)

declare init_loop.simps [simp del]

text \<open>\<open>init\<close> declares a local \<open>path\<close> and works on it; its parameter \<open>path_\<close> is not used.\<close>

definition init :: "(string \<Rightarrow> string option) \<Rightarrow> string \<Rightarrow> string \<Rightarrow> conf_map \<Rightarrow> conf_map option res" where
  "init fopen junk path_arg confMap =
     (let path = [];
          path = (if CHR ''/'' \<notin> set path then ''/root/'' @ path else path)
      in case fopen path of
           None \<Rightarrow> Inr None
         | Some f \<Rightarrow> bindE (init_loop junk f []) (\<lambda>m. Inr (Some m)))"

text \<open>\<open>confMap_[key]\<close> makes an empty entry for a key that is not there.\<close>

definition getValue :: "string \<Rightarrow> conf_map \<Rightarrow> string \<times> conf_map" where
  "getValue key m = (let m = put_new key [] m in (the (map_of m key), m))"

definition setValue :: "string \<Rightarrow> string \<Rightarrow> conf_map \<Rightarrow> conf_map" where
  "setValue key val m = put key val m"

section \<open>The lines of a file\<close>

text \<open>What a line says: the pair of a key and a value, as \<open>init\<close> takes it.\<close>

definition line_entry :: "string \<Rightarrow> (string \<times> string) option" where
  "line_entry l =
     (let s = before NUL l; t = dropWhile isblank s;
          k = takeWhile (\<lambda>c. \<not> isblank c \<and> c \<noteq> CHR ''='') t;
          v = takeWhile (\<lambda>c. \<not> isblank c) (dropWhile isblank (tl (from_char (CHR ''='') s)))
      in if CHR ''='' \<notin> set s \<or> hd t = CHR ''#'' \<or> k = [] \<or> v = [] then None else Some (k, v))"

definition add_entry :: "conf_map \<Rightarrow> (string \<times> string) option \<Rightarrow> conf_map" where
  "add_entry m kv = (case kv of None \<Rightarrow> m | Some (k, v) \<Rightarrow> put_new k v m)"

definition conf_of :: "string \<Rightarrow> conf_map" where
  "conf_of f = foldl add_entry [] (map line_entry (file_lines f))"

lemma store_line_starts: "starts_with (before NUL l) (store_line b l)"
proof (cases "NUL \<in> set l")
  case True
  then have "from_char NUL l \<noteq> []" by (simp add: from_char_nonempty)
  then obtain r where "from_char NUL l = NUL # r"
    by (cases "from_char NUL l") (auto simp: from_char_def dropWhile_eq_Cons_conv)
  then have "l = before NUL l @ NUL # r" using before_from_char [of NUL l] by simp
  then have "store_line b l = before NUL l @ NUL # (r @ NUL # drop (Suc (length l)) b)"
    by (metis append.assoc append_Cons store_line_def)
  then show ?thesis by (auto simp: starts_with_def before_def dest: set_takeWhileD)
next
  case False
  then show ?thesis by (auto simp: starts_with_def store_line_def)
qed

lemma length_store_line: "length l < length b \<Longrightarrow> length (store_line b l) = length b"
  by (simp add: store_line_def)

lemma dropWhile_stop: "\<not> P c \<Longrightarrow> dropWhile P (s @ c # r) = dropWhile P s @ c # r"
  by (induction s) auto

lemma takeWhile_stop: "\<not> P c \<Longrightarrow> takeWhile P (s @ c # r) = takeWhile P s"
  by (induction s) auto

lemma skip_blank_stop: "\<not> isblank c \<Longrightarrow> skip_blank (s @ c # r) = Inr (dropWhile isblank s @ c # r)"
  by (cases "dropWhile isblank s") (simp_all add: skip_blank_def dropWhile_stop)

lemma until_blank_or_end_stop:
  assumes "NUL \<notin> set s"
  shows "until_blank_or_end (s @ NUL # r) = Inr (length (takeWhile (\<lambda>c. \<not> isblank c) s))"
proof -
  have "takeWhile (\<lambda>c. \<not> isblank c \<and> c \<noteq> NUL) s = takeWhile (\<lambda>c. \<not> isblank c) s"
    using assms by (induction s) auto
  then show ?thesis by (simp add: until_blank_or_end_def dropWhile_stop takeWhile_stop)
qed

lemma key_end_stop:
  "key_end (u @ CHR ''='' # r) i (i + length u) = Inr (i + length (takeWhile (\<lambda>c. \<not> isblank c) u))"
proof (induction u arbitrary: i)
  case (Cons c u)
  then show ?case using Cons [of "i + 1"] by simp
qed simp

lemma split_at_char:
  assumes "c \<in> set s"
  obtains p q where "s = p @ c # q" "c \<notin> set p" "from_char c s = c # q" "before c s = p"
proof -
  obtain p q where "s = p @ c # q" "c \<notin> set p" using split_list_first [OF assms] by blast
  then show ?thesis using that by simp
qed

lemma init_line_entry:
  assumes "starts_with s line"
  shows "init_line line m = Inr (add_entry m (line_entry s))"
proof -
  obtain r where line: "line = s @ NUL # r" and n: "NUL \<notin> set s"
    using assms by (auto simp: starts_with_def)
  have bs: "before NUL s = s" using n by simp
  note eq = find_in_string [OF assms, of "\<lambda>c. c = CHR ''=''"]
  show ?thesis
  proof (cases "CHR ''='' \<in> set s")
    case False
    then show ?thesis using eq by (simp add: init_line_def line_entry_def bs add_entry_def)
  next
    case True
    then obtain p q where s: "s = p @ CHR ''='' # q" and p: "CHR ''='' \<notin> set p"
      by (rule split_at_char)
    define u where "u = dropWhile isblank p"
    define w where "w = dropWhile isblank q"
    define k where "k = takeWhile (\<lambda>c. \<not> isblank c) u"
    define v where "v = takeWhile (\<lambda>c. \<not> isblank c) w"
    have blank: "\<not> isblank (CHR ''='')" "\<not> isblank NUL" by (simp_all add: isblank_def)
    have fe: "find_in (\<lambda>c. c = CHR ''='') line = Inr (Some (length p))"
      using eq True p before_append [of "CHR ''=''" p q] by (simp add: s before_def)
    have sk: "skip_blank line = Inr (u @ CHR ''='' # q @ NUL # r)"
      using skip_blank_stop [OF blank(1), of p "q @ NUL # r"] by (simp add: line s u_def)
    have lu: "length p - length u + length u = length p"
      by (simp add: le_add_diff_inverse2 length_dropWhile_le u_def)
    have ke: "key_end (u @ CHR ''='' # q @ NUL # r) (length p - length u) (length p) =
        Inr (length p - length u + length k)"
      using key_end_stop [of u "q @ NUL # r" "length p - length u"] by (simp only: lu k_def)
    have nq: "NUL \<notin> set w" using n s set_dropWhileD by (fastforce simp: w_def)
    have kt: "take (length k) (u @ x) = k" and vt: "take (length v) (w @ x) = v" for x
      unfolding k_def v_def by (metis append.assoc append_eq_conv_conj takeWhile_dropWhile_id)+
    have pos: "length line - length (u @ CHR ''='' # q @ NUL # r) = length p - length u"
      by (simp add: line s)
    have rest: "skip_blank (drop (length p + 1) line) = Inr (w @ NUL # r)"
      using skip_blank_stop [OF blank(2), of q r] by (simp add: line s w_def)
    have len: "until_blank_or_end (w @ NUL # r) = Inr (length v)"
      using until_blank_or_end_stop [OF nq] by (simp add: v_def)
    have "k = takeWhile (\<lambda>c. \<not> isblank c \<and> c \<noteq> CHR ''='') u"
      unfolding k_def by (rule takeWhile_cong) (use p in \<open>auto simp: u_def dest: set_dropWhileD\<close>)
    then have entry: "line_entry s =
        (if hd (u @ CHR ''='' # q @ NUL # r) = CHR ''#'' \<or> k = [] \<or> v = [] then None else Some (k, v))"
      using p by (simp add: line_entry_def bs [unfolded s] Let_def s dropWhile_stop takeWhile_stop
          blank hd_append u_def v_def w_def)
    show ?thesis
      unfolding init_line_def fe sk bindE_Inr option.case Let_def pos ke rest len entry kt vt
        add_diff_cancel_left' add_entry_def
      by simp
  qed
qed

lemma line_entry_before: "line_entry (before NUL l) = line_entry l"
proof -
  have "NUL \<notin> set (before NUL l)" by (auto simp: before_def dest: set_takeWhileD)
  then show ?thesis by (simp add: line_entry_def)
qed

lemma init_loop_entries:
  "length line = LINE_SIZE \<Longrightarrow>
   init_loop line f m = Inr (foldl add_entry m (map line_entry (file_lines f)))"
proof (induction line f m rule: init_loop.induct)
  case (1 line f m)
  show ?case
  proof (cases "f = []")
    case False
    obtain l rest where l: "fgets LINE_SIZE f = (l, rest)" by fastforce
    have "length (store_line line l) = LINE_SIZE"
      using 1(2) fgets_length [of f] l by (simp add: length_store_line)
    then show ?thesis
      using False l 1(1) [OF False l [symmetric] refl]
        init_line_entry [OF store_line_starts, of line l]
      by (simp add: init_loop.simps [of line f] file_lines.simps [of f] line_entry_before Let_def)
  qed (simp add: init_loop.simps file_lines.simps)
qed

section \<open>What get_config finds\<close>

text \<open>
  What a line says to \<open>get_config\<close>: nothing, the value of the key, or, for the key without an equals
  sign or with a value longer than the caller's buffer, an error.
\<close>

definition line_value :: "string \<Rightarrow> nat \<Rightarrow> string \<Rightarrow> string option res" where
  "line_value key cap l =
     (let s = before NUL l; t = dropWhile isblank s; k = takeWhile (\<lambda>c. \<not> isblank c) t;
          v = takeWhile (\<lambda>c. \<not> isblank c) (dropWhile isblank (tl (from_char (CHR ''='') s)))
      in if hd (t @ [NUL]) = CHR ''#'' \<or> k \<noteq> key then Inr None
         else if CHR ''='' \<notin> set s then Inl Null_Deref
         else if length v < cap then Inr (Some v) else Inl Out_Of_Bounds)"

fun lines_value :: "string \<Rightarrow> nat \<Rightarrow> string list \<Rightarrow> string option res" where
  "lines_value key cap [] = Inr None"
| "lines_value key cap (l # ls) = bindE (line_value key cap l) (\<lambda>r.
     case r of None \<Rightarrow> lines_value key cap ls | Some v \<Rightarrow> Inr (Some v))"

text \<open>
  The scan for the end of the key must find a blank: in the line itself, or, when the line has none
  (an empty line, say), in what longer lines before it have left in the buffer. \<open>h\<close> is the position
  behind the last such blank.
\<close>

definition key_ends :: "string \<Rightarrow> bool" where
  "key_ends s \<longleftrightarrow> (let t = dropWhile isblank s in t \<noteq> [] \<and>
     (hd t = CHR ''#'' \<or> dropWhile (\<lambda>c. \<not> isblank c) t \<noteq> []))"

definition blank_end :: "string \<Rightarrow> nat" where
  "blank_end l = length (dropWhile (\<lambda>c. \<not> isblank c) (rev l))"

fun lines_ok :: "nat \<Rightarrow> string list \<Rightarrow> bool" where
  "lines_ok h [] = True"
| "lines_ok h (l # ls) \<longleftrightarrow> (key_ends (before NUL l) \<or> length l + 1 < h) \<and>
     lines_ok (if length l + 1 < h then h else blank_end l) ls"

definition blank_at :: "nat \<Rightarrow> string \<Rightarrow> bool" where
  "blank_at h b \<longleftrightarrow> h = 0 \<or> h \<le> length b \<and> isblank (b ! (h - 1))"

lemma blank_at_end: "blank_at (blank_end l) (l @ r)"
proof (cases "\<exists>c \<in> set l. isblank c")
  case True
  then obtain u c w where l: "l = u @ c # w" "isblank c" "\<forall>c \<in> set w. \<not> isblank c"
    using split_list_last_prop [of l isblank] by blast
  then have "dropWhile (\<lambda>c. \<not> isblank c) (rev w @ c # rev u) = c # rev u"
    by (subst dropWhile_append2) auto
  then show ?thesis using l by (simp add: blank_at_def blank_end_def nth_append)
next
  case False
  then have "dropWhile (\<lambda>c. \<not> isblank c) (rev l) = []" by simp
  then show ?thesis by (simp add: blank_at_def blank_end_def)
qed

lemma blank_at_store:
  assumes "blank_at h b" "length l < length b"
  shows "blank_at (if length l + 1 < h then h else blank_end l) (store_line b l)"
proof (cases "length l + 1 < h")
  case True
  then obtain k where "h = Suc (length l + 1 + k)" using less_imp_Suc_add by blast
  then show ?thesis using assms by (auto simp: blank_at_def store_line_def nth_append)
qed (simp add: store_line_def blank_at_end)

lemma config_line_value:
  assumes "line = s @ NUL # r" "NUL \<notin> set s" "length line \<le> LINE_SIZE"
    "key_ends s \<or> (\<exists>c \<in> set r. isblank c)"
  shows "config_line line key cap = line_value key cap s"
proof -
  let ?t = "dropWhile isblank s"
  let ?n = "length (takeWhile (\<lambda>c. \<not> isblank c) (?t @ NUL # r))"
  have st: "starts_with s line" using assms(1,2) by (auto simp: starts_with_def)
  have blank: "\<not> isblank NUL" by (simp add: isblank_def)
  have bs: "before NUL s = s" using assms(2) by simp
  note eq = find_in_string [OF st, of "\<lambda>c. c = CHR ''=''"]
  have sk: "skip_blank line = Inr (?t @ NUL # r)" by (simp add: assms(1) skip_blank_stop blank)
  have nt: "NUL \<notin> set ?t" using assms(2) set_dropWhileD by fast
  have hd: "hd (?t @ NUL # r) = hd (?t @ [NUL])" by (simp add: hd_append)
  have ub: "until_blank (?t @ NUL # r) = Inr ?n" if "hd (?t @ [NUL]) \<noteq> CHR ''#''"
    using assms(4) that by (auto simp: until_blank_def key_ends_def Let_def hd_append split: if_splits)
  have n: "?n < LINE_SIZE" if "hd (?t @ [NUL]) \<noteq> CHR ''#''"
  proof -
    have "dropWhile (\<lambda>c. \<not> isblank c) (?t @ NUL # r) \<noteq> []"
      using ub [OF that] unfolding until_blank_def by (metis Inl_Inr_False)
    then have "?n < ?n + length (dropWhile (\<lambda>c. \<not> isblank c) (?t @ NUL # r))" by simp
    also have "\<dots> = length (?t @ NUL # r)" by (metis length_append takeWhile_dropWhile_id)
    also have "\<dots> \<le> LINE_SIZE"
      using assms(1,3) length_dropWhile_le [of isblank s] by simp
    finally show ?thesis .
  qed
  have "take ?n ?t = takeWhile (\<lambda>c. \<not> isblank c) ?t"
  proof (cases "\<exists>c \<in> set ?t. isblank c")
    case True
    then have "takeWhile (\<lambda>c. \<not> isblank c) (?t @ NUL # r) = takeWhile (\<lambda>c. \<not> isblank c) ?t"
      by (metis (mono_tags, lifting) takeWhile_append1)
    then show ?thesis by (metis append_eq_conv_conj takeWhile_dropWhile_id)
  next
    case False
    then have "takeWhile (\<lambda>c. \<not> isblank c) ?t = ?t" by (subst takeWhile_eq_all_conv) blast
    moreover from False have "?n \<ge> length ?t" by (simp add: takeWhile_append)
    ultimately show ?thesis by (simp only: take_all)
  qed
  then have left: "copy_token (?t @ NUL # r) ?n LINE_SIZE = Inr (takeWhile (\<lambda>c. \<not> isblank c) ?t)"
    if "hd (?t @ [NUL]) \<noteq> CHR ''#''"
    using strncpy_string [of ?t "?t @ NUL # r" ?n] nt n [OF that]
    by (simp add: copy_token_def starts_with_def)
  show ?thesis
  proof (cases "hd (?t @ [NUL]) \<noteq> CHR ''#'' \<and> takeWhile (\<lambda>c. \<not> isblank c) ?t = key \<and> CHR ''='' \<in> set s")
    case False
    then show ?thesis
      using sk hd ub left eq by (auto simp: config_line_def line_value_def bs Let_def)
  next
    case True
    then have nh: "hd (?t @ [NUL]) \<noteq> CHR ''#''" and k: "takeWhile (\<lambda>c. \<not> isblank c) ?t = key"
      and e: "CHR ''='' \<in> set s" by simp_all
    obtain p q where s: "s = p @ CHR ''='' # q" and p: "CHR ''='' \<notin> set p"
      and fc: "from_char (CHR ''='') s = CHR ''='' # q" and bf: "before (CHR ''='') s = p"
      using e by (rule split_at_char)
    let ?v = "takeWhile (\<lambda>c. \<not> isblank c) (dropWhile isblank q)"
    have nq: "NUL \<notin> set (dropWhile isblank q)" using assms(2) s set_dropWhileD by fastforce
    have d: "drop (length p + 1) line = q @ NUL # r" by (simp add: assms(1) s)
    have v: "copy_token (dropWhile isblank q @ NUL # r) (length ?v) cap =
        (if length ?v < cap then Inr ?v else Inl Out_Of_Bounds)"
      using strncpy_string [of "dropWhile isblank q" _ "length ?v"] nq takeWhile_eq_take [of "\<lambda>c. \<not> isblank c"]
      by (simp add: copy_token_def starts_with_def)
    have eq': "find_in (\<lambda>c. c = CHR ''='') line = Inr (Some (length p))"
      using eq e bf by (simp add: before_def)
    show ?thesis
      using sk hd ub [OF nh] left [OF nh] nh k e eq' d v until_blank_or_end_stop [OF nq, of r]
      by (simp add: config_line_def line_value_def bs Let_def fc skip_blank_stop [OF blank])
  qed
qed

lemma store_line_split:
  "\<exists>r. store_line b l = before NUL l @ NUL # r \<and> (NUL \<notin> set l \<longrightarrow> r = drop (Suc (length l)) b)"
proof (cases "NUL \<in> set l")
  case True
  then show ?thesis using store_line_starts [of l b] by (auto simp: starts_with_def)
qed (simp add: store_line_def)

lemma line_value_before: "line_value key cap (before NUL l) = line_value key cap l"
proof -
  have "NUL \<notin> set (before NUL l)" by (auto simp: before_def dest: set_takeWhileD)
  then show ?thesis by (simp add: line_value_def)
qed

lemma leftover_blank:
  assumes "blank_at h b" "length l + 1 < h" "store_line b l = before NUL l @ NUL # r"
  shows "\<exists>c \<in> set r. isblank c"
proof -
  obtain k where h: "h = Suc (length l + 1 + k)" using less_imp_Suc_add [OF assms(2)] by blast
  then have c: "length l + 1 + k < length b" "isblank (b ! (length l + 1 + k))"
    using assms(1) by (auto simp: blank_at_def)
  let ?s = "before NUL l"
  have ls: "length ?s \<le> length l" by (simp add: before_def length_takeWhile_le)
  have "store_line b l ! (length l + 1 + k) = b ! (length l + 1 + k)"
    using c(1) by (simp add: store_line_def nth_append)
  moreover have "store_line b l ! (length l + 1 + k) = r ! (length l + k - length ?s)"
    using ls by (simp add: assms(3) nth_append Suc_diff_le)
  moreover have "length (store_line b l) = length b" using c(1) by (simp add: store_line_def)
  then have "length l + k - length ?s < length r" using ls c(1) by (simp add: assms(3))
  ultimately show ?thesis using c(2) by (metis nth_mem)
qed

lemma config_loop_values:
  "length line = LINE_SIZE \<Longrightarrow> blank_at h line \<Longrightarrow> lines_ok h (file_lines f) \<Longrightarrow>
   config_loop line f key cap = lines_value key cap (file_lines f)"
proof (induction line f key cap arbitrary: h rule: config_loop.induct)
  case (1 line f key cap)
  show ?case
  proof (cases "f = []")
    case False
    obtain l rest where l: "fgets LINE_SIZE f = (l, rest)" by fastforce
    have fl: "file_lines f = l # file_lines rest"
      using False l by (simp add: file_lines.simps [of f])
    have short: "length l < length line" using fgets_length [of f] 1(2) l by simp
    obtain r where r: "store_line line l = before NUL l @ NUL # r"
      using store_line_split by blast
    have "key_ends (before NUL l) \<or> (\<exists>c \<in> set r. isblank c)"
      using 1(4) leftover_blank [OF 1(3) _ r] unfolding fl by auto
    then have line: "config_line (store_line line l) key cap = line_value key cap l"
      using config_line_value [OF r] short 1(2) length_store_line [OF short]
      by (simp add: line_value_before) (auto simp: before_def dest: set_takeWhileD)
    have "config_loop (store_line line l) rest key cap = lines_value key cap (file_lines rest)"
      if "line_value key cap l = Inr None"
      using 1(1) [OF False l [symmetric] refl refl] that line blank_at_store [OF 1(3) short]
        1(2,4) length_store_line [OF short] unfolding fl by auto
    then show ?thesis
      using False l line fl
      by (cases "line_value key cap l") (auto simp: config_loop.simps [of line f] Let_def split: option.split)
  qed (simp add: config_loop.simps file_lines.simps)
qed

section \<open>Files as the program's own configuration is written\<close>

definition conf_line :: "string \<times> string \<Rightarrow> string" where
  "conf_line kv = fst kv @ '' = '' @ snd kv @ [LF]"

definition render :: "(string \<times> string) list \<Rightarrow> string" where
  "render es = concat (map conf_line es)"

definition entry_ok :: "string \<times> string \<Rightarrow> bool" where
  "entry_ok kv \<longleftrightarrow> fst kv \<noteq> [] \<and> hd (fst kv) \<noteq> CHR ''#'' \<and> snd kv \<noteq> [] \<and>
     list_all (\<lambda>c. \<not> isblank c \<and> c \<noteq> LF \<and> c \<noteq> NUL \<and> c \<noteq> CHR ''='') (fst kv) \<and>
     list_all (\<lambda>c. \<not> isblank c \<and> c \<noteq> LF \<and> c \<noteq> NUL) (snd kv) \<and>
     length (fst kv) + length (snd kv) \<le> 250"

lemma fgets_line:
  assumes "LF \<notin> set body" "length body < 254"
  shows "fgets LINE_SIZE (body @ LF # rest) = (body @ [LF], rest)"
proof -
  obtain k where "254 - length body = Suc k" using assms(2) by (metis Suc_diff_Suc)
  then have "take 254 (body @ LF # rest) = body @ LF # take k rest"
    using assms(2) by simp
  then show ?thesis using assms(1) by (simp add: fgets_def LINE_SIZE_def Let_def)
qed

lemma file_lines_render: "list_all entry_ok es \<Longrightarrow> file_lines (render es) = map conf_line es"
proof (induction es)
  case (Cons kv es)
  obtain k v where kv: "kv = (k, v)" by fastforce
  have "LF \<notin> set (k @ '' = '' @ v)" "length (k @ '' = '' @ v) < 254"
    using Cons.prems by (auto simp: kv entry_ok_def list_all_iff)
  then have "fgets LINE_SIZE (render (kv # es)) = (conf_line kv, render es)"
    using fgets_line [of "k @ '' = '' @ v" "render es"] by (simp add: render_def conf_line_def kv)
  moreover have "render (kv # es) \<noteq> []" by (simp add: render_def conf_line_def)
  ultimately show ?case
    using Cons by (simp add: file_lines.simps [of "render (kv # es)"])
qed (simp add: render_def file_lines.simps)

lemma conf_line_parts:
  assumes "entry_ok (k, v)"
  shows "NUL \<notin> set (conf_line (k, v))" "CHR ''='' \<in> set (conf_line (k, v))"
    "dropWhile isblank (conf_line (k, v)) = conf_line (k, v)"
    "from_char (CHR ''='') (conf_line (k, v)) = ''= '' @ v @ [LF]"
    "hd (conf_line (k, v) @ r) \<noteq> CHR ''#''"
    "takeWhile (\<lambda>c. \<not> isblank c) (conf_line (k, v)) = k"
    "takeWhile (\<lambda>c. \<not> isblank c \<and> c \<noteq> CHR ''='') (conf_line (k, v)) = k"
    "takeWhile (\<lambda>c. \<not> isblank c) (dropWhile isblank ('' '' @ v @ [LF])) = v @ [LF]"
proof -
  have ok: "k \<noteq> []" "hd k \<noteq> CHR ''#''" "v \<noteq> []" "\<And>c. c \<in> set k \<Longrightarrow> \<not> isblank c \<and> c \<noteq> NUL \<and> c \<noteq> CHR ''=''"
    "\<And>c. c \<in> set v \<Longrightarrow> \<not> isblank c \<and> c \<noteq> NUL"
    using assms by (auto simp: entry_ok_def list_all_iff)
  have b: "isblank SP" "\<not> isblank LF" by (simp_all add: isblank_def)
  show "NUL \<notin> set (conf_line (k, v))" "CHR ''='' \<in> set (conf_line (k, v))"
    using ok(4,5) by (auto simp: conf_line_def)
  obtain x k' where k: "k = x # k'" using ok(1) by (cases k) auto
  obtain y v' where v: "v = y # v'" using ok(3) by (cases v) auto
  have xy: "\<not> isblank x" "\<not> isblank y" using ok(4) [of x] ok(5) [of y] by (simp_all add: k v)
  then show "dropWhile isblank (conf_line (k, v)) = conf_line (k, v)"
    "hd (conf_line (k, v) @ r) \<noteq> CHR ''#''"
    using ok(2) by (simp_all add: conf_line_def k)
  have "CHR ''='' \<notin> set (k @ [SP])" using ok(4) by auto
  from from_char_append [OF this, of "'' '' @ v @ [LF]"]
  show "from_char (CHR ''='') (conf_line (k, v)) = ''= '' @ v @ [LF]"
    by (simp add: conf_line_def)
  show "takeWhile (\<lambda>c. \<not> isblank c) (conf_line (k, v)) = k"
    "takeWhile (\<lambda>c. \<not> isblank c \<and> c \<noteq> CHR ''='') (conf_line (k, v)) = k"
    unfolding conf_line_def fst_conv using ok(4) b by (subst takeWhile_append2; auto)+
  show "takeWhile (\<lambda>c. \<not> isblank c) (dropWhile isblank ('' '' @ v @ [LF])) = v @ [LF]"
    using ok(5) b xy by (auto simp: v takeWhile_eq_all_conv)
qed

lemma line_entry_conf_line:
  assumes "entry_ok kv"
  shows "line_entry (conf_line kv) = Some (fst kv, snd kv @ [LF])"
proof -
  obtain k v where kv: "kv = (k, v)" by fastforce
  note p = conf_line_parts [OF assms [unfolded kv]]
  have "k \<noteq> []" using assms by (simp add: entry_ok_def kv)
  then show ?thesis using p p(5) [where r = "[]"] by (simp add: line_entry_def kv)
qed

lemma line_value_conf_line:
  assumes "entry_ok kv"
  shows "line_value key cap (conf_line kv) =
    (if fst kv \<noteq> key then Inr None
     else if length (snd kv) + 1 < cap then Inr (Some (snd kv @ [LF])) else Inl Out_Of_Bounds)"
proof -
  obtain k v where kv: "kv = (k, v)" by fastforce
  note p = conf_line_parts [OF assms [unfolded kv]]
  then show ?thesis by (cases "k = key") (auto simp: line_value_def kv Let_def)
qed

lemma lines_ok_conf: "list_all entry_ok es \<Longrightarrow> lines_ok h (map conf_line es)"
proof (induction es arbitrary: h)
  case (Cons kv es)
  obtain k v where kv: "kv = (k, v)" by fastforce
  then have e: "entry_ok (k, v)" using Cons.prems by simp
  have "conf_line (k, v) \<noteq> []" by (simp add: conf_line_def)
  moreover have "\<exists>c \<in> set (conf_line (k, v)). isblank c" by (simp add: conf_line_def isblank_def)
  ultimately have "key_ends (conf_line (k, v))"
    using conf_line_parts(3) [OF e] by (simp add: key_ends_def)
  then show ?case using Cons conf_line_parts(1) [OF e] by (simp add: kv)
qed simp

lemma map_of_entries:
  "list_all entry_ok es \<Longrightarrow> keys_sorted m \<Longrightarrow>
   keys_sorted (foldl add_entry m (map line_entry (map conf_line es))) \<and>
   map_of (foldl add_entry m (map line_entry (map conf_line es))) k =
     (case map_of m k of Some v \<Rightarrow> Some v | None \<Rightarrow> map_option (\<lambda>v. v @ [LF]) (map_of es k))"
proof (induction es arbitrary: m)
  case Nil
  then show ?case by (simp split: option.split)
next
  case (Cons kv es)
  let ?m = "put_new (fst kv) (snd kv @ [LF]) m"
  have "keys_sorted ?m" using Cons.prems(2) by (rule put_new_sorted)
  moreover have "map_of ?m = (if map_of m (fst kv) = None then (map_of m)(fst kv \<mapsto> snd kv @ [LF]) else map_of m)"
    by (rule map_of_put_new [OF Cons.prems(2)])
  ultimately show ?case
    using Cons.IH [of ?m] Cons.prems(1)
    by (cases kv) (auto simp: add_entry_def line_entry_conf_line split: option.splits if_splits)
qed

lemma lines_value_conf:
  "list_all entry_ok es \<Longrightarrow> (\<And>v. map_of es key = Some v \<Longrightarrow> length v + 1 < cap) \<Longrightarrow>
   lines_value key cap (map conf_line es) = Inr (map_option (\<lambda>v. v @ [LF]) (map_of es key))"
  by (induction es) (auto simp: line_value_conf_line)

section \<open>Properties\<close>

text \<open>
  C23: \<open>ConfigFile::init\<close> never leaves its buffer and computes what a line-wise reading of the file
  says, whatever the buffer held and however long the lines are: the first value of every key, in
  the order of a map. The file is always \<open>/root/\<close>: the path it is called with makes no difference,
  nor do the entries the map had.
\<close>

theorem config_init_reference:
  assumes "length junk = LINE_SIZE"
  shows "init fopen junk path m = Inr (map_option conf_of (fopen ''/root/''))"
  using init_loop_entries [OF assms]
  by (simp add: init_def conf_of_def split: option.split)

definition no_junk :: string where
  "no_junk = replicate LINE_SIZE NUL"

theorem config_init_reference_witness:
  "init [''/root/'' \<mapsto> ''a=1'' @ [LF] @ ''#b=2'' @ [LF] @ ''a = 3''] no_junk ''config.conf'' [] =
     Inr (map_option conf_of ([''/root/'' \<mapsto> ''a=1'' @ [LF] @ ''#b=2'' @ [LF] @ ''a = 3''] ''/root/''))"
  by (rule config_init_reference) (simp add: no_junk_def)

text \<open>
  C24: \<open>get_config\<close> finds the value that the first line with the key gives, if the scan for the end of
  every key meets a blank: in its line or in what longer lines have left in the buffer.
\<close>

theorem get_config_reference:
  assumes "length junk = LINE_SIZE" "fopen path = Some f" "lines_ok 0 (file_lines f)"
  shows "get_config fopen junk path key val cap =
    bindE (lines_value key cap (file_lines f)) (\<lambda>r.
      Inr (Some (case r of None \<Rightarrow> (False, val) | Some v \<Rightarrow> (True, v))))"
  using config_loop_values [OF assms(1) _ assms(3), of key cap]
  by (simp add: get_config_def assms(2) blank_at_def)

text \<open>The file config.conf of the repository.\<close>

definition shipped_lines :: "string list" where
  "shipped_lines = [[CHR 0xEF, CHR 0xBB, CHR 0xBF] @ ''# socket'', ''PORT = 9000'', '''',
     ''# number of listen socket'', ''BACKLOG = 4096'', '''', ''#FD'', ''MAX_FD = 65536'',
     ''MAX_EH = 65536'', ''MAX_EPOLL_EVENT = 6553'', ''MAX_EPOLL = 65536'', ''RLIMIT = 655360'', '''']"

definition shipped_file :: string where
  "shipped_file = concat (map (\<lambda>l. l @ [LF]) shipped_lines) @ ''DEAMON = 0''"

lemma shipped_file_lines:
  "file_lines shipped_file = map (\<lambda>l. l @ [LF]) shipped_lines @ [''DEAMON = 0'']"
proof -
  have step: "file_lines (l @ LF # r) = (l @ [LF]) # file_lines r" if "LF \<notin> set l" "length l < 254" for l r
    using fgets_line [OF that, of r] by (simp add: file_lines.simps [of "l @ LF # r"])
  have lines: "file_lines (concat (map (\<lambda>l. l @ [LF]) ls) @ r) = map (\<lambda>l. l @ [LF]) ls @ file_lines r"
    if "\<forall>l \<in> set ls. LF \<notin> set l \<and> length l < 254" for ls r
    using that by (induction ls) (simp_all add: step)
  have last_line: "file_lines ''DEAMON = 0'' = [''DEAMON = 0'']" by code_simp
  have "\<forall>l \<in> set shipped_lines. LF \<notin> set l \<and> length l < 254" by (simp add: shipped_lines_def)
  from lines [OF this] show ?thesis by (simp only: shipped_file_def last_line)
qed

theorem get_config_reference_witness:
  "get_config [''../config.conf'' \<mapsto> shipped_file] no_junk ''../config.conf'' ''BACKLOG'' '''' 20 =
     Inr (Some (True, ''4096'' @ [LF]))"
proof -
  have "lines_ok 0 (map (\<lambda>l. l @ [LF]) shipped_lines @ [''DEAMON = 0''])" by code_simp
  moreover have "lines_value ''BACKLOG'' 20 (map (\<lambda>l. l @ [LF]) shipped_lines @ [''DEAMON = 0'']) =
      Inr (Some (''4096'' @ [LF]))" by code_simp
  ultimately show ?thesis
    using get_config_reference [of no_junk "[''../config.conf'' \<mapsto> shipped_file]" "''../config.conf''"
        shipped_file "''BACKLOG''" "''''" 20]
    by (simp add: shipped_file_lines) (simp add: no_junk_def)
qed

text \<open>
  A first line without a blank, \<open>PORT=9000\<close> for instance, is read past its end: if the rest of
  the buffer has no blank either, \<open>get_config\<close> leaves the buffer.
\<close>

lemma get_config_overruns:
  assumes "fopen path = Some (l @ LF # f)" "length junk = LINE_SIZE" "length l < 254"
    "\<forall>c \<in> set (l @ junk). \<not> isblank c \<and> c \<noteq> NUL \<and> c \<noteq> LF" "l \<noteq> []" "hd l \<noteq> CHR ''#''"
  shows "get_config fopen junk path key val cap = Inl Out_Of_Bounds"
proof -
  let ?b = "store_line junk (l @ [LF])"
  have b: "?b = l @ LF # NUL # drop (length l + 2) junk" by (simp add: store_line_def)
  have nb: "\<not> isblank c" if "c \<in> set ?b" for c
    using that assms(4) by (auto simp: b isblank_def dest: in_set_dropD)
  have "dropWhile isblank ?b = ?b" using nb [of "hd ?b"] by (cases ?b) auto
  then have sk: "skip_blank ?b = Inr ?b" by (simp add: skip_blank_def b split: list.split)
  have "starts_with (l @ [LF]) ?b" using assms(4) by (auto simp: starts_with_def store_line_def)
  note eq = find_in_string [OF this, of "\<lambda>c. c = CHR ''=''"]
  have "hd ?b \<noteq> CHR ''#''" using assms(5,6) by (simp add: b hd_append)
  moreover have "until_blank ?b = Inl Out_Of_Bounds" using nb by (simp add: until_blank_def)
  ultimately have "config_line ?b key cap = Inl Out_Of_Bounds"
    using eq sk by (simp add: config_line_def)
  moreover have "fgets LINE_SIZE (l @ LF # f) = (l @ [LF], f)"
    using assms(3,4) by (intro fgets_line) auto
  ultimately show ?thesis
    using assms(1) by (simp add: get_config_def config_loop.simps [of junk "l @ LF # f"] Let_def)
qed

lemma get_config_overruns_witness:
  "get_config [''../config.conf'' \<mapsto> ''PORT=9000'' @ LF # ''BACKLOG = 5''] (replicate 255 (CHR ''x''))
     ''../config.conf'' ''BACKLOG'' [] 20 = Inl Out_Of_Bounds"
  by (rule get_config_overruns [of _ _ "''PORT=9000''" "''BACKLOG = 5''"])
    (auto simp: LINE_SIZE_def isblank_def)

text \<open>
  What is written as \<open>KEY = VALUE\<close> is read back by \<open>get_config\<close> and by \<open>init\<close> and \<open>getValue\<close>,
  the first line of a key counting, but with the end of the line as part of the value: what comes back
  is not what was written. The half on \<open>init\<close> needs a text at the path \<open>/root/\<close>, the only one it opens.
\<close>

lemma config_round_trip:
  assumes "list_all entry_ok es" "length junk = LINE_SIZE" "fopen path = Some (render es)"
    "fopen ''/root/'' = Some (render es)" "\<forall>v. map_of es key = Some v \<longrightarrow> length v + 1 < cap"
  shows "get_config fopen junk path key val cap =
      Inr (Some (case map_of es key of None \<Rightarrow> (False, val) | Some v \<Rightarrow> (True, v @ [LF]))) \<and>
    (\<exists>m. init fopen junk path [] = Inr (Some m) \<and>
      fst (getValue key m) = (case map_of es key of None \<Rightarrow> [] | Some v \<Rightarrow> v @ [LF]))"
proof
  have lines: "file_lines (render es) = map conf_line es" by (rule file_lines_render [OF assms(1)])
  show "get_config fopen junk path key val cap =
      Inr (Some (case map_of es key of None \<Rightarrow> (False, val) | Some v \<Rightarrow> (True, v @ [LF])))"
    using config_loop_values [OF assms(2), of 0 "render es" key cap] lines_ok_conf [OF assms(1), of 0]
      lines_value_conf [OF assms(1), of key cap] assms(3,5)
    by (simp add: get_config_def lines blank_at_def split: option.split)
  let ?m = "conf_of (render es)"
  have m: "keys_sorted ?m" "map_of ?m key = map_option (\<lambda>v. v @ [LF]) (map_of es key)"
    using map_of_entries [OF assms(1), of "[]" key] by (simp_all add: conf_of_def lines)
  have "init fopen junk path [] = Inr (Some ?m)"
    using init_loop_entries [OF assms(2)] by (simp add: init_def assms(4) conf_of_def)
  moreover have "fst (getValue key ?m) = (case map_of es key of None \<Rightarrow> [] | Some v \<Rightarrow> v @ [LF])"
    using map_of_put_new [OF m(1), of key "[]"] m(2)
    by (simp add: getValue_def Let_def split: option.split)
  ultimately show "\<exists>m. init fopen junk path [] = Inr (Some m) \<and>
      fst (getValue key m) = (case map_of es key of None \<Rightarrow> [] | Some v \<Rightarrow> v @ [LF])"
    by blast
qed

lemma config_round_trip_witness:
  "get_config (\<lambda>path. Some (render [(''PORT'', ''9000''), (''BACKLOG'', ''5'')])) no_junk ''c'' ''PORT'' [] 20 =
      Inr (Some (True, ''9000'' @ [LF]))"
  using config_round_trip [of "[(''PORT'', ''9000''), (''BACKLOG'', ''5'')]" no_junk
      "\<lambda>path. Some (render [(''PORT'', ''9000''), (''BACKLOG'', ''5'')])" "''c''" "''PORT''" 20 "[]"]
  by (simp add: entry_ok_def isblank_def no_junk_def)

text \<open>\<open>setValue\<close> is what \<open>getValue\<close> gives from then on, and changes no other key.\<close>

lemma getValue_setValue:
  assumes "keys_sorted m"
  shows "fst (getValue k (setValue k' v m)) = (if k = k' then v else fst (getValue k m))"
  using map_of_put [OF assms, of k' v] map_of_put_new [OF put_sorted [OF assms], of k "[]" k' v]
    map_of_put_new [OF assms, of k "[]"]
  by (simp add: getValue_def setValue_def Let_def)

end
