(* ===== verification/Slog.thy ===== *)
theory Slog
  imports CLib
begin

text \<open>
  src/Slog.h and src/Slog.cc: the log. A message is formatted into the buffer of the calling thread and
  appended to the file of its level under the lock of the level; what goes wrong is logged as an error.
  The calls of the threads are taken one after the other: a lock that is held when a call begins was
  left locked by an earlier one. \<open>None\<close> is a call that does not return. The format has been applied
  to its arguments; the lines for the terminal are left out.
\<close>

section \<open>Levels, files and messages\<close>

definition SLOG_LEVEL_DEBUG :: int where "SLOG_LEVEL_DEBUG = 20"
definition SLOG_LEVEL_INFO :: int where "SLOG_LEVEL_INFO = 40"
definition SLOG_LEVEL_ERROR :: int where "SLOG_LEVEL_ERROR = 60"

definition LOG_BUFFER_MAX_LENGTH :: nat where
  "LOG_BUFFER_MAX_LENGTH = 1024"

text \<open>Every level has its file and its lock.\<close>

datatype log_file = Debug_Log | Info_Log | Error_Log

fun log_file_name :: "log_file \<Rightarrow> string" where
  "log_file_name Debug_Log = ''debug.log''"
| "log_file_name Info_Log = ''info.log''"
| "log_file_name Error_Log = ''error.log''"

definition file_of :: "int \<Rightarrow> log_file option" where
  "file_of level =
     (if level = SLOG_LEVEL_DEBUG then Some Debug_Log
      else if level = SLOG_LEVEL_INFO then Some Info_Log
      else if level = SLOG_LEVEL_ERROR then Some Error_Log else None)"

text \<open>
  What the system gives: which files can be opened, whether \<open>calloc\<close> succeeds, whether a thread that
  locks a lock it holds is told so or waits for itself (both are allowed), the process id, \<open>__TIME__\<close>
  and \<open>__DATE__\<close>, and the text of \<open>strerror\<close>.
\<close>

record log_env =
  can_open :: "log_file \<Rightarrow> bool"
  has_memory :: bool
  detects :: bool
  pid :: int
  build_time :: string
  build_date :: string
  error_text :: string

record log_state =
  buffers :: "nat \<Rightarrow> string option"
  locked :: "log_file \<Rightarrow> nat option"
  logs :: "log_file \<Rightarrow> string list"

section \<open>Operations\<close>

definition fetch_thread_buffer :: "log_env \<Rightarrow> nat \<Rightarrow> log_state \<Rightarrow> log_state res" where
  "fetch_thread_buffer env t s =
     (if buffers s t \<noteq> None then Inr s
      else if has_memory env then Inr (s\<lparr> buffers := (buffers s)(t \<mapsto> []) \<rparr>)
      else Inl Null_Deref)"

text \<open>\<open>pthread_rwlock_wrlock\<close>: it succeeds, fails, or never returns.\<close>

definition wrlock :: "log_env \<Rightarrow> nat \<Rightarrow> log_file \<Rightarrow> log_state \<Rightarrow> bool option" where
  "wrlock env t f s =
     (case locked s f of None \<Rightarrow> Some True
      | Some u \<Rightarrow> if u = t \<and> detects env then Some False else None)"

fun log_line :: "log_env \<Rightarrow> log_file \<Rightarrow> string \<Rightarrow> int \<Rightarrow> string \<Rightarrow> string" where
  "log_line env Debug_Log fn line msg = ''DEBUG: '' @ msg @ '' (pid: '' @ decimal (pid env) @ '', '' @ fn @ '':'' @
     decimal line @ '', '' @ build_time env @ '' '' @ build_date env @ '')'' @ [LF]"
| "log_line env Info_Log fn line msg = ''INFO: '' @ msg @ '' (pid: '' @ decimal (pid env) @ '', '' @ fn @ '': '' @
     decimal line @ '', '' @ build_time env @ '' '' @ build_date env @ '')'' @ [LF]"
| "log_line env Error_Log fn line msg = ''ERROR: '' @ msg @ '' (pid: '' @ decimal (pid env) @ '', '' @ fn @ '': '' @
     decimal line @ '', '' @ build_time env @ '' '' @ build_date env @ ''])'' @ [LF]"

text \<open>The lines of the source that report a failed lock and a file that cannot be opened, and the latter's message.\<close>

fun lock_line :: "log_file \<Rightarrow> int" where
  "lock_line Debug_Log = 84" | "lock_line Info_Log = 104" | "lock_line Error_Log = 124"

fun open_line :: "log_file \<Rightarrow> int" where
  "open_line Debug_Log = 89" | "open_line Info_Log = 109" | "open_line Error_Log = 129"

definition open_message :: "log_env \<Rightarrow> log_file \<Rightarrow> string" where
  "open_message env f =
     (if f = Debug_Log then ''open file <'' else ''open file<'') @ log_file_name f @ ''> error: '' @ error_text env"

definition returning :: "int \<Rightarrow> (int \<times> log_state) res \<Rightarrow> (int \<times> log_state) res" where
  "returning i r = bindE r (\<lambda>(_, s). Inr (i, s))"

partial_function (option) slog :: "log_env \<Rightarrow> nat \<Rightarrow> int \<Rightarrow> string \<Rightarrow> int \<Rightarrow> string \<Rightarrow> log_state \<Rightarrow>
    (int \<times> log_state) res option" where
  [code]: "slog env t level fn line msg s =
     (case fetch_thread_buffer env t s of
        Inl e \<Rightarrow> Some (Inl e)
      | Inr s \<Rightarrow>
          (let msg_buf = take (LOG_BUFFER_MAX_LENGTH - 1) msg; s = s\<lparr> buffers := (buffers s)(t \<mapsto> msg_buf) \<rparr>
           in case file_of level of
                None \<Rightarrow>
                  Option.bind (slog env t SLOG_LEVEL_ERROR ''slog'' 142 ''error slog tag'' s) (\<lambda>r. Some (returning 0 r))
              | Some f \<Rightarrow>
                  (case wrlock env t f s of
                     None \<Rightarrow> None
                   | Some ok \<Rightarrow>
                       if \<not> ok then
                         Option.bind (slog env t SLOG_LEVEL_ERROR ''slog'' (lock_line f)
                           (''pthread_rwlock_wrlock error: '' @ error_text env) s) (\<lambda>r. Some (returning (- 1) r))
                       else
                         (let s = s\<lparr> locked := (locked s)(f \<mapsto> t) \<rparr>
                          in if \<not> can_open env f then
                               Option.bind (slog env t SLOG_LEVEL_ERROR ''slog'' (open_line f) (open_message env f) s)
                                 (\<lambda>r. Some (returning (- 1) r))
                             else Some (Inr (0, s\<lparr> logs := (logs s)(f := logs s f @ [log_line env f fn line msg_buf]),
                               locked := (locked s)(f := None) \<rparr>))))))"

text \<open>
  \<open>slog_init\<close>: the three flags say whether locking the environment, creating the key and unlocking
  succeed. Its result, and whether the environment stays locked and the key exists.
\<close>

definition slog_init :: "bool \<Rightarrow> bool \<Rightarrow> bool \<Rightarrow> int \<times> bool \<times> bool" where
  "slog_init lock_ok key_ok unlock_ok =
     (if \<not> lock_ok then (- 1, False, False)
      else if \<not> key_ok then (- 1, \<not> unlock_ok, False)
      else if \<not> unlock_ok then (- 1, True, True) else (0, False, True))"

text \<open>\<open>slog_clean_thread_key\<close> runs at exit, in the thread that exits the program.\<close>

definition slog_clean_thread_key :: "nat \<Rightarrow> log_state \<Rightarrow> log_state" where
  "slog_clean_thread_key t s = s\<lparr> buffers := (buffers s)(t := None) \<rparr>"

section \<open>Behaviour\<close>

lemmas level_defs = SLOG_LEVEL_DEBUG_def SLOG_LEVEL_INFO_def SLOG_LEVEL_ERROR_def

lemma file_of_error [simp]: "file_of SLOG_LEVEL_ERROR = Some Error_Log"
  by (simp add: file_of_def level_defs)

lemma file_of_inj: "file_of i = Some f \<Longrightarrow> file_of j = Some f \<Longrightarrow> i = j"
  by (auto simp: file_of_def split: if_splits)

lemma fetch_ok: "has_memory env \<Longrightarrow> \<exists>b. fetch_thread_buffer env t s = Inr (s\<lparr> buffers := b \<rparr>)"
  by (cases "buffers s t") (auto simp: fetch_thread_buffer_def intro: exI [of _ "buffers s"])

text \<open>What a call adds to the file of its level, when the file can be opened and its lock is free.\<close>

lemma slog_appends:
  assumes "has_memory env" "file_of level = Some f" "locked s f = None" "can_open env f"
  shows "\<exists>b. slog env t level fn line msg s = Some (Inr (0, s\<lparr> buffers := b,
    logs := (logs s)(f := logs s f @ [log_line env f fn line (take 1023 msg)]) \<rparr>))"
proof -
  obtain b where b: "fetch_thread_buffer env t s = Inr (s\<lparr> buffers := b \<rparr>)" using fetch_ok assms(1) by blast
  have "(locked s)(f := None) = locked s" using assms(3) by auto
  then show ?thesis
    using assms b
    by (intro exI [of _ "b(t \<mapsto> take 1023 msg)"])
      (simp add: slog.simps [of env t level] wrlock_def LOG_BUFFER_MAX_LENGTH_def Let_def)
qed

text \<open>An error that a thread reports while it holds the lock of the error file never returns.\<close>

lemma slog_error_stuck:
  assumes "slog env t level fn line msg s = Some r"
  shows "has_memory env \<longrightarrow> level = SLOG_LEVEL_ERROR \<longrightarrow> locked s Error_Log = None"
  by (rule slog.raw_induct [where P = "\<lambda>env t level fn line msg s r.
      has_memory env \<longrightarrow> level = SLOG_LEVEL_ERROR \<longrightarrow> locked s Error_Log = None", OF _ assms])
    (fastforce simp: fetch_thread_buffer_def wrlock_def Let_def bind_eq_Some_conv
      split: option.splits if_splits sum.splits)

lemma slog_no_file:
  assumes "has_memory env" "file_of level = Some f" "locked s f = None" "\<not> can_open env f"
  shows "\<exists>b. slog env t level fn line msg s = Option.bind
    (slog env t SLOG_LEVEL_ERROR ''slog'' (open_line f) (open_message env f)
      (s\<lparr> buffers := b, locked := (locked s)(f \<mapsto> t) \<rparr>)) (\<lambda>r. Some (returning (- 1) r))"
proof -
  obtain b where b: "fetch_thread_buffer env t s = Inr (s\<lparr> buffers := b \<rparr>)" using fetch_ok assms(1) by blast
  then show ?thesis
    using assms
    by (intro exI [of _ "b(t \<mapsto> take 1023 msg)"])
      (simp add: slog.simps [of env t level] wrlock_def LOG_BUFFER_MAX_LENGTH_def Let_def)
qed

lemma slog_blocked:
  assumes "has_memory env" "file_of level = Some f" "locked s f = Some t" "u \<noteq> t"
  shows "slog env u level fn line msg s = None"
proof -
  obtain b where b: "fetch_thread_buffer env u s = Inr (s\<lparr> buffers := b \<rparr>)" using fetch_ok assms(1) by blast
  then show ?thesis using assms by (simp add: slog.simps [of env u level] wrlock_def Let_def)
qed

lemma slog_error_none:
  "has_memory env \<Longrightarrow> locked s Error_Log \<noteq> None \<Longrightarrow> slog env t SLOG_LEVEL_ERROR fn line msg s = None"
  using slog_error_stuck [of env t SLOG_LEVEL_ERROR fn line msg s] by fastforce

section \<open>Properties\<close>

lemma unopened_error_never_returns:
  assumes "has_memory env" "\<not> can_open env Error_Log"
  shows "slog env t SLOG_LEVEL_ERROR ''slog'' (open_line f) (open_message env f)
    (s\<lparr> buffers := b, locked := [f \<mapsto> t] \<rparr>) = None"
proof (cases "f = Error_Log")
  case True
  then show ?thesis using slog_error_none assms(1) by simp
next
  case ne: False
  obtain c where "slog env t SLOG_LEVEL_ERROR ''slog'' (open_line f) (open_message env f)
      (s\<lparr> buffers := b, locked := [f \<mapsto> t] \<rparr>) = Option.bind
      (slog env t SLOG_LEVEL_ERROR ''slog'' (open_line Error_Log) (open_message env Error_Log)
        (s\<lparr> buffers := c, locked := [f \<mapsto> t, Error_Log \<mapsto> t] \<rparr>)) (\<lambda>r. Some (returning (- 1) r))"
    using slog_no_file [OF assms(1) file_of_error _ assms(2), of "s\<lparr> buffers := b, locked := [f \<mapsto> t] \<rparr>" t
        "''slog''" "open_line f" "open_message env f"] ne by auto
  then show ?thesis using slog_error_none assms(1) by simp
qed

text \<open>
  C33: a call of the log by a thread that has a buffer or can get one, with no lock left over. If the file
  of the level can be opened, exactly one line is appended to it, with at most 1023 characters of the
  message, and every lock is free again. If it cannot, the call reports that in the error file and fails,
  but leaves the lock of its level locked, so that no other thread ever returns from a call with this
  level. And if the error file cannot be opened either, the call itself never returns.
\<close>

theorem log_calls:
  assumes "has_memory env" "file_of level = Some f" "locked s = (\<lambda>_. None)"
  shows "if can_open env f then
      \<exists>b. slog env t level fn line msg s = Some (Inr (0, s\<lparr> buffers := b,
        logs := (logs s)(f := logs s f @ [log_line env f fn line (take 1023 msg)]) \<rparr>))
    else if can_open env Error_Log then
      \<exists>s'. slog env t level fn line msg s = Some (Inr (- 1, s')) \<and>
        logs s' = (logs s)(Error_Log := logs s Error_Log @
          [log_line env Error_Log ''slog'' (open_line f) (take 1023 (open_message env f))]) \<and>
        locked s' = [f \<mapsto> t] \<and>
        (\<forall>u fn' line' msg'. u \<noteq> t \<longrightarrow> slog env u level fn' line' msg' s' = None)
    else slog env t level fn line msg s = None"
proof (cases "can_open env f")
  case True
  then show ?thesis using slog_appends [OF assms(1,2), of s t fn line msg] assms(3) by simp
next
  case False
  obtain b where b: "slog env t level fn line msg s = Option.bind
      (slog env t SLOG_LEVEL_ERROR ''slog'' (open_line f) (open_message env f)
        (s\<lparr> buffers := b, locked := [f \<mapsto> t] \<rparr>)) (\<lambda>r. Some (returning (- 1) r))"
    using slog_no_file [OF assms(1,2) _ False, of s t fn line msg] assms(3) by auto
  show ?thesis
  proof (cases "can_open env Error_Log")
    case True
    then have "f \<noteq> Error_Log" using False by auto
    let ?s = "s\<lparr> buffers := b, locked := [f \<mapsto> t] \<rparr>"
    obtain c where c: "slog env t SLOG_LEVEL_ERROR ''slog'' (open_line f) (open_message env f) ?s =
        Some (Inr (0, ?s\<lparr> buffers := c, logs := (logs ?s)(Error_Log := logs ?s Error_Log @
            [log_line env Error_Log ''slog'' (open_line f) (take 1023 (open_message env f))]) \<rparr>))"
      using slog_appends [OF assms(1) file_of_error, of ?s t "''slog''" "open_line f" "open_message env f"]
        True \<open>f \<noteq> Error_Log\<close> by auto
    show ?thesis
      using False True slog_blocked [OF assms(1,2)] by (simp add: b c returning_def del: log_line.simps)
  next
    assume no: "\<not> can_open env Error_Log"
    then have "slog env t SLOG_LEVEL_ERROR ''slog'' (open_line f) (open_message env f)
        (s\<lparr> buffers := b, locked := [f \<mapsto> t] \<rparr>) = None"
      by (rule unopened_error_never_returns [OF assms(1)])
    then show ?thesis using False no by (simp add: b)
  qed
qed

definition demo_env :: "(log_file \<Rightarrow> bool) \<Rightarrow> log_env" where
  "demo_env op = \<lparr> can_open = op, has_memory = True, detects = True, pid = 7, build_time = ''12:00:00'',
     build_date = ''Jul  8 2018'', error_text = ''Permission denied'' \<rparr>"

definition no_logs :: log_state where
  "no_logs = \<lparr> buffers = \<lambda>_. None, locked = \<lambda>_. None, logs = \<lambda>_. [] \<rparr>"

theorem log_calls_witness:
  "(\<exists>b. slog (demo_env (\<lambda>_. True)) 1 SLOG_LEVEL_INFO ''main'' 20 ''start'' no_logs = Some (Inr (0, no_logs\<lparr> buffers := b,
      logs := (logs no_logs)(Info_Log := [''INFO: start (pid: 7, main: 20, 12:00:00 Jul  8 2018)'' @ [LF]]) \<rparr>))) \<and>
   (\<exists>s'. slog (demo_env (\<lambda>f. f = Error_Log)) 1 SLOG_LEVEL_DEBUG ''main'' 20 ''start'' no_logs = Some (Inr (- 1, s')) \<and>
      slog (demo_env (\<lambda>f. f = Error_Log)) 2 SLOG_LEVEL_DEBUG ''main'' 21 ''again'' s' = None) \<and>
   slog (demo_env (\<lambda>_. False)) 1 SLOG_LEVEL_DEBUG ''main'' 20 ''start'' no_logs = None"
proof -
  have f: "file_of SLOG_LEVEL_INFO = Some Info_Log" "file_of SLOG_LEVEL_DEBUG = Some Debug_Log"
    by (simp_all add: file_of_def level_defs)
  have d: "decimal 7 = ''7''" "decimal 20 = ''20''" by code_simp+
  have e: "log_line (demo_env op) Info_Log ''main'' 20 (take 1023 ''start'') =
      ''INFO: start (pid: 7, main: 20, 12:00:00 Jul  8 2018)'' @ [LF]" for op
    by (simp add: demo_env_def d)
  note log = log_calls [where s = no_logs and t = 1 and fn = "''main''" and line = 20 and msg = "''start''"]
  have "\<exists>b. slog (demo_env (\<lambda>_. True)) 1 SLOG_LEVEL_INFO ''main'' 20 ''start'' no_logs = Some (Inr (0, no_logs\<lparr> buffers := b,
      logs := (logs no_logs)(Info_Log := [''INFO: start (pid: 7, main: 20, 12:00:00 Jul  8 2018)'' @ [LF]]) \<rparr>))"
    using log [OF _ f(1), of "demo_env (\<lambda>_. True)"] unfolding e by (simp add: demo_env_def no_logs_def)
  moreover have "\<exists>s'. slog (demo_env (\<lambda>f. f = Error_Log)) 1 SLOG_LEVEL_DEBUG ''main'' 20 ''start'' no_logs = Some (Inr (- 1, s')) \<and>
      slog (demo_env (\<lambda>f. f = Error_Log)) 2 SLOG_LEVEL_DEBUG ''main'' 21 ''again'' s' = None"
    using log [OF _ f(2), of "demo_env (\<lambda>f. f = Error_Log)"] by (auto simp: demo_env_def no_logs_def)
  moreover have "slog (demo_env (\<lambda>_. False)) 1 SLOG_LEVEL_DEBUG ''main'' 20 ''start'' no_logs = None"
    using log [OF _ f(2), of "demo_env (\<lambda>_. False)"] by (simp add: demo_env_def no_logs_def)
  ultimately show ?thesis by blast
qed


end
