(* ===== verification/ServerMain.thy ===== *)
theory ServerMain
  imports TcpServer ConfigUtil Slog
begin

text \<open>
  src/Main.cc: the program reads its configuration, sets up the log, makes the event loop of the main
  thread and a server named \<open>holy\<close> with three more loops, and starts it. The loop then runs theory
  EventLoop's \<open>loop\<close>; what it does with clients that connect is in theory TcpServer.
\<close>

section \<open>The program\<close>

text \<open>
  \<open>junk\<close> is the memory of the line buffer of the configuration, \<open>ok1\<close> to \<open>ok3\<close> are the results of the
  calls in \<open>slog_init\<close>; \<open>efd\<close> and \<open>lfd\<close> are the descriptors \<open>eventfd\<close> and \<open>socket\<close> return, \<open>w\<close> and
  \<open>a\<close> the memory of the channels for them, \<open>bound\<close> the result of \<open>bind\<close>; \<open>ls\<close> are the loops of the
  other threads. The left result is the code the program exits with.
\<close>

definition server_main :: "(string \<Rightarrow> string option) \<Rightarrow> string \<Rightarrow> bool \<Rightarrow> bool \<Rightarrow> bool \<Rightarrow>
    (http_request \<Rightarrow> http_response \<Rightarrow> http_response) \<Rightarrow> nat \<Rightarrow> int \<Rightarrow> nat \<Rightarrow> tcp_world \<Rightarrow> int \<Rightarrow> bool \<Rightarrow> nat \<Rightarrow>
    (nat \<Rightarrow> loop_state) \<Rightarrow> (nat \<Rightarrow> nat) \<Rightarrow> int list \<Rightarrow>
    (int + conf_map \<times> tcp_server \<times> (nat \<Rightarrow> callbacks)) res" where
  "server_main fopen junk ok1 ok2 ok3 http tid efd w u lfd bound a ls startLoop ns =
     bindE (init fopen junk ''config.conf'' []) (\<lambda>config.
       case config of
         None \<Rightarrow> Inr (Inl 1)
       | Some config \<Rightarrow>
           if fst (slog_init ok1 ok2 ok3) \<noteq> 0 then Inr (Inl 0)
           else bindE (EventLoop tid efd w LoopHandleRead u) (\<lambda>loop.
                bindE (HttpServer_ctor http tid 0 ''holy'' lfd bound a (ls(0 := loop)) ns) (\<lambda>(server, cbs).
                  case server of
                    None \<Rightarrow> Inr (Inl 1)
                  | Some server \<Rightarrow>
                      bindE (setThreadNum 3 server) (\<lambda>server.
                      bindE (server_start tid startLoop False server) (\<lambda>(server, _).
                        Inr (Inr (config, server, cbs)))))))"

lemma init_reads:
  "length junk = LINE_SIZE \<Longrightarrow> init fopen junk p m = Inr (map_option conf_of (fopen ''/root/''))"
  using init_loop_entries by (simp add: init_def conf_of_def split: option.split)

text \<open>When the program ends at once.\<close>

lemma main_exits:
  assumes "length junk = LINE_SIZE"
  shows "fopen ''/root/'' = None \<Longrightarrow>
      server_main fopen junk ok1 ok2 ok3 http tid efd w u lfd bound a ls startLoop ns = Inr (Inl 1)"
    and "fopen ''/root/'' = Some f \<Longrightarrow> \<not> (ok1 \<and> ok2 \<and> ok3) \<Longrightarrow>
      server_main fopen junk ok1 ok2 ok3 http tid efd w u lfd bound a ls startLoop ns = Inr (Inl 0)"
  using assms by (auto simp: server_main_def init_reads slog_init_def)

text \<open>
  The loop a new thread makes for itself (theory EventLoopThread), with a descriptor and memory of its
  own; the clients' sockets and the memory of their connections are new to it.
\<close>

definition thread_loop :: "nat \<Rightarrow> tcp_world \<Rightarrow> int list \<Rightarrow> blocks list \<Rightarrow> loop_state \<Rightarrow> bool" where
  "thread_loop tid u ns ms l \<longleftrightarrow> (\<exists>t efd w. EventLoop t efd w LoopHandleRead u = Inr l \<and> t \<noteq> tid \<and> efd > 0 \<and>
     efd \<notin> set ns \<and> (\<forall>(x, a, rb, wb) \<in> set ms. a \<noteq> w))"

lemma thread_loop_fresh:
  assumes "thread_loop tid u ns ms l" "conns u = (\<lambda>_. None)"
  shows "loop_inv l" "threadId l \<noteq> tid" "pendingFunctor l = []"
    "\<forall>b d. chan l b = Some d \<longrightarrow> fd d \<notin> set ns"
    "\<forall>(x, a, rb, wb) \<in> set ms. chan l a = None \<and> names l x = None"
proof -
  obtain t efd w where e: "EventLoop t efd w LoopHandleRead u = Inr l" "t \<noteq> tid" "efd > 0" "efd \<notin> set ns"
      "\<forall>(x, a, rb, wb) \<in> set ms. a \<noteq> w"
    using assms(1) by (auto simp: thread_loop_def)
  obtain l' where l': "EventLoop t efd w LoopHandleRead u = Inr l'" "loop_inv l'" "threadId l' = t" "world l' = u"
      "pendingFunctor l' = []" "chan l' = [w \<mapsto> changed EnableRead (setReadCB LoopHandleRead (Channel efd))]"
    by (rule EventLoop_new [OF e(3)])
  have l: "l' = l" using l'(1) e(1) by simp
  show "loop_inv l" "threadId l \<noteq> tid" "pendingFunctor l = []" using l' e(2) by (simp_all add: l)
  show "\<forall>b d. chan l b = Some d \<longrightarrow> fd d \<notin> set ns"
    using l'(6) e(4) by (auto simp: l changed_def setReadCB_def Channel_def split: if_splits)
  show "\<forall>(x, a, rb, wb) \<in> set ms. chan l a = None \<and> names l x = None"
    using l'(4,6) e(5) assms(2) by (auto simp: l names_def)
qed

text \<open>What the program has made when it enters its loop.\<close>

lemma main_starts:
  assumes "length junk = LINE_SIZE" "conns u = (\<lambda>_. None)" "efd > 0" "lfd > 0" "lfd \<noteq> efd" "a \<noteq> w"
    "\<forall>i < 3. thread_loop tid u ns ms (ls (startLoop i)) \<and> startLoop i \<noteq> 0"
  obtains s where "\<And>f. fopen ''/root/'' = Some f \<Longrightarrow>
      server_main fopen junk True True True http tid efd w u lfd True a ls startLoop ns = Inr (Inr (conf_of f, s, http_callbacks http))"
    "\<And>f. fopen ''/root/'' = Some f \<Longrightarrow>
      server_main fopen junk True True True http tid efd w u lfd False a ls startLoop ns = Inr (Inl 1)"
    "server_inv s" "on_base_thread tid s" "ring (loop_pool s) = map startLoop [0, 1, 2]" "next_idx (loop_pool s) = 0"
    "connections s = []" "nextConnId s = 1" "accepted s = ns" "poller_at (loops s 0) lfd = (Some a, Some (CReadEvent, a))"
    "\<forall>i < 3. loops s (startLoop i) = ls (startLoop i)"
proof -
  obtain l where l: "EventLoop tid efd w LoopHandleRead u = Inr l" "loop_inv l" "threadId l = tid"
      "chan l = [w \<mapsto> changed EnableRead (setReadCB LoopHandleRead (Channel efd))]"
    by (rule EventLoop_new [OF assms(3)])
  define K where "K = ls(0 := l)"
  have th: "thread_loop tid u ns ms (K (startLoop i))" "startLoop i \<noteq> 0" if "i < 3" for i
    using assms(7) that by (auto simp: K_def)
  have main: "loop_inv (K 0)" "isInLoopThread tid (K 0)" "chan (K 0) a = None"
    "\<forall>c d. chan (K 0) c = Some d \<longrightarrow> fd d \<noteq> lfd"
    using l(2-4) assms(5,6) by (auto simp: K_def isInLoopThread_def changed_def setReadCB_def Channel_def split: if_splits)
  have "\<forall>i < nat 3. loop_inv (K (startLoop i)) \<and> startLoop i \<noteq> 0"
    unfolding nat_numeral using thread_loop_fresh(1) [OF th(1) assms(2)] th(2) by blast
  from server_starts [where nm = "''holy''" and ns = ns and cb = False, OF main(1,2) assms(4) main(3,4) _ this] obtain s0 s1 s calls where
    s: "TcpServer tid 0 ''holy'' lfd False a K ns = Inr None"
      "TcpServer tid 0 ''holy'' lfd True a K ns = Inr (Some s0)" "setThreadNum 3 s0 = Inr s1"
      "server_start tid startLoop False s1 = Inr (s, calls)" "server_inv s" "on_base_thread tid s"
      "ring (loop_pool s) = (if (3 :: int) = 0 then [0] else map startLoop [0..<nat 3])" "next_idx (loop_pool s) = 0" "connections s = []"
      "nextConnId s = 1" "accepted s = ns" "poller_at (loops s 0) lfd = (Some a, Some (CReadEvent, a))"
      "\<forall>L. L \<noteq> 0 \<longrightarrow> loops s L = K L"
    by auto
  have ring: "ring (loop_pool s) = map startLoop [0, 1, 2]" unfolding s(7) by (simp add: upt_rec numeral_2_eq_2)
  show ?thesis
    by (rule that [OF _ _ s(5,6) ring s(8-12)])
      (use l(1) s(1-4,13) assms(7) in \<open>simp_all add: server_main_def init_reads [OF assms(1)] slog_init_def HttpServer_ctor_def K_def\<close>)
qed

text \<open>The clients such a server accepts.\<close>

lemma main_accepts:
  assumes "server_inv s" "on_base_thread tid s" "ring (loop_pool s) = map startLoop [0, 1, 2]" "next_idx (loop_pool s) = 0"
    "connections s = []" "nextConnId s = 1" "accepted s = ns" "\<forall>i < 3. loops s (startLoop i) = ls (startLoop i)"
    "conns u = (\<lambda>_. None)" "\<forall>i < 3. thread_loop tid u ns ms (ls (startLoop i)) \<and> startLoop i \<noteq> 0"
    "length ns = length ms" "distinct ns" "list_all (\<lambda>n. n > 0) ns" "distinct (map fst ms)"
    "distinct (map (\<lambda>(x, a, rb, wb). a) ms)" "int (length ms) < INT_MAX"
  shows "\<exists>s'. accept_all (http_callbacks http) tid ms s = Inr s' \<and> server_inv s' \<and>
    (\<forall>i < length ms. map_of (connections s') (connName s (1 + int i)) = Some (fst (ms ! i)) \<and>
       loop_of s' (fst (ms ! i)) = startLoop (i mod 3)) \<and>
    (\<forall>i < 3. pendingFunctor (loops s' (startLoop i)) = handed (map startLoop [0, 1, 2]) 0 (map fst ms) (startLoop i))"
proof -
  note f = thread_loop_fresh [OF _ assms(9)]
  have th: "thread_loop tid u ns ms (loops s (startLoop i))" if "i < 3" for i using assms(8,10) that by simp
  have "\<exists>i < 3. L = startLoop i" if "L \<in> set (ring (loop_pool s))" for L
    using that by (force simp: assms(3))
  then have "fresh_all s (accepted s) ms"
    unfolding fresh_all_def assms(5,7) using f(4,5) [OF th] assms(5-7,11-16) by fastforce
  from accept_all_spread [OF assms(1,2) _ this _ refl refl, of "http_callbacks http"] http_benign obtain s' where
    s': "accept_all (http_callbacks http) tid ms s = Inr s'" "server_inv s'"
      "\<forall>i < length ms. map_of (connections s') (connName s (1 + int i)) = Some (fst (ms ! i)) \<and>
        loop_of s' (fst (ms ! i)) = map startLoop [0, 1, 2] ! (i mod 3)"
      "\<forall>L. \<not> isInLoopThread tid (loops s L) \<longrightarrow> pendingFunctor (loops s' L) =
        pendingFunctor (loops s L) @ handed (map startLoop [0, 1, 2]) 0 (map fst ms) L"
    using assms(16) by (auto simp: assms(3,4,6))
  have "[0, 1, 2] = [0..<3 :: nat]" by (simp add: upt_rec numeral_2_eq_2)
  then have cyc: "map startLoop [0, 1, 2] ! (i mod 3) = startLoop (i mod 3)" for i :: nat by simp
  have "pendingFunctor (loops s' (startLoop i)) = handed (map startLoop [0, 1, 2]) 0 (map fst ms) (startLoop i)"
    if i: "i < 3" for i
    using f(2,3) [OF th [OF i]] s'(4) by (simp add: isInLoopThread_def)
  then show ?thesis using s'(1,2) s'(3) [unfolded cyc] by blast
qed

text \<open>
  C8: the program. With a configuration that can be read and a log that can be set up it constructs the
  loop and the server, which listens in the main loop, and starts the three io loops; every client that
  then connects is handed to the next of the three, the \<open>i\<close>th to loop \<open>i mod 3\<close>, whose queue gets the
  calls that establish its connections in the order of their arrival. Without the configuration it
  exits with 1, without the log with 0, and with 1 when the port cannot be bound.
\<close>

theorem main_serves:
  assumes "length junk = LINE_SIZE" "conns u = (\<lambda>_. None)" "efd > 0" "lfd > 0" "lfd \<noteq> efd" "a \<noteq> w"
    "\<forall>i < 3. thread_loop tid u ns ms (ls (startLoop i)) \<and> startLoop i \<noteq> 0"
    "length ns = length ms" "distinct ns" "list_all (\<lambda>n. n > 0) ns" "distinct (map fst ms)"
    "distinct (map (\<lambda>(x, a, rb, wb). a) ms)" "int (length ms) < INT_MAX"
  shows "case fopen ''/root/'' of
      None \<Rightarrow> server_main fopen junk ok1 ok2 ok3 http tid efd w u lfd bound a ls startLoop ns = Inr (Inl 1)
    | Some f \<Rightarrow>
        if \<not> (ok1 \<and> ok2 \<and> ok3) then server_main fopen junk ok1 ok2 ok3 http tid efd w u lfd bound a ls startLoop ns = Inr (Inl 0)
        else if \<not> bound then server_main fopen junk ok1 ok2 ok3 http tid efd w u lfd bound a ls startLoop ns = Inr (Inl 1)
        else \<exists>s s'. server_main fopen junk ok1 ok2 ok3 http tid efd w u lfd bound a ls startLoop ns =
              Inr (Inr (conf_of f, s, http_callbacks http)) \<and>
            poller_at (loops s 0) lfd = (Some a, Some (CReadEvent, a)) \<and>
            accept_all (http_callbacks http) tid ms s = Inr s' \<and> server_inv s' \<and>
            (\<forall>i < length ms. map_of (connections s') (connName s (1 + int i)) = Some (fst (ms ! i)) \<and>
               loop_of s' (fst (ms ! i)) = startLoop (i mod 3)) \<and>
            (\<forall>i < 3. pendingFunctor (loops s' (startLoop i)) =
               handed (map startLoop [0, 1, 2]) 0 (map fst ms) (startLoop i))"
proof -
  obtain s where s: "\<And>f. fopen ''/root/'' = Some f \<Longrightarrow>
      server_main fopen junk True True True http tid efd w u lfd True a ls startLoop ns = Inr (Inr (conf_of f, s, http_callbacks http))"
    "\<And>f. fopen ''/root/'' = Some f \<Longrightarrow>
      server_main fopen junk True True True http tid efd w u lfd False a ls startLoop ns = Inr (Inl 1)"
    "server_inv s" "on_base_thread tid s" "ring (loop_pool s) = map startLoop [0, 1, 2]" "next_idx (loop_pool s) = 0"
    "connections s = []" "nextConnId s = 1" "accepted s = ns" "poller_at (loops s 0) lfd = (Some a, Some (CReadEvent, a))"
    "\<forall>i < 3. loops s (startLoop i) = ls (startLoop i)"
    by (rule main_starts [where fopen = fopen and http = http, OF assms(1-7)]) blast
  from main_accepts [OF s(3-9,11) assms(2,7-13), of http] show ?thesis
    using main_exits [OF assms(1)] s(1,2,10) by (auto split: option.split)
qed

definition io_loops :: "nat \<Rightarrow> loop_state" where
  "io_loops L = projr (EventLoop (L + 1) (int L + 20) 8 LoopHandleRead demo_world)"

lemma io_loops_thread: "L \<noteq> 0 \<Longrightarrow> thread_loop 1 demo_world [7, 9] [(30, 40, [], []), (31, 41, [], [])] (io_loops L)"
proof -
  assume "L \<noteq> 0"
  moreover obtain l where "EventLoop (L + 1) (int L + 20) 8 LoopHandleRead demo_world = Inr l"
    by (rule EventLoop_new [of "int L + 20" "L + 1" 8 LoopHandleRead demo_world]) simp
  ultimately show ?thesis
    unfolding thread_loop_def io_loops_def by (intro exI [of _ "L + 1"] exI [of _ "int L + 20"] exI [of _ 8]) simp
qed

theorem main_serves_witness:
  "\<exists>s s'. server_main [''/root/'' \<mapsto> ''a=1''] no_junk True True True (\<lambda>q r. r) 1 4 8 demo_world 3 True 9 io_loops Suc [7, 9] =
      Inr (Inr (conf_of ''a=1'', s, http_callbacks (\<lambda>q r. r))) \<and>
    accept_all (http_callbacks (\<lambda>q r. r)) 1 [(30, 40, [], []), (31, 41, [], [])] s = Inr s' \<and>
    loop_of s' 30 = 1 \<and> loop_of s' 31 = 2 \<and> pendingFunctor (loops s' 2) = [ConnectionEstablished 31]"
proof -
  let ?ms = "[(30, 40, [], []), (31, 41, [], [])] :: blocks list"
  obtain s s' where s: "server_main [''/root/'' \<mapsto> ''a=1''] no_junk True True True (\<lambda>q r. r) 1 4 8 demo_world 3 True 9 io_loops Suc [7, 9] =
      Inr (Inr (conf_of ''a=1'', s, http_callbacks (\<lambda>q r. r)))"
    "accept_all (http_callbacks (\<lambda>q r. r)) 1 ?ms s = Inr s'"
    "\<forall>i < length ?ms. map_of (connections s') (connName s (1 + int i)) = Some (fst (?ms ! i)) \<and>
       loop_of s' (fst (?ms ! i)) = Suc (i mod 3)"
    "\<forall>i < 3. pendingFunctor (loops s' (Suc i)) = handed (map Suc [0, 1, 2]) 0 (map fst ?ms) (Suc i)"
    using main_serves [of no_junk demo_world 4 3 9 8 1 "[7, 9]" ?ms io_loops Suc "[''/root/'' \<mapsto> ''a=1'']"
        True True True "\<lambda>q r. r" True] io_loops_thread
    by (auto simp: no_junk_def demo_world_def INT_MAX_def)
  have "loop_of s' 30 = 1" "loop_of s' 31 = 2" "pendingFunctor (loops s' 2) = [ConnectionEstablished 31]"
    using s(3) [rule_format, of 0] s(3) [rule_format, of 1] s(4) [rule_format, of 1] by (simp_all add: numeral_2_eq_2)
  then show ?thesis using s(1,2) by blast
qed

end
