(* ===== verification/ServerInit.thy ===== *)
theory ServerInit
  imports ConfigUtil
begin

text \<open>
  v0.1/server.cc: \<open>init_server\<close>, which creates the listening socket and the epoll instance from the
  configuration file. Every system call is recorded with the arguments the property is about; what
  the calls return is given. The rest of the file, \<open>main\<close>, is in theory ServerV01.
\<close>

section \<open>System calls\<close>

datatype net_call = Socket | Reuse_Addr | Reuse_Port | Bind int | Listen int | Epoll_Create int

record net_results =
  socket_fd :: int
  bind_ok :: bool
  listen_ok :: bool
  epoll_result :: int

text \<open>\<open>atoi\<close> on a C string, and \<open>htons\<close>, whose argument has 16 bits.\<close>

definition atoi :: "string \<Rightarrow> int" where
  "atoi s = to_int (long_of s)"

definition port_number :: "int \<Rightarrow> int" where
  "port_number i = i mod 65536"

section \<open>init_server\<close>

definition configPath :: string where
  "configPath = ''../config.conf''"

text \<open>
  \<open>junk i\<close> is what the line buffer of the \<open>i\<close>th call of \<open>get_config\<close> holds, \<open>val\<close> the C string the
  array \<open>value\<close> of 20 characters holds at first. A call of \<open>get_config\<close> that does not return ends the
  program: the result is \<open>None\<close>. Otherwise it is the value returned and the calls made. The
  \<open>strcmp\<close> in front of the last look-up has no effect, so \<open>key\<close> is still \<open>BACKLOG\<close>.
\<close>

definition init_server :: "(string \<Rightarrow> string option) \<Rightarrow> (nat \<Rightarrow> string) \<Rightarrow> string \<Rightarrow> net_results \<Rightarrow>
    (int \<times> net_call list) option res" where
  "init_server fopen junk val r =
     (if socket_fd r = - 1 then Inr (Some (- 1, [Socket]))
      else let calls = [Socket, Reuse_Addr, Reuse_Port]; key = ''PORT''
      in bindE (get_config fopen (junk 0) configPath key val 20) (\<lambda>c.
         case c of None \<Rightarrow> Inr None
         | Some (found, val) \<Rightarrow>
             (let calls = calls @ [Bind (port_number (atoi val))]
              in if \<not> bind_ok r then Inr (Some (- 1, calls))
              else let key = ''BACKLOG''
              in bindE (get_config fopen (junk 1) configPath key val 20) (\<lambda>c.
                 case c of None \<Rightarrow> Inr None
                 | Some (found, val) \<Rightarrow>
                     (let calls = calls @ [Listen (atoi val)]
                      in if \<not> listen_ok r then Inr (Some (- 1, calls))
                      else bindE (get_config fopen (junk 2) configPath key val 20) (\<lambda>c.
                           case c of None \<Rightarrow> Inr None
                           | Some (found, val) \<Rightarrow>
                               (let calls = calls @ [Epoll_Create (atoi val)]
                                in Inr (Some (if epoll_result r = - 1 then - 1 else 0, calls)))))))))"

section \<open>Numbers in the file\<close>

lemma decimal_nat_length: "n < 10 ^ k \<Longrightarrow> 0 < k \<Longrightarrow> length (decimal_nat n) \<le> k"
proof (induction n arbitrary: k rule: decimal_nat.induct)
  case (1 n)
  show ?case
  proof (cases "n < 10")
    case True
    then show ?thesis using 1(3) by (simp add: decimal_nat.simps [of n])
  next
    case False
    obtain k' where k: "k = Suc k'" using 1(3) by (cases k) auto
    then have "n div 10 < 10 ^ k'" using 1(2) by (simp add: less_mult_imp_div_less)
    moreover from this have "0 < k'" using False by (cases k') auto
    ultimately show ?thesis
      using 1(1) [OF False, of k'] False by (simp add: decimal_nat.simps [of n] k)
  qed
qed

lemma entry_ok_decimal:
  assumes "k \<noteq> []" "hd k \<noteq> CHR ''#''" "length k \<le> 200" "n < 10 ^ 10"
    "list_all (\<lambda>c. \<not> isblank c \<and> c \<noteq> LF \<and> c \<noteq> NUL \<and> c \<noteq> CHR ''='') k"
  shows "entry_ok (k, decimal_nat n)"
proof -
  have "\<not> isblank c \<and> c \<noteq> LF \<and> c \<noteq> NUL" if "c \<in> set (decimal_nat n)" for c
    using decimal_nat_digits [OF that] by (auto simp: isdigit_def isblank_def)
  moreover have "length (decimal_nat n) \<le> 10" using decimal_nat_length [OF assms(4)] by simp
  ultimately show ?thesis using assms by (simp add: entry_ok_def list_all_iff)
qed

lemma atoi_decimal:
  assumes "int n \<le> INT_MAX"
  shows "atoi (decimal_nat n @ [LF]) = int n"
proof -
  have d: "\<forall>c \<in> set (decimal_nat n). isdigit c" using decimal_nat_digits by blast
  obtain c s where cs: "decimal_nat n = c # s" by (cases "decimal_nat n") auto
  have c: "isdigit c" using d by (simp add: cs)
  have nd: "\<not> isdigit LF" "\<not> isdigit (CHR ''-'')" "\<not> isdigit (CHR ''+'')" "\<not> isdigit SP" "\<not> isdigit TAB"
    "\<not> isdigit (CHR 0x0B)" "\<not> isdigit (CHR 0x0C)" "\<not> isdigit CR"
    by (simp_all add: isdigit_def)
  have "\<not> isspace c" using c nd by (auto simp: isspace_def)
  moreover have "c \<noteq> CHR ''-''" "c \<noteq> CHR ''+''" using c nd by auto
  moreover have "takeWhile isdigit (decimal_nat n @ [LF]) = decimal_nat n"
    using d nd(1) by (simp add: takeWhile_append2)
  ultimately have "long_of (decimal_nat n @ [LF]) = max LONG_MIN (min LONG_MAX (int n))"
    using number_of_decimal_nat [of n] by (simp add: long_of_def cs sign_of_def)
  then have "long_of (decimal_nat n @ [LF]) = int n"
    using assms by (simp add: LONG_MAX_def LONG_MIN_def INT_MAX_def)
  then show ?thesis using assms by (simp add: atoi_def to_int_id INT_MIN_def)
qed

text \<open>What \<open>get_config\<close> reads for a key whose value is a number.\<close>

lemma get_config_number:
  assumes "list_all entry_ok es" "fopen configPath = Some (render es)" "length junk = LINE_SIZE"
    "map_of es key = Some (decimal_nat n)" "int n \<le> INT_MAX"
  shows "get_config fopen junk configPath key val 20 = Inr (Some (True, decimal_nat n @ [LF]))"
proof -
  have "length (decimal_nat n) < 19"
    using decimal_nat_length [of n 10] assms(5) by (simp add: INT_MAX_def)
  then have "config_loop junk (render es) key 20 = Inr (Some (decimal_nat n @ [LF]))"
    using config_loop_values [OF assms(3), where h = 0 and f = "render es" and key = key and cap = 20]
      lines_ok_conf [OF assms(1), of 0] lines_value_conf [OF assms(1), of key 20] assms(4)
    by (simp add: file_lines_render [OF assms(1)] blank_at_def)
  then show ?thesis by (simp add: get_config_def assms(2))
qed

section \<open>Property\<close>

text \<open>
  With a configuration file that sets \<open>PORT\<close> and \<open>BACKLOG\<close> in lines of the form \<open>KEY = VALUE\<close>,
  \<open>init_server\<close> binds and listens with these numbers; but it creates the epoll instance with the
  value of \<open>BACKLOG\<close>, whatever the file says of \<open>MAX_EPOLL\<close>.
\<close>

lemma init_server_uses_backlog_twice:
  assumes "list_all entry_ok es" "fopen configPath = Some (render es)" "\<And>i. length (junk i) = LINE_SIZE"
    "map_of es ''PORT'' = Some (decimal_nat p)" "p < 65536"
    "map_of es ''BACKLOG'' = Some (decimal_nat b)" "int b \<le> INT_MAX"
    "socket_fd r \<noteq> - 1" "bind_ok r" "listen_ok r" "epoll_result r \<noteq> - 1"
  shows "init_server fopen junk val r =
    Inr (Some (0, [Socket, Reuse_Addr, Reuse_Port, Bind (int p), Listen (int b), Epoll_Create (int b)]))"
proof -
  note get = get_config_number [where fopen = fopen, OF assms(1,2,3)]
  have p: "int p \<le> INT_MAX" using assms(5) by (simp add: INT_MAX_def)
  have "port_number (int p) = int p" using assms(5) by (simp add: port_number_def)
  then show ?thesis
    using get [OF assms(4) p] get [OF assms(6,7)] assms(8-11) atoi_decimal [OF p] atoi_decimal [OF assms(7)]
    by (simp add: init_server_def)
qed

lemma init_server_uses_backlog_twice_witness:
  "init_server [configPath \<mapsto> render [(''PORT'', decimal_nat 9000), (''BACKLOG'', decimal_nat 4096),
        (''MAX_EPOLL'', decimal_nat 65536)]] (\<lambda>i. no_junk) ''''
      \<lparr> socket_fd = 3, bind_ok = True, listen_ok = True, epoll_result = 4 \<rparr> =
    Inr (Some (0, [Socket, Reuse_Addr, Reuse_Port, Bind 9000, Listen 4096, Epoll_Create 4096]))"
proof -
  let ?es = "[(''PORT'', decimal_nat 9000), (''BACKLOG'', decimal_nat 4096), (''MAX_EPOLL'', decimal_nat 65536)]"
  have "list_all entry_ok ?es" by (simp add: entry_ok_decimal isblank_def)
  then show ?thesis
    using init_server_uses_backlog_twice [of ?es "[configPath \<mapsto> render ?es]" "\<lambda>i. no_junk" 9000 4096
        "\<lparr> socket_fd = 3, bind_ok = True, listen_ok = True, epoll_result = 4 \<rparr>" "''''"]
    by (simp add: no_junk_def INT_MAX_def)
qed

end
