(* ===== verification/JobQueue.thy ===== *)
theory JobQueue
  imports Interfaces
begin

text \<open>
  The job queue of v0.1/thread_pool.h and v0.1/thread_pool.cc: a doubly linked list of jobs in
  the heap, with a counter and the semaphore that counts the jobs the workers have not been woken
  up for. Jobs are added at the head and taken from the tail. The functions work on the pool's
  queue object and on the store of the jobs.
\<close>

section \<open>Data\<close>

text \<open>\<open>func\<close> and \<open>jarg\<close> (the fields \<open>function\<close> and \<open>arg\<close>) are opaque to the queue;
  \<open>nxt\<close> is the field \<open>next\<close>.\<close>

record thread_job =
  func :: nat
  jarg :: nat
  prev :: ptr
  nxt :: ptr

record job_queue =
  number :: nat
  queueSem :: nat
  head :: ptr
  tail :: ptr
  jobs :: "thread_job store"

section \<open>Operations\<close>

text \<open>
  \<open>threadPool_jobQueue_init\<close> followed by the \<open>sem_init(queueSem, 0, 0)\<close> of \<open>threadPool_init\<close>;
  \<open>alloc\<close> says whether \<open>malloc\<close> succeeded, and the result is -1 otherwise.
\<close>

definition threadPool_jobQueue_init :: "thread_job store \<Rightarrow> bool \<Rightarrow> int \<times> job_queue option" where
  "threadPool_jobQueue_init m alloc =
     (if \<not> alloc then (-1, None)
      else (0, Some \<lparr> number = 0, queueSem = 0, head = Null, tail = Null, jobs = m \<rparr>))"

definition threadPool_jobQueue_add :: "job_queue \<Rightarrow> ptr \<Rightarrow> job_queue res" where
  "threadPool_jobQueue_add q newJob =
     bindE (modify (jobs q) newJob (\<lambda>j. j\<lparr> nxt := Null, prev := Null \<rparr>)) (\<lambda>m.
     bindE (if number q = 0 then Inr (q\<lparr> head := newJob, tail := newJob, jobs := m \<rparr>)
            else
              bindE (modify m newJob (\<lambda>j. j\<lparr> nxt := head q \<rparr>)) (\<lambda>m.
              bindE (modify m (head q) (\<lambda>j. j\<lparr> prev := newJob \<rparr>)) (\<lambda>m.
                Inr (q\<lparr> head := newJob, jobs := m \<rparr>)))) (\<lambda>q.
       Inr (q\<lparr> number := number q + 1, queueSem := queueSem q + 1 \<rparr>)))"

definition threadPool_jobQueue_removeLast :: "job_queue \<Rightarrow> (int \<times> job_queue) res" where
  "threadPool_jobQueue_removeLast q =
     (let lastJob = tail q in
      if number q = 0 then Inr (-1, q)
      else bindE (if number q = 1 then Inr (q\<lparr> head := Null, tail := Null \<rparr>)
                  else bindE (deref (jobs q) lastJob) (\<lambda>j.
                    bindE (modify (jobs q) (prev j) (\<lambda>k. k\<lparr> nxt := Null \<rparr>)) (\<lambda>m.
                      Inr (q\<lparr> tail := prev j, jobs := m \<rparr>)))) (\<lambda>q.
             Inr (0, q\<lparr> number := number q - 1 \<rparr>)))"

definition threadPool_jobQueue_peek :: "job_queue \<Rightarrow> ptr" where
  "threadPool_jobQueue_peek q = tail q"

text \<open>The loop of \<open>threadPool_jobQueue_empty\<close>: free the jobs from the tail on, \<open>number\<close> times.\<close>

fun empty_loop :: "thread_job store \<Rightarrow> ptr \<Rightarrow> nat \<Rightarrow> (thread_job store) res" where
  "empty_loop m curJob 0 = Inr m"
| "empty_loop m curJob (Suc n) =
     bindE (deref m curJob) (\<lambda>j. bindE (free m curJob) (\<lambda>m. empty_loop m (prev j) n))"

definition threadPool_jobQueue_empty :: "job_queue \<Rightarrow> job_queue res" where
  "threadPool_jobQueue_empty q =
     bindE (empty_loop (jobs q) (tail q) (number q)) (\<lambda>m.
       Inr (q\<lparr> number := 0, head := Null, tail := Null, jobs := m \<rparr>))"

text \<open>
  \<open>threadPool_add_work\<close>: \<open>newJob\<close> is what \<open>malloc\<close> returned; the code does not check it, and
  stores \<open>function\<close> and \<open>arg\<close> before it takes the mutex. The other two fields are not set yet.
\<close>

definition threadPool_add_work :: "job_queue \<Rightarrow> ptr \<Rightarrow> nat \<Rightarrow> nat \<Rightarrow> job_queue res" where
  "threadPool_add_work q newJob f a =
     (case newJob of
        Ptr x \<Rightarrow> threadPool_jobQueue_add
          (q\<lparr> jobs := (jobs q)(x \<mapsto> \<lparr> func = f, jarg = a, prev = Indet, nxt = Indet \<rparr>) \<rparr>) newJob
      | Null \<Rightarrow> Inl Null_Deref | Indet \<Rightarrow> Inl Uninit_Read)"

section \<open>The list a queue stands for\<close>

text \<open>
  \<open>dlseg m p xs n\<close>: the addresses \<open>xs\<close> form a doubly linked chain in \<open>m\<close>, whose first job has \<open>p\<close>
  as its \<open>prev\<close> and whose last job has \<open>n\<close> as its \<open>next\<close>.
\<close>

fun dlseg :: "thread_job store \<Rightarrow> ptr \<Rightarrow> nat list \<Rightarrow> ptr \<Rightarrow> bool" where
  "dlseg m p [] n = True"
| "dlseg m p (x # xs) n =
     ((case m x of None \<Rightarrow> False
       | Some j \<Rightarrow> prev j = p \<and> nxt j = (if xs = [] then n else Ptr (hd xs))) \<and>
      dlseg m (Ptr x) xs n)"

definition first_ptr :: "nat list \<Rightarrow> ptr" where
  "first_ptr xs = (if xs = [] then Null else Ptr (hd xs))"

definition last_ptr :: "nat list \<Rightarrow> ptr" where
  "last_ptr xs = (if xs = [] then Null else Ptr (last xs))"

definition represents :: "job_queue \<Rightarrow> nat list \<Rightarrow> bool" where
  "represents q xs \<longleftrightarrow> dlseg (jobs q) Null xs Null \<and> head q = first_ptr xs \<and>
     tail q = last_ptr xs \<and> number q = length xs \<and> distinct xs"

text \<open>The list itself, by following \<open>next\<close> from the head \<open>number\<close> times.\<close>

fun walk :: "thread_job store \<Rightarrow> ptr \<Rightarrow> nat \<Rightarrow> nat list" where
  "walk m p 0 = []"
| "walk m p (Suc k) = (case p of
     Ptr x \<Rightarrow> x # (case m x of None \<Rightarrow> [] | Some j \<Rightarrow> walk m (nxt j) k) | _ \<Rightarrow> [])"

definition queued :: "job_queue \<Rightarrow> nat list" where
  "queued q = rev (walk (jobs q) (head q) (number q))"

definition jq_wf :: "job_queue \<Rightarrow> bool" where
  "jq_wf q = represents q (rev (queued q))"

definition payload :: "thread_job store \<Rightarrow> nat \<Rightarrow> (nat \<times> nat) option" where
  "payload m x = map_option (\<lambda>j. (func j, jarg j)) (m x)"

lemma walk_dlseg: "dlseg m p xs Null \<Longrightarrow> walk m (first_ptr xs) (length xs) = xs"
proof (induction xs arbitrary: p)
  case (Cons x xs)
  then show ?case
    by (cases xs) (auto simp: first_ptr_def split: option.splits)
qed simp

lemma represents_queued: "represents q xs \<Longrightarrow> queued q = rev xs"
  by (auto simp: represents_def queued_def walk_dlseg)

lemma represents_wf: "represents q xs \<Longrightarrow> jq_wf q"
  by (simp add: jq_wf_def represents_queued)

lemma jq_wfD: "jq_wf q \<Longrightarrow> represents q (rev (queued q))"
  by (simp add: jq_wf_def)

lemma dlseg_upd [simp]: "x \<notin> set xs \<Longrightarrow> dlseg (m(x := v)) p xs n = dlseg m p xs n"
  by (induction xs arbitrary: p) auto

lemma dlseg_append:
  "dlseg m p (xs @ ys) n \<longleftrightarrow>
     dlseg m p xs (if ys = [] then n else Ptr (hd ys)) \<and>
     dlseg m (if xs = [] then p else Ptr (last xs)) ys n"
  by (induction xs arbitrary: p) (auto split: option.splits)

lemma dlseg_live: "dlseg m p xs n \<Longrightarrow> x \<in> set xs \<Longrightarrow> m x \<noteq> None"
  by (induction xs arbitrary: p) (auto split: option.splits)

section \<open>Correctness of the operations\<close>

lemma jobQueue_add_correct:
  assumes rep: "represents q xs" and x: "x \<notin> set xs" "jobs q x = Some j"
  shows "\<exists>q'. threadPool_jobQueue_add q (Ptr x) = Inr q' \<and> represents q' (x # xs) \<and>
    queueSem q' = queueSem q + 1 \<and> payload (jobs q') = payload (jobs q) \<and> dom (jobs q') = dom (jobs q)"
proof (cases xs)
  case Nil
  then show ?thesis
    using rep x
    by (auto simp: threadPool_jobQueue_add_def represents_def first_ptr_def last_ptr_def
        payload_def fun_eq_iff)
next
  case (Cons y ys)
  then obtain k where k: "jobs q y = Some k" "prev k = Null" "y \<noteq> x" "y \<notin> set ys" "x \<notin> set ys"
      "dlseg (jobs q) (Ptr y) ys Null" "nxt k = (if ys = [] then Null else Ptr (hd ys))"
    using rep x(1) by (auto simp: represents_def split: option.splits)
  then show ?thesis
    using rep x Cons
    by (auto simp: threadPool_jobQueue_add_def represents_def first_ptr_def last_ptr_def
        payload_def fun_eq_iff)
qed

lemma removeLast_correct:
  assumes rep: "represents q (xs @ [x])"
  shows "\<exists>q'. threadPool_jobQueue_removeLast q = Inr (0, q') \<and> represents q' xs \<and>
    queueSem q' = queueSem q \<and> payload (jobs q') = payload (jobs q) \<and> dom (jobs q') = dom (jobs q)"
proof (cases xs rule: rev_cases)
  case Nil
  then show ?thesis
    using rep
    by (simp add: threadPool_jobQueue_removeLast_def represents_def first_ptr_def last_ptr_def)
next
  case (snoc ys y)
  have seg: "dlseg (jobs q) Null (ys @ [y]) (Ptr x)" "dlseg (jobs q) (Ptr y) [x] Null"
      "y \<noteq> x" "y \<notin> set ys" "tail q = Ptr x" "number q = Suc (Suc (length ys))"
    using rep snoc by (auto simp: represents_def dlseg_append last_ptr_def split: option.splits)
  obtain j where j: "jobs q x = Some j" "prev j = Ptr y"
    using seg(2) by (auto split: option.splits)
  obtain k where k: "jobs q y = Some k" "dlseg (jobs q) Null ys (Ptr y)"
      "prev k = (if ys = [] then Null else Ptr (last ys))"
    using seg(1) by (auto simp: dlseg_append split: option.splits)
  let ?q = "q\<lparr> tail := Ptr y, jobs := (jobs q)(y \<mapsto> k\<lparr> nxt := Null \<rparr>), number := number q - 1 \<rparr>"
  have "threadPool_jobQueue_removeLast q = Inr (0, ?q)"
    using seg j k by (simp add: threadPool_jobQueue_removeLast_def)
  moreover have "represents ?q xs"
    using rep snoc seg k
    by (auto simp: represents_def dlseg_append first_ptr_def last_ptr_def hd_append)
  ultimately show ?thesis
    using k(1) by (auto simp: payload_def fun_eq_iff)
qed

lemma empty_loop_correct:
  "dlseg m Null xs n \<Longrightarrow> distinct xs \<Longrightarrow>
   empty_loop m (last_ptr xs) (length xs) = Inr (m |` (- set xs))"
proof (induction xs arbitrary: m n rule: rev_induct)
  case Nil
  then show ?case by (simp add: last_ptr_def)
next
  case (snoc x xs)
  then obtain j where j: "m x = Some j" "prev j = (if xs = [] then Null else Ptr (last xs))"
      "dlseg m Null xs (Ptr x)" "x \<notin> set xs"
    by (auto simp: dlseg_append split: option.splits)
  have "empty_loop (m(x := None)) (last_ptr xs) (length xs) = Inr ((m(x := None)) |` (- set xs))"
  proof (rule snoc.IH)
    show "dlseg (m(x := None)) Null xs (Ptr x)" unfolding dlseg_upd [OF j(4)] by (rule j(3))
    show "distinct xs" using snoc.prems(2) by simp
  qed
  moreover have "(m(x := None)) |` (- set xs) = m |` (- set (xs @ [x]))"
    by (auto simp: restrict_map_def fun_eq_iff)
  moreover have "prev j = last_ptr xs" using j(2) by (simp add: last_ptr_def)
  ultimately show ?case using j(1) by (simp add: last_ptr_def)
qed

section \<open>First in, first out\<close>

text \<open>
  The worker reads the job \<open>peek\<close> returns and then calls \<open>removeLast\<close>, whose result -1 makes it
  return.
\<close>

definition front_job :: "job_queue \<Rightarrow> nat res" where
  "front_job q = (case threadPool_jobQueue_peek q of
     Ptr x \<Rightarrow> bindE (deref (jobs q) (Ptr x)) (\<lambda>_. Inr x) | Null \<Rightarrow> Inl Null_Deref | Indet \<Rightarrow> Inl Uninit_Read)"

definition remove_job :: "job_queue \<Rightarrow> job_queue res" where
  "remove_job q = bindE (threadPool_jobQueue_removeLast q) (\<lambda>(r, q).
     bindE (assertE (r = 0)) (\<lambda>_. Inr q))"

definition addable :: "job_queue \<Rightarrow> nat list \<Rightarrow> bool" where
  "addable q xs \<longleftrightarrow> distinct xs \<and> (\<forall>x \<in> set xs. jobs q x \<noteq> None \<and> x \<notin> set (queued q))"

interpretation job_fifo: fifo_queue jq_wf queued addable
  "\<lambda>x q. threadPool_jobQueue_add q (Ptr x)" front_job remove_job
proof unfold_locales
  fix q x xs assume q: "jq_wf q" and x: "addable q (x # xs)"
  obtain j where "jobs q x = Some j" "x \<notin> set (rev (queued q))"
    using x by (auto simp: addable_def)
  from jobQueue_add_correct [OF jq_wfD [OF q] this(2,1)]
  obtain q' where q': "threadPool_jobQueue_add q (Ptr x) = Inr q'"
      "represents q' (x # rev (queued q))" "dom (jobs q') = dom (jobs q)"
    by blast
  have "queued q' = queued q @ [x]" using represents_queued [OF q'(2)] by simp
  moreover have "addable q' xs"
    using x q'(3) calculation by (auto simp: addable_def)
  ultimately show "\<exists>q'. threadPool_jobQueue_add q (Ptr x) = Inr q' \<and> jq_wf q' \<and>
      queued q' = queued q @ [x] \<and> addable q' xs"
    using q'(1) represents_wf [OF q'(2)] by blast
next
  fix q x l assume q: "jq_wf q" and l: "queued q = x # l"
  have rep: "represents q (rev l @ [x])" using jq_wfD [OF q] l by simp
  then have "jobs q x \<noteq> None" using dlseg_live [of "jobs q" Null "rev l @ [x]" Null x]
    by (simp add: represents_def)
  then show "front_job q = Inr x"
    using rep by (auto simp: front_job_def threadPool_jobQueue_peek_def represents_def last_ptr_def)
  obtain q' where q': "threadPool_jobQueue_removeLast q = Inr (0, q')" "represents q' (rev l)"
      "dom (jobs q') = dom (jobs q)"
    using removeLast_correct [OF rep] by blast
  have c: "queued q' = l" using represents_queued [OF q'(2)] by simp
  moreover have "\<forall>es. addable q es \<longrightarrow> addable q' es"
    using q'(3) c l by (auto simp: addable_def)
  ultimately show "\<exists>q'. remove_job q = Inr q' \<and> jq_wf q' \<and> queued q' = l \<and>
      (\<forall>es. addable q es \<longrightarrow> addable q' es)"
    using q'(1) represents_wf [OF q'(2)] by (auto simp: remove_job_def)
qed

section \<open>Properties\<close>

text \<open>
  C29: the linked list is a first-in first-out queue: any sequence of additions and removals gives,
  job for job, what the same sequence gives on a list to which one adds at the end and from which
  one takes at the front. No null or dangling pointer is followed.
\<close>

theorem job_queue_fifo:
  assumes "jq_wf q" "addable q (enqueued ops)" "list_ops ops (queued q) = Some (out, l)"
  shows "\<exists>q'. run_ops (\<lambda>x q. threadPool_jobQueue_add q (Ptr x)) front_job remove_job ops q =
    Inr (out, q') \<and> jq_wf q' \<and> queued q' = l"
  using job_fifo.run_ok [OF assms] .

definition fresh_queue :: job_queue where
  "fresh_queue = \<lparr> number = 0, queueSem = 0, head = Null, tail = Null,
     jobs = [1 \<mapsto> \<lparr> func = 5, jarg = 6, prev = Indet, nxt = Indet \<rparr>,
             2 \<mapsto> \<lparr> func = 5, jarg = 7, prev = Indet, nxt = Indet \<rparr>] \<rparr>"

lemma fresh_queue_wf: "jq_wf fresh_queue" "queued fresh_queue = []"
  by (simp_all add: jq_wf_def queued_def fresh_queue_def represents_def first_ptr_def last_ptr_def)

theorem job_queue_fifo_witness:
  "\<exists>q'. run_ops (\<lambda>x q. threadPool_jobQueue_add q (Ptr x)) front_job remove_job
      [Enq 1, Enq 2, Deq] fresh_queue = Inr ([1], q') \<and> jq_wf q' \<and> queued q' = [2]"
proof (rule job_queue_fifo [OF fresh_queue_wf(1)])
  show "addable fresh_queue (enqueued [Enq 1, Enq 2, Deq])"
    by (simp add: addable_def fresh_queue_wf) (simp add: fresh_queue_def)
  show "list_ops [Enq 1, Enq 2, Deq] (queued fresh_queue) = Some ([1], [2])"
    by (simp add: fresh_queue_wf)
qed

text \<open>
  \<open>threadPool_add_work\<close> with a block \<open>malloc\<close> returned puts the work behind all queued work,
  counts it in \<open>number\<close> and in the semaphore, and changes the function and argument of no other
  job.
\<close>

lemma add_work_appends:
  assumes "jq_wf q" "jobs q x = None"
  shows "\<exists>q'. threadPool_add_work q (Ptr x) f a = Inr q' \<and> jq_wf q' \<and> queued q' = queued q @ [x] \<and>
    number q' = number q + 1 \<and> queueSem q' = queueSem q + 1 \<and>
    payload (jobs q') = (payload (jobs q))(x \<mapsto> (f, a))"
proof -
  let ?q = "q\<lparr> jobs := (jobs q)(x \<mapsto> \<lparr> func = f, jarg = a, prev = Indet, nxt = Indet \<rparr>) \<rparr>"
  have rep: "represents q (rev (queued q))" using jq_wfD [OF assms(1)] .
  have x: "x \<notin> set (rev (queued q))"
    using dlseg_live [of "jobs q" Null "rev (queued q)" Null x] rep assms(2)
    by (auto simp: represents_def)
  then have "represents ?q (rev (queued q))" using rep by (simp add: represents_def)
  from jobQueue_add_correct [OF this x]
  obtain q' where q': "threadPool_jobQueue_add ?q (Ptr x) = Inr q'"
      "represents q' (x # rev (queued q))" "queueSem q' = queueSem q + 1"
      "payload (jobs q') = payload (jobs ?q)"
    by auto
  have "payload (jobs ?q) = (payload (jobs q))(x \<mapsto> (f, a))"
    by (auto simp: payload_def fun_eq_iff)
  moreover have "number q' = number q + 1"
    using q'(2) rep by (simp add: represents_def)
  ultimately show ?thesis
    using q' represents_wf [OF q'(2)] represents_queued [OF q'(2)]
    by (simp add: threadPool_add_work_def)
qed

lemma add_work_appends_witness:
  "\<exists>q'. threadPool_add_work fresh_queue (Ptr 3) 8 9 = Inr q' \<and> jq_wf q' \<and>
    queued q' = queued fresh_queue @ [3] \<and> number q' = number fresh_queue + 1 \<and>
    queueSem q' = queueSem fresh_queue + 1 \<and>
    payload (jobs q') = (payload (jobs fresh_queue))(3 \<mapsto> (8, 9))"
  by (rule add_work_appends [OF fresh_queue_wf(1)]) (simp add: fresh_queue_def)

text \<open>
  \<open>threadPool_jobQueue_empty\<close> frees every queued job exactly once and nothing else, and leaves
  an empty queue.
\<close>

lemma jobQueue_empty_frees_all:
  assumes "jq_wf q"
  shows "\<exists>q'. threadPool_jobQueue_empty q = Inr q' \<and> jq_wf q' \<and> queued q' = [] \<and>
    jobs q' = jobs q |` (- set (queued q))"
proof -
  have rep: "represents q (rev (queued q))" using jq_wfD [OF assms] .
  then have "empty_loop (jobs q) (tail q) (number q) = Inr (jobs q |` (- set (rev (queued q))))"
    using empty_loop_correct [of "jobs q" "rev (queued q)" Null] by (simp add: represents_def)
  then show ?thesis
    by (simp add: threadPool_jobQueue_empty_def jq_wf_def queued_def represents_def
        first_ptr_def last_ptr_def)
qed

definition two_queued :: job_queue where
  "two_queued = \<lparr> number = 2, queueSem = 2, head = Ptr 2, tail = Ptr 1,
     jobs = [1 \<mapsto> \<lparr> func = 5, jarg = 6, prev = Ptr 2, nxt = Null \<rparr>,
             2 \<mapsto> \<lparr> func = 5, jarg = 7, prev = Null, nxt = Ptr 1 \<rparr>,
             3 \<mapsto> \<lparr> func = 5, jarg = 8, prev = Indet, nxt = Indet \<rparr>] \<rparr>"

lemma two_queued_wf: "jq_wf two_queued" "queued two_queued = [1, 2]"
  by (simp_all add: jq_wf_def queued_def two_queued_def represents_def first_ptr_def last_ptr_def
      numeral_2_eq_2)

lemma jobQueue_empty_frees_all_witness:
  "\<exists>q'. threadPool_jobQueue_empty two_queued = Inr q' \<and> jq_wf q' \<and> queued q' = [] \<and>
    jobs q' = jobs two_queued |` (- set (queued two_queued))"
  by (rule jobQueue_empty_frees_all [OF two_queued_wf(1)])

end
