(* ===== verification/Reactor.thy ===== *)
theory Reactor
  imports JobQueue CommonUtil
begin

text \<open>
  v0.1/reactor.h, v0.1/reactor.cc and the structures of v0.1/eventhandler.h: the table of event
  handlers around one epoll instance, and the turn of the event loop that hands ready descriptors
  to the worker threads. The handlers and the messages are heap objects; the jobs go into the queue
  of theory JobQueue. The mutex around the table makes every access atomic. Log lines are left out.
\<close>

section \<open>Data\<close>

text \<open>\<open>handle_event\<close> is the address of a function, 0 for \<open>NULL\<close>; the back pointer
  \<open>reactor\<close> of a handler is left out.\<close>

record event_handler =
  fd :: int
  httpConn :: ptr
  handle_event :: nat

record handle_event_msg =
  e :: "32 word"
  eh :: ptr

definition MAX_USER :: nat where
  "MAX_USER = 65530"

text \<open>The core and the pool are reached by pointers that never change, and are part of the record.\<close>

record reactor = fd_world +
  current_idx :: nat
  ehs :: "ptr list"
  handlers :: "event_handler store"
  msgs :: "handle_event_msg store"
  threadPool :: job_queue

section \<open>Operations\<close>

text \<open>
  \<open>malloc\<close> leaves whatever was in the memory of the array, here \<open>fill\<close>; only the first slot is set.
\<close>

definition create_reactor :: "fd_world \<Rightarrow> event_handler store \<Rightarrow> handle_event_msg store \<Rightarrow> job_queue \<Rightarrow>
    ptr \<Rightarrow> reactor" where
  "create_reactor w hm mm pool fill = \<lparr> interests = interests w, nonblock = nonblock w,
     open_fds = open_fds w, current_idx = 0, ehs = (replicate (MAX_USER - 1) fill)[0 := Null],
     handlers = hm, msgs = mm, threadPool = pool \<rparr>"

function find_loop :: "reactor \<Rightarrow> int \<Rightarrow> nat \<Rightarrow> ((ptr \<times> nat) option) res" where
  "find_loop core n i =
     (if i < current_idx core then
        bindE (rd (ehs core) i) (\<lambda>tmp.
          if tmp = Null then find_loop core n (i + 1)
          else bindE (deref (handlers core) tmp) (\<lambda>h.
            if fd h = n then Inr (Some (tmp, i)) else find_loop core n (i + 1)))
      else Inr None)"
  by pat_completeness auto

termination
  by (relation "measure (\<lambda>(core, n, i). current_idx core - i)") auto

declare find_loop.simps [simp del]

text \<open>The handler and its \<open>index\<close>, or the null pointer.\<close>

definition find_eh :: "reactor \<Rightarrow> int \<Rightarrow> ((ptr \<times> nat) option) res" where
  "find_eh core n = find_loop core n 0"

definition add_eh :: "reactor \<Rightarrow> ptr \<Rightarrow> (int \<times> reactor) res" where
  "add_eh r p =
     bindE (if p = Null then Inr (- 1)
            else bindE (deref (handlers r) p) (\<lambda>h.
              Inr (if fd h < 0 \<or> handle_event h = 0 then - 1 else 0))) (\<lambda>result.
       if current_idx r < MAX_USER then
         bindE (deref (handlers r) p) (\<lambda>h.
           let r = addFd (fd h) True r
           in bindE (wr (ehs r) (current_idx r) p) (\<lambda>a.
                Inr (result, r\<lparr> ehs := a, current_idx := current_idx r + 1 \<rparr>)))
       else Inr (- 1, r))"

text \<open>The result is \<open>None\<close> where the function ends without a \<open>return\<close>.\<close>

definition rm_eh :: "reactor \<Rightarrow> int \<Rightarrow> (int option \<times> reactor) res" where
  "rm_eh r n =
     bindE (find_eh r n) (\<lambda>found.
       case found of
         None \<Rightarrow> Inr (Some (- 1), r)
       | Some (p, position) \<Rightarrow>
           if position \<ge> current_idx r then Inr (Some (- 2), r)
           else bindE (rd (ehs r) (current_idx r)) (\<lambda>last_eh.
                bindE (wr (ehs r) position last_eh) (\<lambda>a.
                  let r = removeFd n (r\<lparr> ehs := a, current_idx := current_idx r - 1 \<rparr>)
                  in bindE (free (handlers r) p) (\<lambda>m. Inr (None, r\<lparr> handlers := m \<rparr>)))))"

text \<open>
  One event that \<open>epoll_wait\<close> reports, with the two blocks \<open>malloc\<close> returns for its message and, in
  \<open>threadPool_add_work\<close>, for its job.
\<close>

definition dispatch_event :: "reactor \<Rightarrow> 32 word \<Rightarrow> int \<Rightarrow> ptr \<Rightarrow> ptr \<Rightarrow> reactor res" where
  "dispatch_event r ev n msg job =
     (if ev AND EPOLLRDHUP \<noteq> 0 then Inr r
      else bindE (find_eh r n) (\<lambda>found.
        case found of
          None \<Rightarrow> Inr r
        | Some (p, i) \<Rightarrow>
            (case msg of
               Ptr m \<Rightarrow>
                 bindE (deref (handlers r) p) (\<lambda>h.
                 bindE (threadPool_add_work (threadPool r) job (handle_event h) m) (\<lambda>q.
                   Inr (r\<lparr> msgs := (msgs r)(m \<mapsto> \<lparr> e = ev, eh = p \<rparr>), threadPool := q \<rparr>)))
             | Null \<Rightarrow> Inl Null_Deref | Indet \<Rightarrow> Inl Uninit_Read)))"

text \<open>The \<open>for\<close> loop of \<open>event_loop\<close> after one \<open>epoll_wait\<close>.\<close>

fun event_turn :: "reactor \<Rightarrow> ((32 word \<times> int) \<times> ptr \<times> ptr) list \<Rightarrow> reactor res" where
  "event_turn r [] = Inr r"
| "event_turn r (((ev, n), msg, job) # ees) =
     bindE (dispatch_event r ev n msg job) (\<lambda>r. event_turn r ees)"

fun event_turns :: "reactor \<Rightarrow> ((32 word \<times> int) \<times> ptr \<times> ptr) list list \<Rightarrow> reactor res" where
  "event_turns r [] = Inr r"
| "event_turns r (ees # rest) = bindE (event_turn r ees) (\<lambda>r. event_turns r rest)"

section \<open>The table\<close>

text \<open>
  \<open>holds r xs\<close>: the table holds the handlers at the addresses \<open>xs\<close>, in this order, each for a
  descriptor of its own that is registered with the kernel.
\<close>

definition eh_ok :: "reactor \<Rightarrow> nat \<Rightarrow> bool" where
  "eh_ok r x \<longleftrightarrow> (case handlers r x of None \<Rightarrow> False
     | Some h \<Rightarrow> handle_event h \<noteq> 0 \<and> fd h \<ge> 0 \<and> interests r (fd h) \<noteq> None)"

definition fd_of :: "reactor \<Rightarrow> nat \<Rightarrow> int" where
  "fd_of r x = fd (the (handlers r x))"

definition holds :: "reactor \<Rightarrow> nat list \<Rightarrow> bool" where
  "holds r xs \<longleftrightarrow> length (ehs r) = MAX_USER - 1 \<and> current_idx r = length xs \<and>
     take (length xs) (ehs r) = map Ptr xs \<and> list_all (eh_ok r) xs \<and> distinct (map (fd_of r) xs) \<and>
     fds_ok r"

lemma eh_ok_iff:
  "eh_ok r x \<longleftrightarrow> (\<exists>h. handlers r x = Some h \<and> handle_event h \<noteq> 0 \<and> fd h \<ge> 0 \<and>
     interests r (fd h) \<noteq> None)"
  by (simp add: eh_ok_def split: option.split)

lemma holdsD:
  assumes "holds r xs"
  shows "length (ehs r) = MAX_USER - 1" "current_idx r = length xs" "length xs \<le> MAX_USER - 1"
    "i < length xs \<Longrightarrow> ehs r ! i = Ptr (xs ! i)"
    "i < length xs \<Longrightarrow> \<exists>h. handlers r (xs ! i) = Some h \<and> fd h = fd_of r (xs ! i)"
    "fds_ok r"
proof -
  show *: "length (ehs r) = MAX_USER - 1" "current_idx r = length xs" "fds_ok r"
    using assms by (simp_all add: holds_def)
  have t: "take (length xs) (ehs r) = map Ptr xs" using assms by (simp add: holds_def)
  then have "length (take (length xs) (ehs r)) = length xs" by simp
  then show "length xs \<le> MAX_USER - 1" using *(1) by simp
  show "i < length xs \<Longrightarrow> ehs r ! i = Ptr (xs ! i)"
    using t by (metis nth_map nth_take)
  show "i < length xs \<Longrightarrow> \<exists>h. handlers r (xs ! i) = Some h \<and> fd h = fd_of r (xs ! i)"
    using assms by (auto simp: holds_def list_all_length eh_ok_def fd_of_def split: option.splits)
qed

lemma holds_mem:
  assumes "holds r xs" "x \<in> set xs"
  obtains h where "handlers r x = Some h" "fd h = fd_of r x" "handle_event h \<noteq> 0" "fd h \<ge> 0"
    "interests r (fd h) \<noteq> None"
proof -
  have "eh_ok r x" using assms by (simp add: holds_def list_all_iff)
  then show ?thesis using that by (cases "handlers r x") (auto simp: eh_ok_def fd_of_def)
qed

lemma find_loop_miss:
  "(\<And>k. i \<le> k \<Longrightarrow> k < current_idx r \<Longrightarrow> k < length (ehs r) \<and> (ehs r ! k = Null \<or>
     (\<exists>x h. ehs r ! k = Ptr x \<and> handlers r x = Some h \<and> fd h \<noteq> n))) \<Longrightarrow>
   find_loop r n i = Inr None"
proof (induction r n i rule: find_loop.induct)
  case (1 r n i)
  show ?case
  proof (cases "i < current_idx r")
    case True
    have i: "i < length (ehs r)" using 1(3) [of i] True by simp
    note IH = 1(1) [OF True] 1(2) [OF True]
    from 1(3) [of i] True consider "ehs r ! i = Null"
      | x h where "ehs r ! i = Ptr x" "handlers r x = Some h" "fd h \<noteq> n"
      by auto
    then show ?thesis
    proof cases
      case A: 1
      then show ?thesis using IH(1) 1(3) True i by (subst find_loop.simps) (auto simp: rd_def)
    next
      case B: 2
      then show ?thesis using IH(2) 1(3) True i by (subst find_loop.simps) (auto simp: rd_def)
    qed
  qed (simp add: find_loop.simps)
qed

lemma find_loop_hit:
  assumes "p < current_idx r" "p < length (ehs r)" "i \<le> p" "ehs r ! p = Ptr x"
    "handlers r x = Some h" "fd h = n"
    "\<And>k. i \<le> k \<Longrightarrow> k < p \<Longrightarrow> ehs r ! k = Null \<or>
      (\<exists>x h. ehs r ! k = Ptr x \<and> handlers r x = Some h \<and> fd h \<noteq> n)"
  shows "find_loop r n i = Inr (Some (Ptr x, p))"
  using assms(3,7)
proof (induction "p - i" arbitrary: i)
  case 0
  then have "i = p" by simp
  with assms(1-6) show ?case by (subst find_loop.simps) simp
next
  case (Suc d)
  then have i: "i < p" by simp
  then have "i < current_idx r" "i < length (ehs r)" using assms(1,2) by simp_all
  moreover have "find_loop r n (Suc i) = Inr (Some (Ptr x, p))"
    using Suc(1) [of "Suc i"] Suc(2,4) i by simp
  ultimately show ?case
    using Suc(4) [of i] i by (subst find_loop.simps) auto
qed

lemma holds_inj:
  assumes "holds r xs" "i < length xs" "k < length xs" "fd_of r (xs ! i) = fd_of r (xs ! k)"
  shows "i = k"
  using assms nth_eq_iff_index_eq [of "map (fd_of r) xs" i k] by (simp add: holds_def)

lemma holds_slot:
  assumes "holds r xs" "k < length xs" "fd_of r (xs ! k) \<noteq> n"
  shows "ehs r ! k = Null \<or> (\<exists>x h. ehs r ! k = Ptr x \<and> handlers r x = Some h \<and> fd h \<noteq> n)"
  using holdsD(4,5) [OF assms(1,2)] assms(3) by fastforce

lemma find_eh_hit:
  assumes "holds r xs" "p < length xs" "fd_of r (xs ! p) = n"
  shows "find_eh r n = Inr (Some (Ptr (xs ! p), p))"
proof -
  obtain h where h: "handlers r (xs ! p) = Some h" "fd h = n"
    using holdsD(5) [OF assms(1,2)] assms(3) by auto
  show ?thesis
    unfolding find_eh_def
  proof (rule find_loop_hit [OF _ _ _ _ h])
    show "p < current_idx r" "p < length (ehs r)" "ehs r ! p = Ptr (xs ! p)"
      using assms(2) holdsD(1-4) [OF assms(1)] by auto
    fix k assume "k < p"
    then show "ehs r ! k = Null \<or> (\<exists>x h. ehs r ! k = Ptr x \<and> handlers r x = Some h \<and> fd h \<noteq> n)"
      using holds_slot [OF assms(1), of k n] holds_inj [OF assms(1), of k p] assms(2,3) by auto
  qed simp
qed

lemma find_eh_miss:
  assumes "holds r xs" "n \<notin> fd_of r ` set xs"
  shows "find_eh r n = Inr None"
  unfolding find_eh_def
proof (rule find_loop_miss)
  fix k assume "k < current_idx r"
  then have k: "k < length xs" using holdsD(2) [OF assms(1)] by simp
  then have "fd_of r (xs ! k) \<noteq> n" using assms(2) nth_mem by blast
  moreover have "k < length (ehs r)" using k holdsD(1,3) [OF assms(1)] by linarith
  ultimately show "k < length (ehs r) \<and> (ehs r ! k = Null \<or>
     (\<exists>x h. ehs r ! k = Ptr x \<and> handlers r x = Some h \<and> fd h \<noteq> n))"
    using holds_slot [OF assms(1) k] by blast
qed

text \<open>What the table gives for a descriptor.\<close>

definition lookup :: "reactor \<Rightarrow> nat list \<Rightarrow> int \<Rightarrow> nat option" where
  "lookup r xs n = find (\<lambda>x. fd_of r x = n) xs"

lemma find_eh_lookup:
  assumes "holds r xs"
  shows "lookup r xs n = None \<Longrightarrow> find_eh r n = Inr None"
    "lookup r xs n = Some x \<Longrightarrow>
      \<exists>i. find_eh r n = Inr (Some (Ptr x, i)) \<and> i < length xs \<and> xs ! i = x \<and> fd_of r x = n"
  using find_eh_miss [OF assms, of n] find_eh_hit [OF assms, of _ n]
  by (auto simp: lookup_def find_None_iff find_Some_iff)

section \<open>Adding\<close>

lemma holds_add:
  assumes "holds r xs" "length xs < MAX_USER - 1" "handlers r x = Some h" "handle_event h \<noteq> 0"
    "fd h \<ge> 0" "fd h \<in> open_fds r" "interests r (fd h) = None"
  shows "\<exists>r'. add_eh r (Ptr x) = Inr (0, r') \<and> holds r' (xs @ [x]) \<and> listening EPOLLIN (fd h) r'"
proof -
  let ?w = "addFd (fd h) True r"
  let ?r = "?w\<lparr> ehs := (ehs r)[length xs := Ptr x], current_idx := length xs + 1 \<rparr>"
  have w: "ehs ?w = ehs r" "current_idx ?w = current_idx r" "handlers ?w = handlers r"
    and i: "\<And>n. n \<noteq> fd h \<Longrightarrow> interests ?w n = interests r n"
    by (simp_all add: addFd_def setNonBlock_def epoll_ctl_fd_def assms(6,7) Let_def)
  have l: "listening EPOLLIN (fd h) ?w" using addFd_listening [OF assms(6,7)] .
  have "add_eh r (Ptr x) = Inr (0, ?r)"
    using assms(2-5) holdsD(1,2) [OF assms(1)] w by (simp add: add_eh_def MAX_USER_def Let_def)
  moreover have others: "eh_ok ?r y" "fd_of r y \<noteq> fd h" if "y \<in> set xs" for y
  proof -
    from assms(1) that obtain k where "handlers r y = Some k" "handle_event k \<noteq> 0" "fd k \<ge> 0"
      "interests r (fd k) \<noteq> None"
      by (rule holds_mem)
    moreover from this have "fd k \<noteq> fd h" using assms(7) by auto
    ultimately show "eh_ok ?r y" "fd_of r y \<noteq> fd h"
      using i [of "fd k"] w by (simp_all add: eh_ok_def fd_of_def)
  qed
  have fo: "fd_of ?r = fd_of r" by (simp add: fd_of_def fun_eq_iff w)
  have "holds ?r (xs @ [x])"
    unfolding holds_def
  proof (intro conjI)
    show "length (ehs ?r) = MAX_USER - 1" "current_idx ?r = length (xs @ [x])"
      using holdsD(1) [OF assms(1)] by simp_all
    show "take (length (xs @ [x])) (ehs ?r) = map Ptr (xs @ [x])"
      using assms(1,2) by (simp add: holds_def take_Suc_conv_app_nth)
    have "eh_ok ?r x" using assms(3-5) l w by (simp add: eh_ok_def listening_def)
    then show "list_all (eh_ok ?r) (xs @ [x])" using others(1) by (simp add: list_all_iff)
    have "fd_of r x = fd h" using assms(3) by (simp add: fd_of_def)
    then show "distinct (map (fd_of ?r) (xs @ [x]))"
      using others(2) assms(1) unfolding fo by (fastforce simp: holds_def)
    show "fds_ok ?r" using fds_ok_addFd [OF holdsD(6) [OF assms(1)]] by (simp add: fds_ok_def)
  qed
  moreover have "listening EPOLLIN (fd h) ?r" using l by (simp add: listening_def)
  ultimately show ?thesis by blast
qed

lemma holds_create: "fds_ok w \<Longrightarrow> holds (create_reactor w hm mm pool fill) []"
  by (simp add: holds_def create_reactor_def MAX_USER_def fds_ok_def)

section \<open>Removing\<close>

text \<open>
  What is left of the table when the slot of the removed handler has been overwritten with the
  contents of the slot behind the last one, and the table is one shorter.
\<close>

lemma find_eh_removed:
  assumes "holds r xs" "length xs < MAX_USER - 1" "ehs r ! length xs = Null" "p < length xs"
    and r': "ehs r' = (ehs r)[p := Null]" "current_idx r' = length xs - 1"
      "handlers r' = (handlers r)(xs ! p := None)"
  shows "find_eh r' n = (if n = fd_of r (xs ! p) \<or> n = fd_of r (last xs) then Inr None else find_eh r n)"
proof -
  have ne: "xs \<noteq> []" using assms(4) by auto
  then have la: "last xs = xs ! (length xs - 1)" by (rule last_conv_nth)
  have slot: "ehs r' ! k = Null \<or> (\<exists>x h. ehs r' ! k = Ptr x \<and> handlers r' x = Some h \<and> fd h \<noteq> n)"
    if "k < length xs - 1" "k \<noteq> p \<Longrightarrow> fd_of r (xs ! k) \<noteq> n" for k
  proof (cases "k = p")
    case False
    moreover have k: "k < length xs" using that(1) by simp
    moreover have "xs ! k \<noteq> xs ! p" using False k assms(4) holds_inj [OF assms(1), of k p] by auto
    ultimately show ?thesis
      using that(2) holdsD(4,5) [OF assms(1) k] r' by fastforce
  qed (use assms(4) holdsD(1,3) [OF assms(1)] r' in simp)
  have len: "k < length (ehs r')" if "k < length xs" for k
    using that holdsD(1,3) [OF assms(1)] r'(1) by simp
  show ?thesis
  proof (cases "n \<in> fd_of r ` set xs \<and> n \<noteq> fd_of r (xs ! p) \<and> n \<noteq> fd_of r (last xs)")
    case True
    then obtain i where i: "i < length xs" "fd_of r (xs ! i) = n" by (auto simp: in_set_conv_nth)
    have ip: "i \<noteq> p" "i \<noteq> length xs - 1" using i(2) True la by auto
    obtain h where h: "handlers r (xs ! i) = Some h" "fd h = n"
      using holdsD(5) [OF assms(1) i(1)] i(2) by auto
    have "xs ! i \<noteq> xs ! p" using True i(2) by auto
    then have "handlers r' (xs ! i) = Some h" using h(1) r'(3) by simp
    moreover have "ehs r' ! i = Ptr (xs ! i)"
      using ip(1) holdsD(4) [OF assms(1) i(1)] r'(1) by simp
    ultimately have "find_eh r' n = Inr (Some (Ptr (xs ! i), i))"
      unfolding find_eh_def
    proof (intro find_loop_hit [OF _ _ _ _ _ h(2)])
      fix k assume k: "k < i"
      then have "k < length xs - 1" using i(1) by linarith
      with k show "ehs r' ! k = Null \<or> (\<exists>x h. ehs r' ! k = Ptr x \<and> handlers r' x = Some h \<and> fd h \<noteq> n)"
        using slot [of k] holds_inj [OF assms(1), of k i] i by auto
    qed (use i(1) ip len [OF i(1)] r'(2) in auto)
    then show ?thesis using True find_eh_hit [OF assms(1) i] by simp
  next
    case False
    have "find_eh r' n = Inr None"
      unfolding find_eh_def
    proof (rule find_loop_miss)
      fix k assume "k < current_idx r'"
      then have k: "k < length xs - 1" using r'(2) by simp
      from k have "k < length xs" "length xs - 1 < length xs" "k \<noteq> length xs - 1" by linarith+
      then have "fd_of r (xs ! k) \<noteq> n" if "k \<noteq> p"
        using False that assms(4) holds_inj [OF assms(1), of k p]
          holds_inj [OF assms(1), of k "length xs - 1"] la by auto
      then show "k < length (ehs r') \<and> (ehs r' ! k = Null \<or>
          (\<exists>x h. ehs r' ! k = Ptr x \<and> handlers r' x = Some h \<and> fd h \<noteq> n))"
        using slot [OF k] len [of k] k by simp
    qed
    then show ?thesis using False find_eh_miss [OF assms(1), of n] by auto
  qed
qed

lemma rm_eh_effect:
  assumes "holds r xs" "length xs < MAX_USER - 1" "ehs r ! length xs = Null" "p < length xs"
    "fd_of r (xs ! p) = n"
  shows "\<exists>r'. rm_eh r n = Inr (None, r') \<and> ehs r' = (ehs r)[p := Null] \<and>
    current_idx r' = length xs - 1 \<and> handlers r' = (handlers r)(xs ! p := None) \<and>
    interests r' n = None \<and> n \<notin> open_fds r' \<and> (\<forall>m. m \<noteq> n \<longrightarrow> interests r' m = interests r m)"
proof -
  obtain h where h: "handlers r (xs ! p) = Some h"
    using holdsD(5) [OF assms(1,4)] by auto
  have w: "ehs (removeFd n s) = ehs s" "current_idx (removeFd n s) = current_idx s"
    "handlers (removeFd n s) = handlers s" for s :: reactor
    by (simp_all add: removeFd_def close_fd_def epoll_ctl_fd_def)
  show ?thesis
    using find_eh_hit [OF assms(1,4,5)] holdsD(1-3) [OF assms(1)] assms(2-4) h
    by (simp add: rm_eh_def w Let_def removeFd_unregisters)
qed

section \<open>Dispatching\<close>

text \<open>
  The jobs one turn has to queue: for every event in turn that is not a hang-up and whose descriptor
  has a handler, the job block, the function of the handler, the message block and the message.
\<close>

record dispatched =
  job_block :: nat
  job_fun :: nat
  msg_block :: nat
  message :: handle_event_msg

fun to_dispatch :: "reactor \<Rightarrow> nat list \<Rightarrow> ((32 word \<times> int) \<times> nat \<times> nat) list \<Rightarrow> dispatched list" where
  "to_dispatch r xs [] = []"
| "to_dispatch r xs (((ev, n), m, j) # ees) =
     (if ev AND EPOLLRDHUP \<noteq> 0 then [] else
        (case lookup r xs n of None \<Rightarrow> []
         | Some x \<Rightarrow> [\<lparr> job_block = j, job_fun = handle_event (the (handlers r x)), msg_block = m,
             message = \<lparr> e = ev, eh = Ptr x \<rparr> \<rparr>])) @ to_dispatch r xs ees"

definition with_blocks :: "((32 word \<times> int) \<times> nat \<times> nat) list \<Rightarrow> ((32 word \<times> int) \<times> ptr \<times> ptr) list" where
  "with_blocks = map (\<lambda>(ev, m, j). (ev, Ptr m, Ptr j))"

definition fresh_blocks :: "reactor \<Rightarrow> ((32 word \<times> int) \<times> nat \<times> nat) list \<Rightarrow> bool" where
  "fresh_blocks r ees \<longleftrightarrow> distinct (map (\<lambda>(ev, m, j). m) ees) \<and> distinct (map (\<lambda>(ev, m, j). j) ees) \<and>
     (\<forall>(ev, m, j) \<in> set ees. msgs r m = None \<and> jobs (threadPool r) j = None)"

definition carries :: "reactor \<Rightarrow> dispatched \<Rightarrow> bool" where
  "carries r d \<longleftrightarrow> payload (jobs (threadPool r)) (job_block d) = Some (job_fun d, msg_block d) \<and>
     msgs r (msg_block d) = Some (message d)"

text \<open>What a turn does not touch.\<close>

lemma holds_pool:
  assumes "ehs r' = ehs r" "current_idx r' = current_idx r" "handlers r' = handlers r"
    "interests r' = interests r" "nonblock r' = nonblock r" "open_fds r' = open_fds r"
  shows "holds r' = holds r" "lookup r' = lookup r" "to_dispatch r' = to_dispatch r"
proof -
  have f: "eh_ok r' = eh_ok r" "fd_of r' = fd_of r" "fds_ok r' = fds_ok r"
    by (auto simp: eh_ok_iff fd_of_def fds_ok_def assms intro!: ext)
  then show "holds r' = holds r" "lookup r' = lookup r"
    by (simp_all add: holds_def lookup_def assms ext)
  then have "to_dispatch r' xs ees = to_dispatch r xs ees" for xs ees
    using assms by (induction xs ees rule: to_dispatch.induct) (simp_all split: option.split)
  then show "to_dispatch r' = to_dispatch r" by (simp add: fun_eq_iff)
qed

lemma payload_dom: "payload m x = None \<longleftrightarrow> m x = None"
  by (simp add: payload_def)

lemma dispatch_one:
  assumes "holds r xs" "jq_wf (threadPool r)" "lookup r xs n = Some x" "ev AND EPOLLRDHUP = 0"
    "jobs (threadPool r) j = None"
  shows "\<exists>q'. dispatch_event r ev n (Ptr m) (Ptr j) =
      Inr (r\<lparr> msgs := (msgs r)(m \<mapsto> \<lparr> e = ev, eh = Ptr x \<rparr>), threadPool := q' \<rparr>) \<and>
    jq_wf q' \<and> queued q' = queued (threadPool r) @ [j] \<and>
    payload (jobs q') = (payload (jobs (threadPool r)))(j \<mapsto> (handle_event (the (handlers r x)), m))"
proof -
  obtain i where i: "find_eh r n = Inr (Some (Ptr x, i))" "i < length xs" "xs ! i = x"
    using find_eh_lookup(2) [OF assms(1,3)] by blast
  obtain h where h: "handlers r x = Some h" using holdsD(5) [OF assms(1) i(2)] i(3) by auto
  obtain q' where q: "threadPool_add_work (threadPool r) (Ptr j) (handle_event h) m = Inr q'"
      "jq_wf q'" "queued q' = queued (threadPool r) @ [j]"
      "payload (jobs q') = (payload (jobs (threadPool r)))(j \<mapsto> (handle_event h, m))"
    using add_work_appends [OF assms(2,5), of "handle_event h" m] by blast
  show ?thesis
    using i(1) h assms(4) q by (intro exI [of _ q']) (simp add: dispatch_event_def)
qed

lemma event_turn_dispatches:
  "holds r xs \<Longrightarrow> jq_wf (threadPool r) \<Longrightarrow> fresh_blocks r ees \<Longrightarrow>
   \<exists>r'. event_turn r (with_blocks ees) = Inr r' \<and> holds r' xs \<and> jq_wf (threadPool r') \<and>
     queued (threadPool r') = queued (threadPool r) @ map job_block (to_dispatch r xs ees) \<and>
     list_all (carries r') (to_dispatch r xs ees) \<and>
     (\<forall>m. m \<notin> (\<lambda>(ev, m, j). m) ` set ees \<longrightarrow> msgs r' m = msgs r m) \<and>
     (\<forall>j. j \<notin> (\<lambda>(ev, m, j). j) ` set ees \<longrightarrow>
        payload (jobs (threadPool r')) j = payload (jobs (threadPool r)) j)"
proof (induction ees arbitrary: r)
  case Nil
  then show ?case by (simp add: with_blocks_def)
next
  case (Cons en ees)
  obtain ev n m j where en: "en = ((ev, n), m, j)" by (metis prod.exhaust)
  have fr: "msgs r m = None" "jobs (threadPool r) j = None" "fresh_blocks r ees"
    "m \<notin> (\<lambda>(ev, m, j). m) ` set ees" "j \<notin> (\<lambda>(ev, m, j). j) ` set ees"
    using Cons.prems(3) by (simp_all add: fresh_blocks_def en)
  show ?case
  proof (cases "ev AND EPOLLRDHUP = 0 \<and> lookup r xs n \<noteq> None")
    case False
    then have "dispatch_event r ev n (Ptr m) (Ptr j) = Inr r"
      using find_eh_lookup(1) [OF Cons.prems(1), of n] by (auto simp: dispatch_event_def)
    moreover have "to_dispatch r xs (en # ees) = to_dispatch r xs ees"
      using False by (auto simp: en)
    ultimately show ?thesis
      using Cons.IH [OF Cons.prems(1,2) fr(3)] by (fastforce simp: with_blocks_def en)
  next
    case True
    then obtain x where x: "lookup r xs n = Some x" by blast
    let ?d = "\<lparr> job_block = j, job_fun = handle_event (the (handlers r x)), msg_block = m,
        message = \<lparr> e = ev, eh = Ptr x \<rparr> \<rparr>"
    obtain q where q: "jq_wf q" "queued q = queued (threadPool r) @ [j]"
        "payload (jobs q) = (payload (jobs (threadPool r)))(j \<mapsto> (job_fun ?d, m))"
      and step: "dispatch_event r ev n (Ptr m) (Ptr j) =
        Inr (r\<lparr> msgs := (msgs r)(m \<mapsto> message ?d), threadPool := q \<rparr>)" (is "_ = Inr ?r")
      using dispatch_one [OF Cons.prems(1,2) x _ fr(2), of ev m] True by auto
    have same: "holds ?r = holds r" "to_dispatch ?r = to_dispatch r"
      by (rule holds_pool; simp)+
    have "m' \<noteq> m" "j' \<noteq> j" if "(ev', m', j') \<in> set ees" for ev' m' j'
      using that fr(4,5) by force+
    then have "fresh_blocks ?r ees"
      using fr(3) by (fastforce simp: fresh_blocks_def payload_dom [symmetric] q(3))
    then obtain r' where r': "event_turn ?r (with_blocks ees) = Inr r'" "holds r' xs"
        "jq_wf (threadPool r')"
        "queued (threadPool r') = queued (threadPool ?r) @ map job_block (to_dispatch r xs ees)"
        "list_all (carries r') (to_dispatch r xs ees)"
        "\<forall>m. m \<notin> (\<lambda>(ev, m, j). m) ` set ees \<longrightarrow> msgs r' m = msgs ?r m"
        "\<forall>j. j \<notin> (\<lambda>(ev, m, j). j) ` set ees \<longrightarrow>
          payload (jobs (threadPool r')) j = payload (jobs (threadPool ?r)) j"
      using Cons.IH [of ?r] Cons.prems(1) q(1) unfolding same by auto
    have "carries r' ?d" using r'(6,7) fr(4,5) q(3) by (simp add: carries_def)
    moreover have "to_dispatch r xs (en # ees) = ?d # to_dispatch r xs ees"
      using True x by (simp add: en)
    moreover have "event_turn r (with_blocks (en # ees)) = Inr r'"
      using step r'(1) by (simp add: with_blocks_def en)
    ultimately show ?thesis
      using r' q by (simp add: en)
  qed
qed

section \<open>Properties\<close>

text \<open>The turns of \<open>event_loop\<close> are the turn for all their events.\<close>

lemma event_turn_append: "event_turn r (ees @ fes) = bindE (event_turn r ees) (\<lambda>r. event_turn r fes)"
  by (induction r ees rule: event_turn.induct) (simp_all add: bindE_def split: sum.split)

lemma event_turns_concat: "event_turns r eess = event_turn r (concat eess)"
  by (induction r eess rule: event_turns.induct) (simp_all add: event_turn_append bindE_def split: sum.split)

text \<open>
  C11: a run of \<open>event_loop\<close>, in as many turns and with whatever lists of events \<open>epoll_wait\<close> returns,
  hands on exactly the events whose descriptor has a handler and that do not have the bit
  \<open>EPOLLRDHUP\<close>: for each of them, in the order they are reported, one job goes behind the queued work,
  with the function of the handler and a message that holds the handler and the events. Events of
  other descriptors, and those of a peer that has hung up, are dropped. The table does not change.
\<close>

theorem event_loop_dispatches:
  assumes "holds r xs" "jq_wf (threadPool r)" "fresh_blocks r (concat eess)"
  shows "\<exists>r'. event_turns r (map with_blocks eess) = Inr r' \<and> holds r' xs \<and> jq_wf (threadPool r') \<and>
     queued (threadPool r') = queued (threadPool r) @ map job_block (to_dispatch r xs (concat eess)) \<and>
     list_all (carries r') (to_dispatch r xs (concat eess))"
proof -
  have "concat (map with_blocks eess) = with_blocks (concat eess)" by (induction eess) (simp_all add: with_blocks_def)
  then show ?thesis using event_turn_dispatches [OF assms] unfolding event_turns_concat by metis
qed

definition idle_pool :: job_queue where
  "idle_pool = \<lparr> number = 0, queueSem = 0, head = Null, tail = Null, jobs = Map.empty \<rparr>"

definition open_world :: fd_world where
  "open_world = \<lparr> interests = \<lambda>n. None, nonblock = {}, open_fds = {5, 6, 7, 8} \<rparr>"

definition four_handlers :: "event_handler store" where
  "four_handlers = [1 \<mapsto> \<lparr> fd = 5, httpConn = Null, handle_event = 77 \<rparr>,
     2 \<mapsto> \<lparr> fd = 6, httpConn = Null, handle_event = 88 \<rparr>,
     3 \<mapsto> \<lparr> fd = 7, httpConn = Null, handle_event = 88 \<rparr>,
     4 \<mapsto> \<lparr> fd = 8, httpConn = Null, handle_event = 88 \<rparr>]"

text \<open>The table with the handlers 1, 2 and 3, in memory that was zero.\<close>

definition three_added :: reactor where
  "three_added = (create_reactor open_world four_handlers Map.empty idle_pool Null)
     \<lparr> ehs := [Ptr 1, Ptr 2, Ptr 3] @ replicate 65526 Null, current_idx := 3,
       interests := (\<lambda>n. if n \<in> {5, 6, 7} then
         Some (EPOLLIN OR EPOLLET OR EPOLLRDHUP OR EPOLLONESHOT, n) else None),
       nonblock := {5, 6, 7} \<rparr>"

lemma three_added_holds: "holds three_added [1, 2, 3]"
  by (auto simp: holds_def eh_ok_def fd_of_def fds_ok_def three_added_def create_reactor_def
      four_handlers_def open_world_def MAX_USER_def)

lemma idle_pool_wf: "jq_wf idle_pool" "queued idle_pool = []"
  by (simp_all add: jq_wf_def queued_def idle_pool_def represents_def first_ptr_def last_ptr_def)

lemma three_added_pool [simp]: "threadPool three_added = idle_pool" "msgs three_added = Map.empty"
  by (simp_all add: three_added_def create_reactor_def)

theorem event_loop_dispatches_witness:
  "\<exists>r'. event_turns three_added (map with_blocks
      [[((EPOLLIN, 6), 20, 30), ((EPOLLIN, 8), 21, 31)], [], [((EPOLLIN OR EPOLLRDHUP, 5), 22, 32), ((EPOLLIN, 5), 23, 33)]]) =
      Inr r' \<and> queued (threadPool r') = [30, 33]"
proof -
  let ?es = "[[((EPOLLIN, 6), 20, 30), ((EPOLLIN, 8), 21, 31)], [], [((EPOLLIN OR EPOLLRDHUP, 5), 22, 32),
    ((EPOLLIN, 5 :: int), 23 :: nat, 33 :: nat)]]"
  have "map job_block (to_dispatch three_added [1, 2, 3] (concat ?es)) = [30, 33]"
    by (simp add: lookup_def fd_of_def three_added_def create_reactor_def four_handlers_def epoll_masks)
  moreover have "fresh_blocks three_added (concat ?es)"
    by (simp add: fresh_blocks_def idle_pool_def)
  ultimately show ?thesis
    using event_loop_dispatches [OF three_added_holds, of ?es] idle_pool_wf by auto
qed

text \<open>
  \<open>add_eh\<close> puts a new handler behind the others and registers its descriptor for one event at a
  time, as long as fewer than 65529 are in the table. With 65529 of them its check still passes,
  and it writes outside the array, which has one slot less than \<open>MAX_USER\<close>.
\<close>

lemma add_eh_overruns:
  assumes "holds r xs" "handlers r x = Some h" "handle_event h \<noteq> 0" "fd h \<ge> 0"
    "fd h \<in> open_fds r" "interests r (fd h) = None"
  shows "if length xs < 65529
    then \<exists>r'. add_eh r (Ptr x) = Inr (0, r') \<and> holds r' (xs @ [x]) \<and> listening EPOLLIN (fd h) r'
    else add_eh r (Ptr x) = Inl Out_Of_Bounds"
proof (cases "length xs < 65529")
  case True
  then show ?thesis using holds_add [OF assms(1) _ assms(2-6)] by (simp add: MAX_USER_def)
next
  case False
  then have "length xs = 65529" using holdsD(3) [OF assms(1)] by (simp add: MAX_USER_def)
  then show ?thesis
    using assms(2) holdsD(1,2) [OF assms(1)]
    by (simp add: add_eh_def MAX_USER_def Let_def wr_def addFd_def setNonBlock_def epoll_ctl_fd_def)
qed

lemma add_eh_overruns_witness:
  "\<exists>r'. add_eh three_added (Ptr 4) = Inr (0, r') \<and> holds r' [1, 2, 3, 4] \<and> listening EPOLLIN 8 r'"
  using add_eh_overruns [OF three_added_holds,
      of 4 "\<lparr> fd = 8, httpConn = Null, handle_event = 88 \<rparr>"]
  by (simp add: three_added_def create_reactor_def four_handlers_def open_world_def)

text \<open>
  C39: \<open>rm_eh\<close> drops two handlers. In a table whose free memory is zero it closes the descriptor and
  frees its handler, but overwrites the slot with the one behind the last: afterwards \<open>find_eh\<close>
  finds neither the removed handler nor the last one of the table, whose descriptor stays
  registered while its events are ignored. All others are found as before. In a full table it reads
  outside the array.
\<close>

theorem rm_eh_forgets_last:
  assumes "holds r xs" "n \<in> fd_of r ` set xs" "length xs < 65529 \<longrightarrow> ehs r ! length xs = Null"
  shows "if length xs < 65529
    then \<exists>r'. rm_eh r n = Inr (None, r') \<and> interests r' n = None \<and> n \<notin> open_fds r' \<and>
      (\<forall>m. find_eh r' m = (if m = n \<or> m = fd_of r (last xs) then Inr None else find_eh r m)) \<and>
      (n \<noteq> fd_of r (last xs) \<longrightarrow> interests r' (fd_of r (last xs)) \<noteq> None \<and>
        (\<forall>ev msg job. dispatch_event r' ev (fd_of r (last xs)) msg job = Inr r'))
    else rm_eh r n = Inl Out_Of_Bounds"
proof -
  obtain p where p: "p < length xs" "fd_of r (xs ! p) = n"
    using assms(2) by (auto simp: in_set_conv_nth)
  show ?thesis
  proof (cases "length xs < 65529")
    case True
    then have len: "length xs < MAX_USER - 1" "ehs r ! length xs = Null"
      using assms(3) by (simp_all add: MAX_USER_def)
    obtain r' where r': "rm_eh r n = Inr (None, r')" "ehs r' = (ehs r)[p := Null]"
        "current_idx r' = length xs - 1" "handlers r' = (handlers r)(xs ! p := None)"
        "interests r' n = None" "n \<notin> open_fds r'" "\<forall>m. m \<noteq> n \<longrightarrow> interests r' m = interests r m"
      using rm_eh_effect [OF assms(1) len p] by blast
    have f: "find_eh r' m = (if m = n \<or> m = fd_of r (last xs) then Inr None else find_eh r m)" for m
      using find_eh_removed [OF assms(1) len p(1) r'(2-4), of m] p(2) by simp
    have "interests r (fd_of r (last xs)) \<noteq> None"
    proof (rule holds_mem [OF assms(1), of "last xs"])
      show "last xs \<in> set xs" using p(1) by (intro last_in_set) auto
    qed simp
    then show ?thesis
      using True r' f by (auto simp: dispatch_event_def)
  next
    case False
    then have "length xs = 65529" using holdsD(3) [OF assms(1)] by (simp add: MAX_USER_def)
    then show ?thesis
      using find_eh_hit [OF assms(1) p] p(1) holdsD(1,2) [OF assms(1)]
      by (simp add: rm_eh_def rd_def MAX_USER_def)
  qed
qed

theorem rm_eh_forgets_last_witness:
  "\<exists>r'. rm_eh three_added 5 = Inr (None, r') \<and> find_eh r' 6 = Inr (Some (Ptr 2, 1)) \<and>
     find_eh r' 7 = Inr None \<and> interests r' 7 \<noteq> None"
proof -
  have "fd_of three_added 1 = 5" "fd_of three_added 2 = 6" "fd_of three_added 3 = 7"
    "ehs three_added ! 3 = Null"
    by (simp_all add: fd_of_def three_added_def create_reactor_def four_handlers_def MAX_USER_def)
  then show ?thesis
    using rm_eh_forgets_last [OF three_added_holds, of 5]
      find_eh_hit [OF three_added_holds, of 1 6] by (auto simp: numeral_3_eq_3)
qed

text \<open>
  With other contents of the free memory a removal leaves an indeterminate pointer in the table, and
  the next search reads it.
\<close>

lemma rm_eh_leaves_indeterminate:
  assumes "holds r xs" "length xs < 65529" "ehs r ! length xs = Indet" "1 < length xs"
    "fd_of r (xs ! 0) = n"
  shows "\<exists>r'. rm_eh r n = Inr (None, r') \<and> (\<forall>m. find_eh r' m = Inl Uninit_Read)"
proof -
  have p: "0 < length xs" using assms(4) by linarith
  obtain h where h: "handlers r (xs ! 0) = Some h"
    using holdsD(5) [OF assms(1) p] by auto
  have w: "ehs (removeFd n s) = ehs s" "current_idx (removeFd n s) = current_idx s"
    "handlers (removeFd n s) = handlers s" for s :: reactor
    by (simp_all add: removeFd_def close_fd_def epoll_ctl_fd_def)
  show ?thesis
    using find_eh_hit [OF assms(1) p assms(5)] holdsD(1-3) [OF assms(1)] assms(2-4) h p
    by (simp add: rm_eh_def w Let_def MAX_USER_def find_eh_def find_loop.simps [of _ _ 0])
qed

end
