(* ===== verification/ThreadPool.thy ===== *)
theory ThreadPool
  imports JobQueue Transition
begin

text \<open>
  The worker threads of v0.1/thread_pool.cc: \<open>threadPool_init\<close>, the loop \<open>threadPool_job_do\<close> every
  worker runs, the producers' \<open>threadPool_add_work\<close> and \<open>threadPool_destroy\<close>, as a step relation
  in which any thread may move at any time. A step is one access to the shared variables
  (\<open>threadPool_keepAlive\<close>, the semaphore, the mutex) or one critical section.
\<close>

section \<open>States\<close>

text \<open>
  Where a worker is in \<open>threadPool_job_do\<close>: at the loop test, before \<open>sem_wait\<close>, after it and
  before the second test of \<open>threadPool_keepAlive\<close>, waiting for the mutex, holding it, running a
  job, before \<open>free(job)\<close>, or returned.
\<close>

datatype worker_pc = Top | AtSem | Woken | WantLock | InLock | Running nat nat nat | AtFree nat | Exited

text \<open>
  \<open>posts\<close> counts the \<open>sem_post\<close> calls \<open>threadPool_destroy\<close> has made. \<open>submitted\<close> and
  \<open>executed\<close> record the work that was added and the work that was run.
\<close>

record pool =
  nthreads :: nat
  keepAlive :: bool
  jobQueue :: job_queue
  mutex :: "nat option"
  pcs :: "nat \<Rightarrow> worker_pc"
  posts :: nat
  destroyed :: bool
  submitted :: "(nat \<times> nat) list"
  executed :: "(nat \<times> nat) list"

definition clamp_number :: "int \<Rightarrow> nat" where
  "clamp_number num =
     (let num = (if num < 1 then 20 else num);
          num = (if num > 50 then 50 else num)
      in nat num)"

text \<open>
  \<open>threadPool_init\<close>; the three flags say whether the allocations of the pool, of the thread array
  and of the queue succeed. Every worker starts at the loop test.
\<close>

definition threadPool_init :: "int \<Rightarrow> bool \<Rightarrow> bool \<Rightarrow> bool \<Rightarrow> thread_job store \<Rightarrow> pool option" where
  "threadPool_init num pool_ok threads_ok queue_ok m =
     (if \<not> pool_ok then None else if \<not> threads_ok then None
      else case threadPool_jobQueue_init m queue_ok of
        (r, Some q) \<Rightarrow> Some \<lparr> nthreads = clamp_number num, keepAlive = True, jobQueue = q,
          mutex = None, pcs = (\<lambda>_. Top), posts = 0, destroyed = False, submitted = [], executed = [] \<rparr>
      | (r, None) \<Rightarrow> None)"

section \<open>Steps\<close>

definition goto :: "pool \<Rightarrow> nat \<Rightarrow> worker_pc \<Rightarrow> pool" where
  "goto s i p = s\<lparr> pcs := (pcs s)(i := p) \<rparr>"

text \<open>
  The critical section of \<open>threadPool_job_do\<close>: peek, read the job, remove it. When \<open>removeLast\<close>
  fails the worker returns; the guard releases the mutex on both ways out.
\<close>

definition take_job :: "pool \<Rightarrow> nat \<Rightarrow> pool res" where
  "take_job s i =
     (let job = threadPool_jobQueue_peek (jobQueue s) in
      bindE (deref (jobs (jobQueue s)) job) (\<lambda>j.
        bindE (threadPool_jobQueue_removeLast (jobQueue s)) (\<lambda>(r, q).
          Inr (goto (s\<lparr> jobQueue := q, mutex := None \<rparr>) i
            (if r \<noteq> 0 then Exited
             else case job of Ptr x \<Rightarrow> Running x (func j) (jarg j) | _ \<Rightarrow> Exited)))))"

text \<open>
  The steps of a worker. A \<open>sem_wait\<close> that fails ends the whole process with \<open>exit(1)\<close>; the model follows
  the pool while the process runs, and there \<open>sem_wait\<close> returns only when it has taken a token.
\<close>

inductive worker_step :: "pool \<Rightarrow> nat \<Rightarrow> pool \<Rightarrow> bool" where
  loop_again: "pcs s i = Top \<Longrightarrow> keepAlive s \<Longrightarrow> worker_step s i (goto s i AtSem)"
| loop_exit: "pcs s i = Top \<Longrightarrow> \<not> keepAlive s \<Longrightarrow> worker_step s i (goto s i Exited)"
| sem_wait: "pcs s i = AtSem \<Longrightarrow> queueSem (jobQueue s) = Suc k \<Longrightarrow>
    worker_step s i (goto (s\<lparr> jobQueue := (jobQueue s)\<lparr> queueSem := k \<rparr> \<rparr>) i Woken)"
| alive: "pcs s i = Woken \<Longrightarrow> keepAlive s \<Longrightarrow> worker_step s i (goto s i WantLock)"
| not_alive: "pcs s i = Woken \<Longrightarrow> \<not> keepAlive s \<Longrightarrow> worker_step s i (goto s i Top)"
| lock: "pcs s i = WantLock \<Longrightarrow> mutex s = None \<Longrightarrow>
    worker_step s i (goto (s\<lparr> mutex := Some i \<rparr>) i InLock)"
| take_work: "pcs s i = InLock \<Longrightarrow> take_job s i = Inr t \<Longrightarrow> worker_step s i t"
| run: "pcs s i = Running x f a \<Longrightarrow>
    worker_step s i (goto (s\<lparr> executed := executed s @ [(f, a)] \<rparr>) i (AtFree x))"
| free_job: "pcs s i = AtFree x \<Longrightarrow> free (jobs (jobQueue s)) (Ptr x) = Inr m \<Longrightarrow>
    worker_step s i (goto (s\<lparr> jobQueue := (jobQueue s)\<lparr> jobs := m \<rparr> \<rparr>) i Top)"

text \<open>
  The steps of the other threads: a producer adds work under the mutex, in a block \<open>x\<close> that
  \<open>malloc\<close> just returned; \<open>threadPool_destroy\<close> clears \<open>threadPool_keepAlive\<close>, posts the
  semaphore once per thread and once more, and after all threads are joined empties the queue.
\<close>

inductive env_step :: "pool \<Rightarrow> pool \<Rightarrow> bool" where
  add: "\<not> destroyed s \<Longrightarrow> mutex s = None \<Longrightarrow> jobs (jobQueue s) x = None \<Longrightarrow>
    threadPool_add_work (jobQueue s) (Ptr x) f a = Inr q \<Longrightarrow>
    env_step s (s\<lparr> jobQueue := q, submitted := submitted s @ [(f, a)] \<rparr>)"
| stop: "keepAlive s \<Longrightarrow> env_step s (s\<lparr> keepAlive := False \<rparr>)"
| post: "\<not> keepAlive s \<Longrightarrow> posts s < nthreads s + 1 \<Longrightarrow>
    env_step s (s\<lparr> posts := posts s + 1,
      jobQueue := (jobQueue s)\<lparr> queueSem := queueSem (jobQueue s) + 1 \<rparr> \<rparr>)"
| joined: "\<not> keepAlive s \<Longrightarrow> posts s = nthreads s + 1 \<Longrightarrow> \<forall>i < nthreads s. pcs s i = Exited \<Longrightarrow>
    \<not> destroyed s \<Longrightarrow> threadPool_jobQueue_empty (jobQueue s) = Inr q \<Longrightarrow>
    env_step s (s\<lparr> jobQueue := q, destroyed := True \<rparr>)"

definition pool_created :: "pool \<Rightarrow> bool" where
  "pool_created s \<longleftrightarrow> (\<exists>num m. threadPool_init num True True True m = Some s)"

definition pool_step :: "pool \<Rightarrow> pool \<Rightarrow> bool" where
  "pool_step s t \<longleftrightarrow> (\<exists>i < nthreads s. worker_step s i t) \<or> env_step s t"

abbreviation pool_reachable :: "pool \<Rightarrow> bool" where
  "pool_reachable \<equiv> reachable pool_created pool_step"

lemma pool_reachable_intros:
  "threadPool_init num True True True m = Some s \<Longrightarrow> pool_reachable s"
  "pool_reachable s \<Longrightarrow> i < nthreads s \<Longrightarrow> worker_step s i t \<Longrightarrow> pool_reachable t"
  "pool_reachable s \<Longrightarrow> env_step s t \<Longrightarrow> pool_reachable t"
  unfolding pool_created_def pool_step_def by (blast intro: reachable.intros)+

lemmas pool_starts = pool_reachable_intros(1) and worker = pool_reachable_intros(2)
  and environment = pool_reachable_intros(3)

inductive_cases worker_stepE: "worker_step s i t"
inductive_cases env_stepE: "env_step s t"

section \<open>Counting workers\<close>

definition workers :: "pool \<Rightarrow> (worker_pc \<Rightarrow> bool) \<Rightarrow> nat" where
  "workers s P = (\<Sum>i < nthreads s. of_bool (P (pcs s i)))"

definition load_of :: "worker_pc \<Rightarrow> (nat \<times> nat) multiset" where
  "load_of p = (case p of Running x f a \<Rightarrow> {#(f, a)#} | _ \<Rightarrow> {#})"

definition running_load :: "pool \<Rightarrow> (nat \<times> nat) multiset" where
  "running_load s = (\<Sum>i < nthreads s. load_of (pcs s i))"

definition queued_load :: "pool \<Rightarrow> (nat \<times> nat) multiset" where
  "queued_load s = mset (map (\<lambda>x. the (payload (jobs (jobQueue s)) x)) (queued (jobQueue s)))"

definition holding :: "worker_pc \<Rightarrow> nat option" where
  "holding p = (case p of Running x f a \<Rightarrow> Some x | AtFree x \<Rightarrow> Some x | _ \<Rightarrow> None)"

lemma sum_fun_upd:
  fixes g :: "'b \<Rightarrow> 'c :: comm_monoid_add" and n :: nat
  assumes "i < n"
  shows "(\<Sum>j < n. g ((f(i := y)) j)) + g (f i) = (\<Sum>j < n. g (f j)) + g y"
proof -
  have "(\<Sum>j < n. g ((f(i := y)) j)) = g y + (\<Sum>j \<in> {..<n} - {i}. g (f j))"
    using assms by (subst sum.remove [of _ i]) auto
  moreover have "(\<Sum>j < n. g (f j)) = g (f i) + (\<Sum>j \<in> {..<n} - {i}. g (f j))"
    using assms by (subst sum.remove [of _ i]) auto
  ultimately show ?thesis by (simp add: ac_simps)
qed

lemma workers_goto:
  "i < nthreads s \<Longrightarrow>
   workers (goto s i p) P + of_bool (P (pcs s i)) = workers s P + of_bool (P p)"
  unfolding workers_def goto_def
  using sum_fun_upd [of i "nthreads s" "\<lambda>p. of_bool (P p) :: nat" "pcs s" p] by simp

lemma running_load_goto:
  "i < nthreads s \<Longrightarrow>
   running_load (goto s i p) + load_of (pcs s i) = running_load s + load_of p"
  unfolding running_load_def goto_def using sum_fun_upd [of i "nthreads s" load_of "pcs s" p] by simp

lemma goto_simps [simp]:
  "nthreads (goto s i p) = nthreads s" "keepAlive (goto s i p) = keepAlive s"
  "jobQueue (goto s i p) = jobQueue s" "mutex (goto s i p) = mutex s"
  "pcs (goto s i p) = (pcs s)(i := p)" "posts (goto s i p) = posts s"
  "destroyed (goto s i p) = destroyed s" "submitted (goto s i p) = submitted s"
  "executed (goto s i p) = executed s"
  by (simp_all add: goto_def)

lemma workers_upd [simp]:
  "workers (s\<lparr> jobQueue := q \<rparr>) P = workers s P" "workers (s\<lparr> mutex := mu \<rparr>) P = workers s P"
  "workers (s\<lparr> executed := ex \<rparr>) P = workers s P" "workers (s\<lparr> submitted := su \<rparr>) P = workers s P"
  "workers (s\<lparr> keepAlive := ka \<rparr>) P = workers s P" "workers (s\<lparr> posts := po \<rparr>) P = workers s P"
  "workers (s\<lparr> destroyed := de \<rparr>) P = workers s P"
  "running_load (s\<lparr> jobQueue := q \<rparr>) = running_load s" "running_load (s\<lparr> mutex := mu \<rparr>) = running_load s"
  "running_load (s\<lparr> executed := ex \<rparr>) = running_load s"
  "running_load (s\<lparr> submitted := su \<rparr>) = running_load s"
  "running_load (s\<lparr> keepAlive := ka \<rparr>) = running_load s"
  "running_load (s\<lparr> posts := po \<rparr>) = running_load s"
  "running_load (s\<lparr> destroyed := de \<rparr>) = running_load s"
  by (simp_all add: workers_def running_load_def)

lemma workers_le: "workers s P \<le> nthreads s"
  unfolding workers_def using sum_mono [of "{..<nthreads s}" "\<lambda>i. of_bool (P (pcs s i))" "\<lambda>_. 1 :: nat"]
  by simp

lemma workers_pos: "i < nthreads s \<Longrightarrow> P (pcs s i) \<Longrightarrow> 0 < workers s P"
  unfolding workers_def by (subst sum.remove [of _ i]) auto

section \<open>The invariant\<close>

text \<open>
  Every token of the semaphore, and every worker between \<open>sem_wait\<close> and \<open>removeLast\<close>, stands for
  one queued job as long as the pool is alive. \<open>threadPool_destroy\<close> adds tokens that stand for no
  job, but only after \<open>threadPool_keepAlive\<close> is cleared, and no worker that is woken later
  passes the second test.
\<close>

definition taking :: "worker_pc \<Rightarrow> bool" where
  "taking p \<longleftrightarrow> p = WantLock \<or> p = InLock"

definition tokens_ok :: "pool \<Rightarrow> bool" where
  "tokens_ok s \<longleftrightarrow>
     (if keepAlive s
      then posts s = 0 \<and>
        queueSem (jobQueue s) + workers s (\<lambda>p. p = Woken) + workers s taking = number (jobQueue s)
      else workers s taking \<le> number (jobQueue s) \<or> destroyed s) \<and>
     (\<not> keepAlive s \<longrightarrow> posts s + workers s (\<lambda>p. p = AtSem) \<le> queueSem (jobQueue s) + nthreads s)"

definition mutex_ok :: "pool \<Rightarrow> bool" where
  "mutex_ok s \<longleftrightarrow> (\<forall>i. pcs s i = InLock \<longleftrightarrow> mutex s = Some i)"

definition held_ok :: "pool \<Rightarrow> bool" where
  "held_ok s \<longleftrightarrow>
     (\<forall>i x. holding (pcs s i) = Some x \<longrightarrow>
        jobs (jobQueue s) x \<noteq> None \<and> x \<notin> set (queued (jobQueue s))) \<and>
     (\<forall>i j x. holding (pcs s i) = Some x \<longrightarrow> holding (pcs s j) = Some x \<longrightarrow> i = j)"

definition work_ok :: "pool \<Rightarrow> bool" where
  "work_ok s \<longleftrightarrow> (destroyed s \<or> mset (submitted s) = mset (executed s) + running_load s + queued_load s)"

definition pool_inv :: "pool \<Rightarrow> bool" where
  "pool_inv s \<longleftrightarrow> jq_wf (jobQueue s) \<and> tokens_ok s \<and> mutex_ok s \<and> held_ok s \<and> work_ok s \<and>
     (destroyed s \<longrightarrow> \<not> keepAlive s \<and> (\<forall>i < nthreads s. pcs s i = Exited)) \<and>
     (\<forall>i \<ge> nthreads s. pcs s i = Top)"

section \<open>The invariant holds\<close>

lemma initial_inv:
  assumes "threadPool_init num True True True m = Some s"
  shows "pool_inv s"
  using assms
  by (auto simp: threadPool_init_def threadPool_jobQueue_init_def pool_inv_def tokens_ok_def
      mutex_ok_def held_ok_def work_ok_def workers_def running_load_def queued_load_def load_of_def
      holding_def taking_def jq_wf_def queued_def represents_def first_ptr_def last_ptr_def)

lemma pool_invD:
  assumes "pool_inv s"
  shows "jq_wf (jobQueue s)" "tokens_ok s" "mutex_ok s" "held_ok s" "work_ok s"
    "i < nthreads s \<Longrightarrow> destroyed s \<Longrightarrow> pcs s i = Exited" "destroyed s \<Longrightarrow> \<not> keepAlive s"
    "nthreads s \<le> i \<Longrightarrow> pcs s i = Top"
  using assms by (auto simp: pool_inv_def)

lemma wf_number: "jq_wf q \<Longrightarrow> number q = length (queued q)"
  by (auto dest!: jq_wfD simp: represents_def)

lemma wf_live: "jq_wf q \<Longrightarrow> x \<in> set (queued q) \<Longrightarrow> jobs q x \<noteq> None"
  using dlseg_live [of "jobs q" Null "rev (queued q)" Null x] jq_wfD [of q]
  by (auto simp: represents_def)

lemma wf_sem [simp]:
  "queued (q\<lparr> queueSem := k \<rparr>) = queued q" "jq_wf (q\<lparr> queueSem := k \<rparr>) = jq_wf q"
  by (simp_all add: queued_def jq_wf_def represents_def)

lemma holding_simps [simp]:
  "holding (Running x f a) = Some x" "holding (AtFree x) = Some x" "holding Top = None"
  "holding AtSem = None" "holding Woken = None" "holding WantLock = None" "holding InLock = None"
  "holding Exited = None"
  by (simp_all add: holding_def)

lemma load_of_simps [simp]:
  "load_of (Running x f a) = {#(f, a)#}" "load_of (AtFree x) = {#}" "load_of Top = {#}"
  "load_of AtSem = {#}" "load_of Woken = {#}" "load_of WantLock = {#}" "load_of InLock = {#}"
  "load_of Exited = {#}"
  by (simp_all add: load_of_def)

lemma held_okD:
  assumes "held_ok s" "holding (pcs s i) = Some x"
  shows "jobs (jobQueue s) x \<noteq> None" "x \<notin> set (queued (jobQueue s))"
    "holding (pcs s j) = Some x \<Longrightarrow> i = j"
  using assms by (auto simp: held_ok_def)

text \<open>A worker that holds the mutex finds a job.\<close>

lemma take_job_finds:
  assumes inv: "pool_inv s" and i: "i < nthreads s" "pcs s i = InLock"
  shows "\<exists>x l q f a. queued (jobQueue s) = x # l \<and>
    take_job s i = Inr (goto (s\<lparr> jobQueue := q, mutex := None \<rparr>) i (Running x f a)) \<and>
    jq_wf q \<and> queued q = l \<and> payload (jobs q) = payload (jobs (jobQueue s)) \<and>
    dom (jobs q) = dom (jobs (jobQueue s)) \<and> queueSem q = queueSem (jobQueue s) \<and>
    payload (jobs q) x = Some (f, a)"
proof -
  let ?q = "jobQueue s"
  note I = pool_invD [OF inv]
  have "0 < workers s taking" using workers_pos [of i s taking] i by (simp add: taking_def)
  moreover have "\<not> destroyed s" using I(6) i by auto
  ultimately have "0 < number ?q" using I(2) by (auto simp: tokens_ok_def split: if_splits)
  then obtain x l where xl: "queued ?q = x # l"
    using wf_number [OF I(1)] by (cases "queued ?q") auto
  have rep: "represents ?q (rev l @ [x])" using jq_wfD [OF I(1)] xl by simp
  obtain q where q: "threadPool_jobQueue_removeLast ?q = Inr (0, q)" "represents q (rev l)"
      "queueSem q = queueSem ?q" "payload (jobs q) = payload (jobs ?q)" "dom (jobs q) = dom (jobs ?q)"
    using removeLast_correct [OF rep] by blast
  obtain j where j: "jobs ?q x = Some j" using wf_live [OF I(1), of x] xl by auto
  have "threadPool_jobQueue_peek ?q = Ptr x"
    using rep by (simp add: threadPool_jobQueue_peek_def represents_def last_ptr_def)
  then have "take_job s i =
      Inr (goto (s\<lparr> jobQueue := q, mutex := None \<rparr>) i (Running x (func j) (jarg j)))"
    using q(1) j by (simp add: take_job_def)
  moreover have "payload (jobs q) x = Some (func j, jarg j)"
    unfolding q(4) using j by (simp add: payload_def)
  ultimately show ?thesis
    using xl q represents_wf [OF q(2)] represents_queued [OF q(2)]
    by (intro exI [of _ x] exI [of _ l] exI [of _ q] exI [of _ "func j"] exI [of _ "jarg j"]) simp
qed

lemma worker_step_queue:
  assumes inv: "pool_inv s" and i: "i < nthreads s" and st: "worker_step s i t"
  shows "jq_wf (jobQueue t)"
  using st
proof cases
  case take_work
  then show ?thesis using take_job_finds [OF inv i] by auto
next
  case (free_job x m)
  let ?q = "jobQueue s"
  have x: "x \<notin> set (queued ?q)"
    using free_job held_okD(2) [OF pool_invD(4) [OF inv], of i x] by simp
  have "m = (jobs ?q)(x := None)"
    using free_job by (auto split: option.splits)
  then have "represents (?q\<lparr> jobs := m \<rparr>) (rev (queued ?q))"
    using jq_wfD [OF pool_invD(1) [OF inv]] x by (simp add: represents_def)
  then show ?thesis using free_job represents_wf by auto
qed (use pool_invD(1) [OF inv] in auto)

lemma worker_step_tokens:
  assumes inv: "pool_inv s" and i: "i < nthreads s" and st: "worker_step s i t"
  shows "tokens_ok t"
proof -
  have old: "tokens_ok s" using pool_invD(2) [OF inv] .
  have nd: "pcs s i \<noteq> Exited \<Longrightarrow> \<not> destroyed s" using pool_invD(6) [OF inv i] by auto
  show ?thesis
    using st
  proof cases
    case take_work
    obtain x l q f a where j: "queued (jobQueue s) = x # l"
        "t = goto (s\<lparr> jobQueue := q, mutex := None \<rparr>) i (Running x f a)" "jq_wf q" "queued q = l"
        "queueSem q = queueSem (jobQueue s)"
      using take_job_finds [OF inv i take_work(1)] take_work(2) by fastforce
    have "number (jobQueue s) = Suc (number q)"
      using wf_number [OF j(3)] wf_number [OF pool_invD(1) [OF inv]] j(1,4) by simp
    moreover have "workers t P + of_bool (P InLock) = workers s P + of_bool (P (Running x f a))" for P
      using workers_goto [of i "s\<lparr> jobQueue := q, mutex := None \<rparr>" "Running x f a" P] i j(2) take_work(1)
      by simp
    from this [of taking] this [of "\<lambda>p. p = Woken"] this [of "\<lambda>p. p = AtSem"]
    have "workers s taking = Suc (workers t taking)"
        "workers t (\<lambda>p. p = Woken) = workers s (\<lambda>p. p = Woken)"
        "workers t (\<lambda>p. p = AtSem) = workers s (\<lambda>p. p = AtSem)"
      by (simp_all add: taking_def)
    ultimately show ?thesis using old nd take_work(1) j(2,5) by (auto simp: tokens_ok_def)
  next
    case (sem_wait k)
    let ?s = "s\<lparr> jobQueue := (jobQueue s)\<lparr> queueSem := k \<rparr> \<rparr>"
    show ?thesis
      using old nd sem_wait workers_goto [of i ?s Woken taking] workers_goto [of i ?s Woken "\<lambda>p. p = Woken"]
        workers_goto [of i ?s Woken "\<lambda>p. p = AtSem"] i
      by (auto simp: tokens_ok_def taking_def)
  next
    case (free_job x m)
    let ?s = "s\<lparr> jobQueue := (jobQueue s)\<lparr> jobs := m \<rparr> \<rparr>"
    show ?thesis
      using old nd free_job workers_goto [of i ?s Top taking] workers_goto [of i ?s Top "\<lambda>p. p = Woken"]
        workers_goto [of i ?s Top "\<lambda>p. p = AtSem"] i
      by (auto simp: tokens_ok_def taking_def)
  next
    case lock
    let ?s = "s\<lparr> mutex := Some i \<rparr>"
    show ?thesis
      using old nd lock workers_goto [of i ?s InLock taking] workers_goto [of i ?s InLock "\<lambda>p. p = Woken"]
        workers_goto [of i ?s InLock "\<lambda>p. p = AtSem"] i
      by (auto simp: tokens_ok_def taking_def)
  next
    case (run x f a)
    let ?s = "s\<lparr> executed := executed s @ [(f, a)] \<rparr>"
    show ?thesis
      using old nd run workers_goto [of i ?s "AtFree x" taking]
        workers_goto [of i ?s "AtFree x" "\<lambda>p. p = Woken"]
        workers_goto [of i ?s "AtFree x" "\<lambda>p. p = AtSem"] i
      by (auto simp: tokens_ok_def taking_def)
  next
    case loop_again
    then show ?thesis
      using old nd workers_goto [of i s AtSem taking] workers_goto [of i s AtSem "\<lambda>p. p = Woken"] i
      by (auto simp: tokens_ok_def taking_def)
  next
    case loop_exit
    then show ?thesis
      using old nd workers_goto [of i s Exited taking] workers_goto [of i s Exited "\<lambda>p. p = AtSem"] i
      by (auto simp: tokens_ok_def taking_def)
  next
    case alive
    then show ?thesis
      using old nd workers_goto [of i s WantLock taking] workers_goto [of i s WantLock "\<lambda>p. p = Woken"] i
      by (auto simp: tokens_ok_def taking_def)
  next
    case not_alive
    then show ?thesis
      using old nd workers_goto [of i s Top taking] workers_goto [of i s Top "\<lambda>p. p = AtSem"] i
      by (auto simp: tokens_ok_def taking_def)
  qed
qed

lemma worker_step_mutex:
  assumes inv: "pool_inv s" and i: "i < nthreads s" and st: "worker_step s i t"
  shows "mutex_ok t"
proof -
  have old: "mutex_ok s" using pool_invD(3) [OF inv] .
  then have own: "pcs s i = InLock \<longleftrightarrow> mutex s = Some i" by (simp add: mutex_ok_def)
  show ?thesis
    using st
  proof cases
    case take_work
    obtain x q f a where "t = goto (s\<lparr> jobQueue := q, mutex := None \<rparr>) i (Running x f a)"
      using take_job_finds [OF inv i take_work(1)] take_work(2) by auto
    moreover have "mutex s = Some i" "\<And>k. pcs s k = InLock \<Longrightarrow> k = i"
      using old take_work(1) unfolding mutex_ok_def by (metis, metis option.inject)
    ultimately show ?thesis by (auto simp: mutex_ok_def)
  qed (use old own in \<open>auto simp: mutex_ok_def\<close>)
qed

text \<open>
  A step that neither touches the queue's content nor takes a block keeps \<open>held_ok\<close>.
\<close>

lemma held_ok_goto:
  assumes "held_ok s" "jobs (jobQueue t) = jobs (jobQueue s)" "queued (jobQueue t) = queued (jobQueue s)"
    and "pcs t = (pcs s)(i := p)" "holding p = None \<or> holding p = holding (pcs s i)"
  shows "held_ok t"
proof -
  have "holding (pcs s k) = Some x" if "holding (pcs t k) = Some x" for k x
    using that assms(4,5) by (cases "k = i") auto
  then show ?thesis
    using assms(1-3) unfolding held_ok_def by metis
qed

lemma worker_step_held:
  assumes inv: "pool_inv s" and i: "i < nthreads s" and st: "worker_step s i t"
  shows "held_ok t"
proof -
  have old: "held_ok s" using pool_invD(4) [OF inv] .
  show ?thesis
    using st
  proof cases
    case take_work
    obtain x l q f a where j: "queued (jobQueue s) = x # l"
        "t = goto (s\<lparr> jobQueue := q, mutex := None \<rparr>) i (Running x f a)" "jq_wf q" "queued q = l"
        "dom (jobs q) = dom (jobs (jobQueue s))"
      using take_job_finds [OF inv i take_work(1)] take_work(2) by fastforce
    have live: "jobs q y \<noteq> None \<longleftrightarrow> jobs (jobQueue s) y \<noteq> None" for y
      using j(5) by (auto simp: dom_def)
    have "distinct (x # l)" "jobs (jobQueue s) x \<noteq> None"
      using jq_wfD [OF pool_invD(1) [OF inv]] wf_live [OF pool_invD(1) [OF inv], of x] j(1)
      by (auto simp: represents_def)
    moreover have "holding (pcs s k) \<noteq> Some x" for k
      using held_okD(2) [OF old, of k x] j(1) by auto
    ultimately show ?thesis
      using old j(1,2,4) live unfolding held_ok_def by (auto split: if_splits)
  next
    case (free_job x m)
    have h: "holding (pcs s i) = Some x" using free_job by simp
    have m: "m = (jobs (jobQueue s))(x := None)" using free_job by (auto split: option.splits)
    have "queued (jobQueue t) = queued (jobQueue s)"
    proof -
      have "represents ((jobQueue s)\<lparr> jobs := m \<rparr>) (rev (queued (jobQueue s)))"
        using jq_wfD [OF pool_invD(1) [OF inv]] held_okD(2) [OF old h] m
        by (simp add: represents_def)
      then show ?thesis using free_job represents_queued by fastforce
    qed
    moreover have "holding (pcs s k) = Some x \<Longrightarrow> k = i" for k
      using held_okD(3) [OF old h] by auto
    ultimately show ?thesis
      using old free_job m unfolding held_ok_def by (auto split: if_splits)
  qed (use held_ok_goto [OF old] in \<open>auto simp: goto_def\<close>)
qed

lemma worker_step_work:
  assumes inv: "pool_inv s" and i: "i < nthreads s" and st: "worker_step s i t"
  shows "work_ok t"
proof -
  have old: "work_ok s" using pool_invD(5) [OF inv] .
  have nd: "pcs s i \<noteq> Exited \<Longrightarrow> \<not> destroyed s" using pool_invD(6) [OF inv i] by auto
  show ?thesis
    using st
  proof cases
    case take_work
    obtain x l q f a where j: "queued (jobQueue s) = x # l"
        "t = goto (s\<lparr> jobQueue := q, mutex := None \<rparr>) i (Running x f a)" "queued q = l"
        "payload (jobs q) = payload (jobs (jobQueue s))" "payload (jobs q) x = Some (f, a)"
      using take_job_finds [OF inv i take_work(1)] take_work(2) by fastforce
    have "queued_load s = add_mset (f, a) (queued_load t)"
      using j by (simp add: queued_load_def)
    moreover have "running_load t = add_mset (f, a) (running_load s)"
      using running_load_goto [of i "s\<lparr> jobQueue := q, mutex := None \<rparr>" "Running x f a"] i j(2)
        take_work(1) by simp
    ultimately show ?thesis using old nd take_work(1) j(2) by (simp add: work_ok_def)
  next
    case (free_job x m)
    have x: "x \<notin> set (queued (jobQueue s))"
      using free_job held_okD(2) [OF pool_invD(4) [OF inv], of i x] by simp
    have m: "m = (jobs (jobQueue s))(x := None)" using free_job by (auto split: option.splits)
    have "represents ((jobQueue s)\<lparr> jobs := m \<rparr>) (rev (queued (jobQueue s)))"
      using jq_wfD [OF pool_invD(1) [OF inv]] x m by (simp add: represents_def)
    then have "queued (jobQueue t) = queued (jobQueue s)"
      using free_job represents_queued by fastforce
    then have "queued_load t = queued_load s"
      using x m free_job by (auto simp: queued_load_def payload_def intro!: image_mset_cong arg_cong [of _ _ mset])
    moreover have "running_load t = running_load s"
      using running_load_goto [of i "s\<lparr> jobQueue := (jobQueue s)\<lparr> jobs := m \<rparr> \<rparr>" Top] i free_job by simp
    ultimately show ?thesis using old nd free_job by (simp add: work_ok_def)
  next
    case (run x f a)
    let ?s = "s\<lparr> executed := executed s @ [(f, a)] \<rparr>"
    have "running_load s = add_mset (f, a) (running_load t)"
      using running_load_goto [of i ?s "AtFree x"] i run by simp
    moreover have "queued_load t = queued_load s" using run by (simp add: queued_load_def)
    ultimately show ?thesis using old nd run by (simp add: work_ok_def)
  next
    case (sem_wait k)
    let ?s = "s\<lparr> jobQueue := (jobQueue s)\<lparr> queueSem := k \<rparr> \<rparr>"
    have "running_load t = running_load s" "queued_load t = queued_load s"
      using running_load_goto [of i ?s Woken] i sem_wait by (simp_all add: queued_load_def)
    then show ?thesis using old sem_wait by (simp add: work_ok_def)
  next
    case lock
    have "running_load t = running_load s" "queued_load t = queued_load s"
      using running_load_goto [of i "s\<lparr> mutex := Some i \<rparr>" InLock] i lock by (simp_all add: queued_load_def)
    then show ?thesis using old lock by (simp add: work_ok_def)
  qed (use old running_load_goto [OF i] in \<open>auto simp: work_ok_def queued_load_def\<close>)
qed

lemma worker_step_inv:
  assumes inv: "pool_inv s" and i: "i < nthreads s" and st: "worker_step s i t"
  shows "pool_inv t"
proof -
  have frame: "destroyed t = destroyed s" "nthreads t = nthreads s" "keepAlive t = keepAlive s"
    "\<And>k. k \<noteq> i \<Longrightarrow> pcs t k = pcs s k"
    using st take_job_finds [OF inv i] by (auto elim!: worker_stepE)
  have "\<not> destroyed s" using st pool_invD(6) [OF inv i] by (cases "pcs s i") (auto elim: worker_stepE)
  then show ?thesis
    using worker_step_queue [OF assms] worker_step_tokens [OF assms] worker_step_mutex [OF assms]
      worker_step_held [OF assms] worker_step_work [OF assms] pool_invD(8) [OF inv] frame i
    by (auto simp: pool_inv_def)
qed

lemma add_work_spec:
  assumes "jq_wf q" "jobs q x = None" "threadPool_add_work q (Ptr x) f a = Inr r"
  shows "jq_wf r" "queued r = queued q @ [x]" "queueSem r = queueSem q + 1"
    "payload (jobs r) = (payload (jobs q))(x \<mapsto> (f, a))" "dom (jobs r) = insert x (dom (jobs q))"
proof -
  let ?q = "q\<lparr> jobs := (jobs q)(x \<mapsto> \<lparr> func = f, jarg = a, prev = Indet, nxt = Indet \<rparr>) \<rparr>"
  have rep: "represents q (rev (queued q))" using jq_wfD [OF assms(1)] .
  have x: "x \<notin> set (rev (queued q))" using wf_live [OF assms(1), of x] assms(2) by auto
  then have "represents ?q (rev (queued q))" using rep by (simp add: represents_def)
  from jobQueue_add_correct [OF this x]
  obtain q' where q': "threadPool_jobQueue_add ?q (Ptr x) = Inr q'" "represents q' (x # rev (queued q))"
      "queueSem q' = queueSem q + 1" "payload (jobs q') = payload (jobs ?q)" "dom (jobs q') = dom (jobs ?q)"
    by auto
  then have "r = q'" using assms(3) by (simp add: threadPool_add_work_def)
  then show "jq_wf r" "queued r = queued q @ [x]" "queueSem r = queueSem q + 1"
      "payload (jobs r) = (payload (jobs q))(x \<mapsto> (f, a))" "dom (jobs r) = insert x (dom (jobs q))"
    using q' represents_wf [OF q'(2)] represents_queued [OF q'(2)]
    by (auto simp: payload_def fun_eq_iff)
qed

lemma env_step_inv:
  assumes inv: "pool_inv s" and st: "env_step s t"
  shows "pool_inv t"
  using st
proof cases
  case (add x f a q)
  note I = pool_invD [OF inv]
  note A = add_work_spec [OF I(1) add(4,5)]
  have x: "x \<notin> set (queued (jobQueue s))" using wf_live [OF I(1), of x] add(4) by auto
  have "tokens_ok t"
    using I(2) add(1,2) A(3) wf_number [OF A(1)] wf_number [OF I(1)] A(2)
    by (auto simp: tokens_ok_def split: if_splits)
  moreover have "held_ok t"
  proof -
    have "x \<noteq> y" if "holding (pcs s i) = Some y" for i y
      using held_okD(1) [OF I(4) that] add(4) by auto
    then show ?thesis
      using I(4) A(2,5) add(1) unfolding held_ok_def by (auto simp: dom_def)
  qed
  moreover have "queued_load t = add_mset (f, a) (queued_load s)"
    using A(2,4) x add(1) by (auto simp: queued_load_def intro!: image_mset_cong)
  then have "work_ok t" using I(5) add(1,2) by (auto simp: work_ok_def)
  ultimately show ?thesis
    using inv A(1) add(1,2) by (auto simp: pool_inv_def mutex_ok_def)
next
  case stop
  have "workers s (\<lambda>p. p = AtSem) \<le> nthreads s" by (rule workers_le)
  then have "tokens_ok t"
    using pool_invD(2) [OF inv] stop by (auto simp: tokens_ok_def)
  then show ?thesis
    using inv stop by (auto simp: pool_inv_def mutex_ok_def held_ok_def work_ok_def queued_load_def)
next
  case post
  then have "tokens_ok t"
    using pool_invD(2) [OF inv] by (auto simp: tokens_ok_def)
  then show ?thesis
    using inv post by (auto simp: pool_inv_def mutex_ok_def held_ok_def work_ok_def queued_load_def)
next
  case (joined q)
  have rep: "represents (jobQueue s) (rev (queued (jobQueue s)))"
    using jq_wfD [OF pool_invD(1) [OF inv]] .
  then have "empty_loop (jobs (jobQueue s)) (tail (jobQueue s)) (number (jobQueue s)) =
      Inr (jobs (jobQueue s) |` (- set (queued (jobQueue s))))"
    using empty_loop_correct [of "jobs (jobQueue s)" "rev (queued (jobQueue s))" Null]
    by (simp add: represents_def)
  then have q: "q = (jobQueue s)\<lparr> number := 0, head := Null, tail := Null,
      jobs := jobs (jobQueue s) |` (- set (queued (jobQueue s))) \<rparr>"
    using joined by (simp add: threadPool_jobQueue_empty_def)
  have "represents q []" by (simp add: q represents_def first_ptr_def last_ptr_def)
  note e = represents_wf [OF this] represents_queued [OF this]
  have gone: "holding (pcs s i) = None" for i
    using joined pool_invD(8) [OF inv, of i] by (cases "i < nthreads s") auto
  have "tokens_ok t"
    using pool_invD(2) [OF inv] joined q by (auto simp: tokens_ok_def)
  then show ?thesis
    using inv e joined gone by (auto simp: pool_inv_def mutex_ok_def held_ok_def work_ok_def)
qed

interpretation workers: invariant_system pool_created pool_step pool_inv
  by unfold_locales (auto simp: pool_created_def pool_step_def intro: initial_inv worker_step_inv env_step_inv)

lemmas pool_reachable_inv = workers.reachable_inv

section \<open>Properties\<close>

text \<open>
  A run for the witnesses: a pool of one worker, one job added, the worker woken and in the
  critical section; and a pool whose destruction has made all its posts.
\<close>

definition demo0 :: pool where
  "demo0 = \<lparr> nthreads = 1, keepAlive = True,
     jobQueue = \<lparr> number = 0, queueSem = 0, head = Null, tail = Null, jobs = Map.empty \<rparr>,
     mutex = None, pcs = (\<lambda>_. Top), posts = 0, destroyed = False, submitted = [], executed = [] \<rparr>"

definition demo1 :: pool where
  "demo1 = demo0\<lparr> jobQueue := \<lparr> number = 1, queueSem = 1, head = Ptr 4, tail = Ptr 4,
     jobs = [4 \<mapsto> \<lparr> func = 5, jarg = 6, prev = Null, nxt = Null \<rparr>] \<rparr>, submitted := [(5, 6)] \<rparr>"

definition demo2 :: pool where "demo2 = goto demo1 0 AtSem"

definition demo3 :: pool where
  "demo3 = goto (demo2\<lparr> jobQueue := (jobQueue demo2)\<lparr> queueSem := 0 \<rparr> \<rparr>) 0 Woken"

definition demo4 :: pool where "demo4 = goto demo3 0 WantLock"

definition demo5 :: pool where "demo5 = goto (demo4\<lparr> mutex := Some 0 \<rparr>) 0 InLock"

definition demo6 :: pool where
  "demo6 = goto (demo5\<lparr> jobQueue := (jobQueue demo0)\<lparr> jobs := jobs (jobQueue demo5) \<rparr>, mutex := None \<rparr>)
     0 (Running 4 5 6)"

definition demo7 :: pool where
  "demo7 = goto (demo6\<lparr> executed := [(5, 6)] \<rparr>) 0 (AtFree 4)"

definition demo_stopped :: pool where
  "demo_stopped = demo0\<lparr> keepAlive := False, posts := 2,
     jobQueue := (jobQueue demo0)\<lparr> queueSem := 2 \<rparr> \<rparr>"

lemma demo0_reachable: "pool_reachable demo0"
  by (rule pool_starts [of 1 Map.empty])
    (simp add: threadPool_init_def threadPool_jobQueue_init_def clamp_number_def demo0_def)

lemma demo1_reachable: "pool_reachable demo1"
proof (rule environment [OF demo0_reachable])
  have "threadPool_add_work (jobQueue demo0) (Ptr 4) 5 6 = Inr (jobQueue demo1)"
    by (simp add: demo0_def demo1_def threadPool_add_work_def threadPool_jobQueue_add_def)
  then have "env_step demo0 (demo0\<lparr> jobQueue := jobQueue demo1, submitted := submitted demo0 @ [(5, 6)] \<rparr>)"
    by (intro env_step.add [of _ 4]) (simp_all add: demo0_def)
  then show "env_step demo0 demo1" by (simp add: demo1_def demo0_def)
qed

lemma demo4_reachable: "pool_reachable demo4"
proof -
  have "worker_step demo1 0 demo2"
    unfolding demo2_def by (rule loop_again) (simp_all add: demo1_def demo0_def)
  then have r2: "pool_reachable demo2"
    by (rule worker [OF demo1_reachable, rotated]) (simp add: demo1_def demo0_def)
  have "worker_step demo2 0 demo3"
    unfolding demo3_def by (rule sem_wait) (simp_all add: demo2_def demo1_def demo0_def)
  then have r3: "pool_reachable demo3"
    by (rule worker [OF r2, rotated]) (simp add: demo2_def demo1_def demo0_def)
  have "worker_step demo3 0 demo4"
    unfolding demo4_def by (rule alive) (simp_all add: demo3_def demo2_def demo1_def demo0_def)
  then show ?thesis
    by (rule worker [OF r3, rotated]) (simp add: demo3_def demo2_def demo1_def demo0_def)
qed

lemma demo5_reachable: "pool_reachable demo5"
proof -
  have "worker_step demo4 0 demo5"
    unfolding demo5_def
    by (rule lock) (simp_all add: demo4_def demo3_def demo2_def demo1_def demo0_def)
  then show ?thesis
    by (rule worker [OF demo4_reachable, rotated])
      (simp add: demo4_def demo3_def demo2_def demo1_def demo0_def)
qed

lemma demo7_reachable: "pool_reachable demo7"
proof -
  note defs = demo5_def demo4_def demo3_def demo2_def demo1_def demo0_def goto_def
  have "take_job demo5 0 = Inr demo6"
    by (simp add: defs demo6_def take_job_def deref_def threadPool_jobQueue_peek_def
        threadPool_jobQueue_removeLast_def)
  then have "worker_step demo5 0 demo6"
    by (intro take_work) (simp_all add: demo5_def goto_def)
  then have r6: "pool_reachable demo6"
    by (rule worker [OF demo5_reachable, rotated]) (simp add: defs)
  have "worker_step demo6 0 (goto (demo6\<lparr> executed := executed demo6 @ [(5, 6)] \<rparr>) 0 (AtFree 4))"
    by (rule run) (simp add: demo6_def goto_def)
  then have "worker_step demo6 0 demo7"
    by (simp add: demo7_def demo6_def defs)
  then show ?thesis by (rule worker [OF r6, rotated]) (simp add: defs demo6_def)
qed

lemma demo_stopped_reachable: "pool_reachable demo_stopped"
proof -
  let ?s1 = "demo0\<lparr> keepAlive := False \<rparr>"
  have r1: "pool_reachable ?s1"
    by (rule environment [OF demo0_reachable], rule stop) (simp add: demo0_def)
  let ?s2 = "?s1\<lparr> posts := posts ?s1 + 1,
    jobQueue := (jobQueue ?s1)\<lparr> queueSem := queueSem (jobQueue ?s1) + 1 \<rparr> \<rparr>"
  have r2: "pool_reachable ?s2"
    by (rule environment [OF r1], rule post) (simp_all add: demo0_def)
  have "pool_reachable (?s2\<lparr> posts := posts ?s2 + 1,
      jobQueue := (jobQueue ?s2)\<lparr> queueSem := queueSem (jobQueue ?s2) + 1 \<rparr> \<rparr>)"
    by (rule environment [OF r2], rule post) (simp_all add: demo0_def)
  then show ?thesis by (simp add: demo_stopped_def demo0_def numeral_2_eq_2)
qed

text \<open>
  C18: in every reachable state of the pool, however adding, working and destroying interleave, a
  worker that holds the mutex finds a job: it never follows a null or dangling pointer, the
  \<open>removeLast\<close> in the critical section succeeds, and the worker goes on with the oldest queued
  job and its own function and argument.
\<close>

theorem worker_always_finds_job:
  assumes "pool_reachable s" "i < nthreads s" "pcs s i = InLock"
  shows "\<exists>x l f a t. queued (jobQueue s) = x # l \<and> payload (jobs (jobQueue s)) x = Some (f, a) \<and>
    take_job s i = Inr t \<and> pcs t i = Running x f a \<and> queued (jobQueue t) = l \<and> mutex t = None"
  using take_job_finds [OF pool_reachable_inv [OF assms(1)] assms(2,3)] by fastforce

theorem worker_always_finds_job_witness:
  "\<exists>x l f a t. queued (jobQueue demo5) = x # l \<and>
    payload (jobs (jobQueue demo5)) x = Some (f, a) \<and>
    take_job demo5 0 = Inr t \<and> pcs t 0 = Running x f a \<and> queued (jobQueue t) = l \<and> mutex t = None"
  by (rule worker_always_finds_job [OF demo5_reachable])
    (simp_all add: demo5_def demo4_def demo3_def demo2_def demo1_def demo0_def)

text \<open>
  At most one worker is in the critical section, no two workers hold the same job, and the
  \<open>free\<close> of a finished job frees a live block that is not queued.
\<close>

lemma workers_exclusive:
  assumes "pool_reachable s"
  shows "(pcs s i = InLock \<and> pcs s j = InLock \<longrightarrow> i = j) \<and>
    (holding (pcs s i) = Some x \<and> holding (pcs s j) = Some x \<longrightarrow> i = j) \<and>
    (pcs s i = AtFree x \<longrightarrow> x \<notin> set (queued (jobQueue s)) \<and>
      (\<exists>m. free (jobs (jobQueue s)) (Ptr x) = Inr m))"
proof -
  note I = pool_invD [OF pool_reachable_inv [OF assms]]
  have "pcs s i = InLock \<and> pcs s j = InLock \<longrightarrow> i = j"
    using I(3) unfolding mutex_ok_def by (metis option.inject)
  moreover have "holding (pcs s i) = Some x \<and> holding (pcs s j) = Some x \<longrightarrow> i = j"
    using I(4) held_okD(3) by blast
  moreover have "x \<notin> set (queued (jobQueue s)) \<and> (\<exists>m. free (jobs (jobQueue s)) (Ptr x) = Inr m)"
    if "pcs s i = AtFree x"
    using held_okD(1,2) [OF I(4), of i x] that by auto
  ultimately show ?thesis by blast
qed

lemma workers_exclusive_witness:
  "4 \<notin> set (queued (jobQueue demo7)) \<and> (\<exists>m. free (jobs (jobQueue demo7)) (Ptr 4) = Inr m)"
proof -
  have "pcs demo7 0 = AtFree 4" by (simp add: demo7_def goto_def)
  then show ?thesis using workers_exclusive [OF demo7_reachable, of 0 0 4] by blast
qed

text \<open>
  C14: until the pool is destroyed no work is lost and none is done twice: what was submitted is,
  as a multiset, what has been executed, what workers have taken and what is queued.
\<close>

theorem work_conserved:
  assumes "pool_reachable s" "\<not> destroyed s"
  shows "mset (submitted s) = mset (executed s) + running_load s + queued_load s"
  using pool_invD(5) [OF pool_reachable_inv [OF assms(1)]] assms(2) by (simp add: work_ok_def)

theorem work_conserved_witness:
  "mset (submitted demo5) = mset (executed demo5) + running_load demo5 + queued_load demo5"
  by (rule work_conserved [OF demo5_reachable])
    (simp add: demo5_def demo4_def demo3_def demo2_def demo1_def demo0_def)

text \<open>Whoever holds the mutex finds work, so a worker that waits for it is not stuck.\<close>

lemma holder_steps:
  assumes "pool_inv s" "i < nthreads s" "pcs s i = WantLock"
  shows "\<exists>i < nthreads s. \<exists>t. worker_step s i t"
proof (cases "mutex s")
  case None
  then show ?thesis using worker_step.lock assms(2,3) by blast
next
  case (Some j)
  then have j: "pcs s j = InLock" using pool_invD(3) [OF assms(1)] by (simp add: mutex_ok_def)
  then have "j < nthreads s" using pool_invD(8) [OF assms(1), of j] by (cases "j < nthreads s") auto
  then show ?thesis using take_job_finds [OF assms(1) _ j] worker_step.take_work [OF j] by blast
qed

text \<open>
  C15: the joins of \<open>threadPool_destroy\<close> cannot deadlock: once \<open>threadPool_keepAlive\<close> is cleared and
  the \<open>number + 1\<close> posts are made, as long as a worker has not returned some worker can move.
\<close>

theorem destroy_not_stuck:
  assumes "pool_reachable s" "\<not> keepAlive s" "posts s = nthreads s + 1"
    and "\<exists>i < nthreads s. pcs s i \<noteq> Exited"
  shows "\<exists>i < nthreads s. \<exists>t. worker_step s i t"
proof -
  have inv: "pool_inv s" using pool_reachable_inv [OF assms(1)] .
  note I = pool_invD [OF inv]
  obtain i where i: "i < nthreads s" "pcs s i \<noteq> Exited" using assms(4) by blast
  show ?thesis
  proof (cases "pcs s i")
    case Top
    then show ?thesis using worker_step.loop_exit assms(2) i(1) by blast
  next
    case AtSem
    have "0 < queueSem (jobQueue s)"
      using I(2) assms(2,3) by (auto simp: tokens_ok_def)
    then obtain k where "queueSem (jobQueue s) = Suc k" by (cases "queueSem (jobQueue s)") auto
    then show ?thesis using worker_step.sem_wait AtSem i(1) by blast
  next
    case Woken
    then show ?thesis using worker_step.not_alive assms(2) i(1) by blast
  next
    case WantLock
    then show ?thesis by (rule holder_steps [OF inv i(1)])
  next
    case InLock
    then show ?thesis using take_job_finds [OF inv i(1)] worker_step.take_work i(1) by blast
  next
    case (Running x f a)
    then show ?thesis using worker_step.run i(1) by blast
  next
    case (AtFree x)
    then obtain m where "free (jobs (jobQueue s)) (Ptr x) = Inr m"
      using held_okD(1) [OF I(4), of i x] by auto
    then show ?thesis using worker_step.free_job AtFree i(1) by blast
  qed (use i in simp)
qed

theorem destroy_not_stuck_witness:
  "\<exists>i < nthreads demo_stopped. \<exists>t. worker_step demo_stopped i t"
  by (rule destroy_not_stuck [OF demo_stopped_reachable]) (simp_all add: demo_stopped_def demo0_def)

end
