(* ===== verification/ServerV01.thy ===== *)
theory ServerV01
  imports ServerInit Reactor ThreadPool Slog
begin

text \<open>
  v0.1/server.cc and v0.1/reactor.cc: the program of version 0.1, from the log and the configuration to
  the run of the event loop. The functions that create the three event handlers are declared in
  v0.1/eventhandler.h, src/sig_handler.h and src/Timer.h; their bodies are commented out in the
  repository, so they are parameters here. So is what the system calls return.
\<close>

section \<open>The event loop\<close>

text \<open>
  \<open>waits\<close> lists what would be reported by the calls of \<open>epoll_wait\<close> if \<open>ees\<close> had room for it, with the
  blocks the turn allocates; the array has as many elements as the configuration says, so a number
  that is not positive is an error. \<open>None\<close> stands for \<open>exit(1)\<close> in \<open>get_config\<close>.
\<close>

definition reactor_event_loop :: "(string \<Rightarrow> string option) \<Rightarrow> string \<Rightarrow> string \<Rightarrow> reactor \<Rightarrow>
    ((32 word \<times> int) \<times> ptr \<times> ptr) list list \<Rightarrow> reactor option res" where
  "reactor_event_loop fopen junk val r waits =
     bindE (get_config fopen junk configPath ''MAX_EPOLL_EVENT'' val 20) (\<lambda>c.
       case c of None \<Rightarrow> Inr None
       | Some (found, val) \<Rightarrow>
           if atoi val \<le> 0 then Inl Out_Of_Bounds
           else bindE (event_turns r (map (take (nat (atoi val))) waits)) (\<lambda>r. Inr (Some r)))"

section \<open>The program\<close>

definition SIGALRM :: int where "SIGALRM = 14"

text \<open>What the program has done when it waits for events: its limit of open files, the calls that made
  the socket and the epoll instance, the delays handed to \<open>addTimer\<close>, and the reactor.\<close>

record v01_state =
  rlimit :: "64 word"
  net_calls :: "net_call list"
  timers :: "int list"
  core :: reactor

text \<open>A handler is created, added, and its descriptor is printed.\<close>

definition add_created :: "(reactor \<Rightarrow> (ptr \<times> reactor) res) \<Rightarrow> reactor \<Rightarrow> reactor res" where
  "add_created create r =
     bindE (create r) (\<lambda>(p, r).
     bindE (add_eh r p) (\<lambda>(_, r).
     bindE (deref (handlers r) p) (\<lambda>_. Inr r)))"

text \<open>
  \<open>junk i\<close> is the line buffer of the \<open>i\<close>th call of \<open>get_config\<close>; \<open>val\<close>, \<open>val'\<close> and \<open>val''\<close> are the strings
  the arrays \<open>value\<close> of \<open>main\<close>, \<open>init_server\<close> and \<open>event_loop\<close> hold at first; \<open>w\<close>, \<open>hm\<close>, \<open>mm\<close>, \<open>jm\<close> and \<open>fill\<close>
  are the descriptors and the memory at the start. The left result is the code the program exits
  with. Allocations succeed; \<open>event_loop\<close> does not return, and what follows it is not reached. The
  third handler is not printed, so it is only added.
\<close>

definition server_v01 :: "(string \<Rightarrow> string option) \<Rightarrow> (nat \<Rightarrow> string) \<Rightarrow> string \<Rightarrow> string \<Rightarrow> string \<Rightarrow>
    bool \<Rightarrow> bool \<Rightarrow> bool \<Rightarrow> net_results \<Rightarrow> bool \<Rightarrow> fd_world \<Rightarrow> event_handler store \<Rightarrow> handle_event_msg store \<Rightarrow>
    thread_job store \<Rightarrow> ptr \<Rightarrow> (int \<Rightarrow> reactor \<Rightarrow> (ptr \<times> reactor) res) \<Rightarrow> (int \<Rightarrow> reactor \<Rightarrow> (ptr \<times> reactor) res) \<Rightarrow>
    (reactor \<Rightarrow> (ptr \<times> reactor) res) \<Rightarrow> ((32 word \<times> int) \<times> ptr \<times> ptr) list list \<Rightarrow> (int + v01_state) res" where
  "server_v01 fopen junk val val' val'' ok1 ok2 ok3 r pair_ok w hm mm jm fill
      create_listen_handler create_signal_handler create_timer_handler waits =
     (if fst (slog_init ok1 ok2 ok3) \<noteq> 0 then Inr (Inl 0)
      else bindE (get_config fopen (junk 0) configPath ''RLIMIT'' val 20) (\<lambda>c.
        case c of None \<Rightarrow> Inr (Inl 1)
        | Some (found, val) \<Rightarrow>
            (case threadPool_init 20 True True True jm of None \<Rightarrow> Inl Null_Deref
             | Some p \<Rightarrow>
                 bindE (init_server fopen (\<lambda>i. junk (i + 1)) val' r) (\<lambda>i.
                   case i of None \<Rightarrow> Inr (Inl 1)
                   | Some (ret, calls) \<Rightarrow>
                       if ret \<noteq> 0 then Inr (Inl 0)
                       else if \<not> pair_ok then Inl Assert_Failed
                       else let reactor = create_reactor w hm mm (jobQueue p) fill
                       in bindE (add_created (create_listen_handler (socket_fd r)) reactor) (\<lambda>reactor.
                          bindE (add_created (create_signal_handler SIGALRM) reactor) (\<lambda>reactor.
                          bindE (create_timer_handler reactor) (\<lambda>(t, reactor).
                          bindE (add_eh reactor t) (\<lambda>(_, reactor).
                          bindE (reactor_event_loop fopen (junk 4) val'' reactor waits) (\<lambda>l.
                            case l of None \<Rightarrow> Inr (Inl 1)
                            | Some reactor \<Rightarrow>
                                Inr (Inr \<lparr> rlimit = of_int (atoi val), net_calls = calls, timers = [2],
                                  core = reactor \<rparr>))))))))))"


section \<open>Registering the handlers\<close>

text \<open>What the three functions are for: each makes a handler in memory of its own.\<close>

definition creates :: "(reactor \<Rightarrow> (ptr \<times> reactor) res) \<Rightarrow> nat \<Rightarrow> int \<Rightarrow> nat \<Rightarrow> bool" where
  "creates create x n f \<longleftrightarrow> (\<forall>r. create r = Inr (Ptr x, r\<lparr> handlers := (handlers r)(x \<mapsto>
     \<lparr> fd = n, httpConn = Null, handle_event = f \<rparr>) \<rparr>))"

lemma holds_new_handler:
  assumes "holds r xs" "x \<notin> set xs"
  shows "holds (r\<lparr> handlers := (handlers r)(x \<mapsto> h) \<rparr>) xs"
proof -
  let ?r = "r\<lparr> handlers := (handlers r)(x \<mapsto> h) \<rparr>"
  have "eh_ok ?r y \<longleftrightarrow> eh_ok r y" "fd_of ?r y = fd_of r y" if "y \<in> set xs" for y
    using that assms(2) by (auto simp: eh_ok_iff fd_of_def)
  then have "list_all (eh_ok ?r) xs = list_all (eh_ok r) xs" and m: "map (fd_of ?r) xs = map (fd_of r) xs"
    by (simp_all add: list_all_iff)
  then show ?thesis using assms(1) unfolding holds_def m by (simp add: fds_ok_def)
qed

lemma add_eh_frame:
  "add_eh r p = Inr (i, r') \<Longrightarrow> handlers r' = handlers r \<and> msgs r' = msgs r \<and> threadPool r' = threadPool r \<and>
     open_fds r' = open_fds r \<and> (\<forall>n. (\<forall>h. deref (handlers r) p = Inr h \<longrightarrow> n \<noteq> fd h) \<longrightarrow> interests r' n = interests r n)"
  by (auto simp: add_eh_def addFd_def setNonBlock_def epoll_ctl_fd_def Let_def elim!: bindE_InrE split: if_splits)

lemma adds_handler:
  assumes "holds r xs" "length xs < MAX_USER - 1" "creates create x n f" "x \<notin> set xs" "f \<noteq> 0"
    "n \<ge> 0" "n \<in> open_fds r" "interests r n = None"
  obtains r1 r' where "create r = Inr (Ptr x, r1)" "add_eh r1 (Ptr x) = Inr (0, r')" "add_created create r = Inr r'"
    "holds r' (xs @ [x])" "handlers r' = (handlers r)(x \<mapsto> \<lparr> fd = n, httpConn = Null, handle_event = f \<rparr>)"
    "msgs r' = msgs r" "threadPool r' = threadPool r" "open_fds r' = open_fds r"
    "\<forall>m. m \<noteq> n \<longrightarrow> interests r' m = interests r m"
proof -
  let ?h = "\<lparr> fd = n, httpConn = Null, handle_event = f \<rparr>"
  let ?r1 = "r\<lparr> handlers := (handlers r)(x \<mapsto> ?h) \<rparr>"
  have c: "create r = Inr (Ptr x, ?r1)" using assms(3) by (simp add: creates_def)
  obtain r' where r': "add_eh ?r1 (Ptr x) = Inr (0, r')" "holds r' (xs @ [x])"
    using holds_add [OF holds_new_handler [OF assms(1,4)] assms(2), of ?h x ?h] assms(5-8) by auto
  show ?thesis
    using that [OF c r'(1) _ r'(2)] add_eh_frame [OF r'(1)] c r'(1) by (simp add: add_created_def)
qed


section \<open>What is dispatched\<close>

text \<open>The events that become jobs when the handler functions of the descriptors are given by \<open>F\<close>.\<close>

definition wanted :: "(int \<Rightarrow> nat option) \<Rightarrow> ((32 word \<times> int) \<times> nat \<times> nat) list \<Rightarrow> ((32 word \<times> int) \<times> nat \<times> nat) list" where
  "wanted F = filter (\<lambda>((ev, n), m, j). ev AND EPOLLRDHUP = 0 \<and> F n \<noteq> None)"

lemma to_dispatch_wanted:
  assumes "\<And>n. map_option (\<lambda>x. handle_event (the (handlers r x))) (lookup r xs n) = F n"
  shows "map job_block (to_dispatch r xs ees) = map (\<lambda>(ev, m, j). j) (wanted F ees)"
    "((ev, n), m, j) \<in> set (wanted F ees) \<Longrightarrow>
       \<exists>d \<in> set (to_dispatch r xs ees). job_block d = j \<and> Some (job_fun d) = F n \<and> msg_block d = m"
proof (induction ees)
  case (Cons e ees)
  obtain ev' n' m' j' where e: "e = ((ev', n'), m', j')" by (metis prod.exhaust)
  note F = assms [of n', symmetric]
  { case 1 show ?case using Cons by (cases "lookup r xs n'") (auto simp: wanted_def e F)
  next case 2 then show ?case using Cons by (cases "lookup r xs n'") (auto simp: wanted_def e F) }
qed (simp_all add: wanted_def)

lemma threadPool_init_queue:
  "\<exists>p. threadPool_init i True True True m = Some p \<and> jq_wf (jobQueue p) \<and> queued (jobQueue p) = [] \<and>
     jobs (jobQueue p) = m"
  by (simp add: threadPool_init_def threadPool_jobQueue_init_def jq_wf_def queued_def represents_def
      first_ptr_def last_ptr_def)


text \<open>The three handlers in the table of a new reactor, and the function each descriptor leads to.\<close>

lemma three_handlers:
  assumes "creates c1 x1 n1 f1" "creates c2 x2 n2 f2" "creates c3 x3 n3 f3" "distinct [x1, x2, x3]" "0 \<notin> {f1, f2, f3}"
    "distinct [n1, n2, n3]" "\<forall>n \<in> {n1, n2, n3}. n \<ge> 0 \<and> n \<in> open_fds w" "interests w = (\<lambda>_. None)"
  obtains r1 r2 r2' r3 where "add_created c1 (create_reactor w hm mm q fill) = Inr r1" "add_created c2 r1 = Inr r2"
    "c3 r2 = Inr (Ptr x3, r2')" "add_eh r2' (Ptr x3) = Inr (0, r3)" "holds r3 [x1, x2, x3]" "threadPool r3 = q" "msgs r3 = mm"
    "\<And>n. map_option (\<lambda>x. handle_event (the (handlers r3 x))) (lookup r3 [x1, x2, x3] n) = [n1 \<mapsto> f1, n2 \<mapsto> f2, n3 \<mapsto> f3] n"
proof -
  let ?r = "create_reactor w hm mm q fill"
  have h: "holds ?r []" using assms(8) by (intro holds_create) (simp add: fds_ok_def)
  have r: "open_fds ?r = open_fds w" "interests ?r = (\<lambda>_. None)" "threadPool ?r = q" "msgs ?r = mm"
    using assms(8) by (simp_all add: create_reactor_def)
  have "(0 :: nat) < MAX_USER - 1" "1 < MAX_USER - 1" "2 < MAX_USER - 1" by (simp_all add: MAX_USER_def)
  note room = this
  obtain a r1 where r1: "add_created c1 ?r = Inr r1" "holds r1 ([] @ [x1])"
      "handlers r1 = (handlers ?r)(x1 \<mapsto> \<lparr> fd = n1, httpConn = Null, handle_event = f1 \<rparr>)" "msgs r1 = msgs ?r"
      "threadPool r1 = threadPool ?r" "open_fds r1 = open_fds ?r" "\<forall>m. m \<noteq> n1 \<longrightarrow> interests r1 m = interests ?r m"
    by (rule adds_handler [OF h _ assms(1)]) (use assms(5,7) room r in auto)
  then have h1: "holds r1 [x1]" by simp
  obtain b r2 where r2: "add_created c2 r1 = Inr r2" "holds r2 ([x1] @ [x2])"
      "handlers r2 = (handlers r1)(x2 \<mapsto> \<lparr> fd = n2, httpConn = Null, handle_event = f2 \<rparr>)" "msgs r2 = msgs r1"
      "threadPool r2 = threadPool r1" "open_fds r2 = open_fds r1" "\<forall>m. m \<noteq> n2 \<longrightarrow> interests r2 m = interests r1 m"
    by (rule adds_handler [OF h1 _ assms(2)]) (use assms(4-7) room r r1 in auto)
  then have h2: "holds r2 [x1, x2]" by simp
  obtain r2' r3 where r3: "c3 r2 = Inr (Ptr x3, r2')" "add_eh r2' (Ptr x3) = Inr (0, r3)" "holds r3 ([x1, x2] @ [x3])"
      "handlers r3 = (handlers r2)(x3 \<mapsto> \<lparr> fd = n3, httpConn = Null, handle_event = f3 \<rparr>)" "msgs r3 = msgs r2"
      "threadPool r3 = threadPool r2"
    by (rule adds_handler [OF h2 _ assms(3)]) (use assms(4-7) room r r1 r2 in auto)
  have q: "holds r3 [x1, x2, x3]" "threadPool r3 = q" "msgs r3 = mm" using r r1(4,5) r2(4,5) r3(3,5,6) by simp_all
  show ?thesis
    using that [OF r1(1) r2(1) r3(1,2) q] assms(4,6) r1(3) r2(3) r3(4) by (auto simp: lookup_def fd_of_def)
qed


lemma loop_head:
  assumes "list_all entry_ok es" "fopen configPath = Some (render es)" "length junk = LINE_SIZE"
    "map_of es ''MAX_EPOLL_EVENT'' = Some (decimal_nat k)" "0 < k" "int k \<le> INT_MAX" "length ees \<le> k"
  shows "reactor_event_loop fopen junk val r [ees] = map_sum id Some (event_turn r ees)"
  using get_config_number [where fopen = fopen and val = val, OF assms(1-4,6)] assms(5,7) atoi_decimal [OF assms(6)]
  by (cases "event_turn r ees") (simp_all add: reactor_event_loop_def)

section \<open>Property\<close>

text \<open>
  C9: the program of version 0.1. With a configuration file that gives the four numbers, system calls
  that succeed, and functions that create handlers for three descriptors, it limits the number of
  open files, listens, and enters the event loop with the three handlers in the table and their
  descriptors registered. Of the events \<open>epoll_wait\<close> then reports exactly those that are no hang-up
  and belong to one of the three become jobs, in the order of the report, each with the function of
  its handler.
\<close>

theorem v01_dispatches:
  assumes "list_all entry_ok es" "fopen configPath = Some (render es)" "\<And>i. length (junk i) = LINE_SIZE"
    "map_of es ''RLIMIT'' = Some (decimal_nat l)" "int l \<le> INT_MAX"
    "map_of es ''PORT'' = Some (decimal_nat p)" "p < 65536"
    "map_of es ''BACKLOG'' = Some (decimal_nat b)" "int b \<le> INT_MAX"
    "map_of es ''MAX_EPOLL_EVENT'' = Some (decimal_nat k)" "0 < k" "int k \<le> INT_MAX" "length ees \<le> k"
    "socket_fd r \<noteq> - 1" "bind_ok r" "listen_ok r" "epoll_result r \<noteq> - 1"
    "creates (c1 (socket_fd r)) x1 (socket_fd r) f1" "creates (c2 SIGALRM) x2 n2 f2" "creates c3 x3 n3 f3"
    "distinct [x1, x2, x3]" "0 \<notin> {f1, f2, f3}" "distinct [socket_fd r, n2, n3]"
    "\<forall>n \<in> {socket_fd r, n2, n3}. n \<ge> 0 \<and> n \<in> open_fds w" "interests w = (\<lambda>_. None)"
    "distinct (map (\<lambda>(ev, m, j). m) ees)" "distinct (map (\<lambda>(ev, m, j). j) ees)"
    "\<forall>(ev, m, j) \<in> set ees. mm m = None \<and> jm j = None"
  shows "\<exists>s. server_v01 fopen junk val val' val'' True True True r True w hm mm jm fill c1 c2 c3 [with_blocks ees] = Inr (Inr s) \<and>
    rlimit s = of_nat l \<and>
    net_calls s = [Socket, Reuse_Addr, Reuse_Port, Bind (int p), Listen (int b), Epoll_Create (int b)] \<and>
    holds (core s) [x1, x2, x3] \<and>
    (let F = [socket_fd r \<mapsto> f1, n2 \<mapsto> f2, n3 \<mapsto> f3]; q = threadPool (core s)
     in queued q = map (\<lambda>(ev, m, j). j) (wanted F ees) \<and>
        (\<forall>((ev, n), m, j) \<in> set (wanted F ees). payload (jobs q) j = map_option (\<lambda>f. (f, m)) (F n)))"
proof -
  note cfg = assms(1,2)
  define F where "F = [socket_fd r \<mapsto> f1, n2 \<mapsto> f2, n3 \<mapsto> f3]"
  obtain q where q: "threadPool_init 20 True True True jm = Some q" "jq_wf (jobQueue q)" "queued (jobQueue q) = []"
      "jobs (jobQueue q) = jm"
    using threadPool_init_queue by blast
  obtain r1 r2 r2' r3 where R: "add_created (c1 (socket_fd r)) (create_reactor w hm mm (jobQueue q) fill) = Inr r1"
      "add_created (c2 SIGALRM) r1 = Inr r2" "c3 r2 = Inr (Ptr x3, r2')" "add_eh r2' (Ptr x3) = Inr (0, r3)"
      "holds r3 [x1, x2, x3]" "threadPool r3 = jobQueue q" "msgs r3 = mm"
    and F: "\<And>n. map_option (\<lambda>x. handle_event (the (handlers r3 x))) (lookup r3 [x1, x2, x3] n) = F n"
    unfolding F_def by (rule three_handlers [where hm = hm and mm = mm and q = "jobQueue q" and fill = fill, OF assms(18-25)]) blast
  have "jq_wf (threadPool r3)" "fresh_blocks r3 ees"
    using R(6,7) q(2,4) assms(26-28) by (simp_all add: fresh_blocks_def)
  from event_turn_dispatches [OF R(5) this] obtain r4 where
    r4: "event_turn r3 (with_blocks ees) = Inr r4" "holds r4 [x1, x2, x3]"
      "queued (threadPool r4) = map job_block (to_dispatch r3 [x1, x2, x3] ees)"
      "list_all (carries r4) (to_dispatch r3 [x1, x2, x3] ees)"
    using R(6) q(3) by auto
  have "length (with_blocks ees) \<le> k" using assms(13) by (simp add: with_blocks_def)
  note loop = loop_head [where fopen = fopen and junk = "junk 4" and r = r3 and val = val'', OF cfg assms(3,10-12) this]
  have "of_int (int l) = (of_nat l :: 64 word)" by simp
  then have "server_v01 fopen junk val val' val'' True True True r True w hm mm jm fill c1 c2 c3 [with_blocks ees] =
      Inr (Inr \<lparr> rlimit = of_nat l, net_calls = [Socket, Reuse_Addr, Reuse_Port, Bind (int p), Listen (int b), Epoll_Create (int b)],
        timers = [2], core = r4 \<rparr>)"
    using get_config_number [where fopen = fopen and val = val, OF cfg assms(3-5)]
      init_server_uses_backlog_twice [where fopen = fopen and junk = "\<lambda>i. junk (i + 1)" and val = val' and r = r, OF cfg assms(3,6-9,14-17)]
      atoi_decimal [OF assms(5)]
    by (simp add: server_v01_def slog_init_def q(1) R(1-4) loop r4(1))
  moreover have "payload (jobs (threadPool r4)) j = map_option (\<lambda>f. (f, m)) (F n)"
    if "((ev, n), m, j) \<in> set (wanted F ees)" for ev n m j
    using to_dispatch_wanted(2) [OF F that] r4(4) by (metis (no_types, lifting) carries_def list_all_iff option.simps(9))
  ultimately show ?thesis
    unfolding F_def [symmetric] Let_def using r4(2,3) to_dispatch_wanted(1) [OF F] by auto
qed


definition new_handler :: "nat \<Rightarrow> int \<Rightarrow> nat \<Rightarrow> reactor \<Rightarrow> (ptr \<times> reactor) res" where
  "new_handler x n f r = Inr (Ptr x, r\<lparr> handlers := (handlers r)(x \<mapsto>
     \<lparr> fd = n, httpConn = Null, handle_event = f \<rparr>) \<rparr>)"

definition v01_entries :: "(string \<times> string) list" where
  "v01_entries = [(''PORT'', decimal_nat 9000), (''BACKLOG'', decimal_nat 4096),
     (''MAX_EPOLL_EVENT'', decimal_nat 6553), (''RLIMIT'', decimal_nat 655360)]"

theorem v01_dispatches_witness:
  "\<exists>s. server_v01 [configPath \<mapsto> render v01_entries] (\<lambda>i. no_junk) '''' '''' '''' True True True
      \<lparr> socket_fd = 5, bind_ok = True, listen_ok = True, epoll_result = 4 \<rparr> True open_world Map.empty Map.empty Map.empty Null
      (\<lambda>n. new_handler 1 n 77) (\<lambda>sig. new_handler 2 6 88) (new_handler 3 7 99)
      [with_blocks [((EPOLLIN, 7), 20, 30), ((EPOLLIN, 8), 21, 31), ((EPOLLRDHUP, 5), 22, 32), ((EPOLLIN, 5), 23, 33)]] =
      Inr (Inr s) \<and>
    rlimit s = 655360 \<and> queued (threadPool (core s)) = [30, 33] \<and> payload (jobs (threadPool (core s))) 33 = Some (77, 23)"
proof -
  let ?es = "[((EPOLLIN, 7), 20, 30), ((EPOLLIN, 8), 21, 31), ((EPOLLRDHUP, 5), 22, 32),
    ((EPOLLIN, 5 :: int), 23 :: nat, 33 :: nat)]"
  have e: "list_all entry_ok v01_entries" by (simp add: v01_entries_def entry_ok_decimal isblank_def)
  have w: "wanted [5 \<mapsto> 77, 6 \<mapsto> 88, 7 \<mapsto> 99] ?es = [((EPOLLIN, 7), 20, 30), ((EPOLLIN, 5), 23, 33)]"
    by (simp add: wanted_def epoll_masks)
  show ?thesis
    using v01_dispatches [where es = v01_entries and fopen = "[configPath \<mapsto> render v01_entries]" and junk = "\<lambda>i. no_junk"
        and l = 655360 and p = 9000 and b = 4096 and k = 6553 and ees = ?es and val = "''''" and val' = "''''" and val'' = "''''"
        and r = "\<lparr> socket_fd = 5, bind_ok = True, listen_ok = True, epoll_result = 4 \<rparr>" and w = open_world
        and hm = Map.empty and mm = Map.empty and jm = Map.empty and fill = Null and ?c1.0 = "\<lambda>n. new_handler 1 n 77"
        and ?c2.0 = "\<lambda>sig. new_handler 2 6 88" and ?c3.0 = "new_handler 3 7 99" and ?x1.0 = 1 and ?x2.0 = 2 and ?x3.0 = 3
        and ?n2.0 = 6 and ?n3.0 = 7 and ?f1.0 = 77 and ?f2.0 = 88 and ?f3.0 = 99] e
    by (auto simp: v01_entries_def no_junk_def INT_MAX_def creates_def new_handler_def open_world_def Let_def w)
qed

end
