(* ===== verification/ServerTurn.thy ===== *)
theory ServerTurn
  imports TcpServer
begin

text \<open>
  A client of the server from the first event to the last: the turns that the loop of its connection
  makes for the events of the socket, put together from \<open>poll\<close>, \<open>handleEvent\<close>, the callbacks of the
  connection and \<open>doPendingFunctors\<close>, and across the loops of the server.
\<close>

section \<open>What the bound functions of a connection do\<close>

text \<open>
  The callbacks a TcpConnection sets for its channel, and the one of the wake-up channel. What is
  queued, and what belongs to the server, is run by \<open>run_call\<close> of theory TcpServer.
\<close>

fun run_bound :: "callbacks \<Rightarrow> nat \<Rightarrow> bound_call \<Rightarrow> loop_state \<Rightarrow> loop_state res" where
  "run_bound cb tid LoopHandleRead l = Inr (loop_handleRead l)"
| "run_bound cb tid (HandleRead x) l = handleRead cb tid x l"
| "run_bound cb tid (HandleWrite x) l = handleWrite cb tid x l"
| "run_bound cb tid (HandleError x) l = handleError x l"
| "run_bound cb tid (HandleClose x) l = handleClose cb tid x l"
| "run_bound cb tid f l = Inl Thrown"

definition alive :: "loop_state \<Rightarrow> nat \<Rightarrow> bool" where
  "alive l x \<longleftrightarrow> conns (world l) x \<noteq> None"

text \<open>
  The close callback of the server appends \<open>removeConnectionInLoop\<close> to the queue of the base loop. While
  the events of another loop are handled it is noted in the queue of that loop, and handed over when
  they have been handled.
\<close>

definition noting :: "callbacks \<Rightarrow> callbacks" where
  "noting cb = cb\<lparr> on_close := Some (\<lambda>x l. Inr (l\<lparr> pendingFunctor := pendingFunctor l @ [RemoveConnectionInLoop x] \<rparr>)) \<rparr>"

fun is_removal :: "bound_call \<Rightarrow> bool" where
  "is_removal (RemoveConnectionInLoop x) = True"
| "is_removal f = False"

definition hand_over :: "nat \<Rightarrow> tcp_server \<Rightarrow> tcp_server" where
  "hand_over L s =
     (if L = base s then s
      else let fs = pendingFunctor (loops s L); b = loops s (base s)
      in set_loop (base s) (b\<lparr> pendingFunctor := pendingFunctor b @ filter is_removal fs \<rparr>)
           (set_loop L ((loops s L)\<lparr> pendingFunctor := filter (\<lambda>f. \<not> is_removal f) fs \<rparr>) s))"

text \<open>
  One turn of an io loop \<open>L\<close>, for what \<open>epoll_wait\<close> returns (theory EventLoop's \<open>loop_turn\<close> on a
  server). The base loop, whose channel is the acceptor's, is the one of \<open>acceptor_handleRead\<close>.
\<close>

definition handle_events :: "callbacks \<Rightarrow> nat \<Rightarrow> (32 word \<times> nat) list option \<Rightarrow> loop_state \<Rightarrow> loop_state res" where
  "handle_events cb tid r l =
     bindE (poll r [] (poller (l\<lparr> activeChannels := [] \<rparr>))) (\<lambda>(act, p).
     bindE (run_active (run_bound cb tid) alive act (l\<lparr> activeChannels := act, poller := p, eventHandling := True \<rparr>)) (\<lambda>l.
       Inr (l\<lparr> currentActiveChannel := None, eventHandling := False \<rparr>)))"

definition io_turn :: "(nat \<Rightarrow> callbacks) \<Rightarrow> nat \<Rightarrow> (32 word \<times> nat) list option \<Rightarrow> tcp_server \<Rightarrow> tcp_server res" where
  "io_turn cbs L r s =
     (let tid = threadId (loops s L)
      in bindE (on_loop L (handle_events (noting (cbs tid)) tid r) s) (\<lambda>s. run_pending cbs L (hand_over L s)))"

section \<open>One event of one connection\<close>

definition touch :: "nat \<Rightarrow> bound_call Channel.channel \<Rightarrow> loop_state \<Rightarrow> loop_state" where
  "touch a ch l = l\<lparr> poller := (poller l)\<lparr> chans := (chans (poller l))(a \<mapsto> ch) \<rparr> \<rparr>"

lemma touch_simps [simp]:
  "world (touch a ch l) = world l" "threadId (touch a ch l) = threadId l" "pendingFunctor (touch a ch l) = pendingFunctor l"
  "eventHandling (touch a ch l) = eventHandling l" "chan (touch a ch l) b = (if b = a then Some ch else chan l b)"
  "poller_at (touch a ch l) n = poller_at l n" "names (touch a ch l) = names l"
  "eventVec_size (poller (touch a ch l)) = eventVec_size (poller l)" "touch a ch (touch a ch' l) = touch a ch l"
  by (simp_all add: touch_def chan_def poller_at_def names_def fun_eq_iff)

lemma conn_ok_touch:
  assumes "conn_ok l x c ch" "fd ch' = fd ch" "status ch' = status ch" "events ch' = events ch"
  shows "conn_ok (touch (channel c) ch' l) x c ch'"
proof -
  have i: "poller_inv None (poller l)" "chans (poller l) (channel c) = Some ch"
    using assms(1) by (simp_all add: conn_ok_def loop_inv_def chan_def)
  have "poller_inv None (poller (touch (channel c) ch' l))"
    unfolding touch_def using poller_inv_same [OF i assms(2-4)] by simp
  moreover have "\<forall>a c' d. chan l a = Some c' \<longrightarrow> chan l (channel c) = Some d \<longrightarrow> fd c' = fd d \<longrightarrow> a = channel c"
    using assms(1) by (auto simp: conn_ok_def loop_inv_def)
  ultimately show ?thesis
    using assms unfolding conn_ok_def loop_inv_def by (auto split: if_splits)
qed

text \<open>The channel of an established connection, as the constructor and \<open>tie\<close> leave it.\<close>

definition serves :: "nat \<Rightarrow> nat \<Rightarrow> int \<Rightarrow> tcp_conn \<Rightarrow> bound_call Channel.channel \<Rightarrow> bool" where
  "serves x a n c ch \<longleftrightarrow> channel c = a \<and> fd ch = n \<and> status ch = CAdded \<and> events ch = CReadEvent \<and>
     tied ch \<and> owner ch = x \<and> \<not> ch_handling ch \<and> readCB ch = Some (HandleRead x) \<and> closeCB ch = Some (HandleClose x) \<and>
     errorCB ch = Some (HandleError x) \<and> writeCB ch = Some (HandleWrite x)"

text \<open>What follows the close callback in \<open>handleEventWithGuard\<close>.\<close>

definition rest_of_event :: "(bound_call \<Rightarrow> loop_state \<Rightarrow> loop_state res) \<Rightarrow> nat \<Rightarrow> loop_state \<Rightarrow> loop_state res" where
  "rest_of_event run a l = bindE (dispatch run a EPOLLERR errorCB l) (\<lambda>l.
     bindE (dispatch run a (EPOLLIN OR EPOLLPRI) readCB l) (dispatch run a EPOLLOUT writeCB))"

lemma mapped:
  assumes "conn_ok l x c ch" "status ch = CAdded"
  shows "map_of (chmap (poller l)) (fd ch) = Some (channel c)"
  using assms by (auto simp: conn_ok_def loop_inv_def poller_inv_def chan_def CAdded_def CNew_def)

lemma handle_one_event:
  fixes e :: "32 word"
  assumes "conn_ok l x c ch" "serves x a n c ch" "1 < eventVec_size (poller l)"
  defines "l1 \<equiv> touch a (ch\<lparr> rcvEvents := e, ch_handling := True \<rparr>)
    (l\<lparr> activeChannels := [a], eventHandling := True, currentActiveChannel := Some a \<rparr>)"
  shows "handle_events cb tid (Some [(e, a)]) l =
    bindE (dispatch (run_bound cb tid) a EPOLLHUP closeCB l1) (\<lambda>l.
    bindE (rest_of_event (run_bound cb tid) a l) (\<lambda>l.
    bindE (with_poller (modify_chan a (\<lambda>c. c\<lparr> ch_handling := False \<rparr>)) l) (\<lambda>l.
      Inr (l\<lparr> currentActiveChannel := None, eventHandling := False \<rparr>))))"
proof -
  let ?p = "(poller l)\<lparr> chans := (chans (poller l))(a \<mapsto> ch\<lparr> rcvEvents := e \<rparr>) \<rparr>"
  have s: "channel c = a" "fd ch = n" "tied ch" "owner ch = x" "status ch = CAdded"
    using assms(2) by (simp_all add: serves_def)
  have c: "chans (poller l) a = Some ch" "conns (world l) x = Some c"
    using assms(1) s(1) by (simp_all add: conn_ok_def chan_def)
  have "poll (Some [(e, a)]) [] (poller l) = Inr ([a], ?p)"
    using assms(3) c(1) mapped [OF assms(1) s(5)] s(1,2)
    by (simp add: poll_def fillActiveChannel_def modify_chan_def setEvents_def)
  then show ?thesis
    using c s(3,4)
    by (simp add: handle_events_def handleEvent_def handleEventWithGuard_def alive_def with_poller_def
        modify_chan_def l1_def touch_def bindE_assoc rest_of_event_def)
qed

text \<open>
  The end of the stream, or an error of the socket, behind at most as many characters as the buffer
  takes.
\<close>

definition peer_ends :: "string list \<Rightarrow> read_result \<Rightarrow> bool" where
  "peer_ends ss r \<longleftrightarrow> (\<forall>s \<in> set ss. s \<noteq> []) \<and> length (concat ss) < READ_BUFFER_SIZE \<and> breaks_off r"

lemma buffered_keeps:
  assumes "conn_ok l x c ch" "only_buffered x n l l'"
  shows "\<exists>c'. conn_ok l' x c' ch \<and> state c' = state c \<and> channel c' = channel c \<and> l' = l\<lparr> world := world l' \<rparr> \<and>
    names l' = names l \<and> sent (world l') = sent (world l)"
proof -
  obtain b i rs where l': "l' = l\<lparr> world := (world l)\<lparr> reads := (reads (world l))(n := rs),
       conns := (conns (world l))(x \<mapsto> c\<lparr> readBuf := b, conn_readIdx := i \<rparr>) \<rparr> \<rparr>"
    using assms by (auto simp: only_buffered_def conn_ok_def)
  have "conns (world l) x = Some c" using assms(1) by (simp add: conn_ok_def)
  then have "names l' = names l" by (auto simp: l' names_def fun_eq_iff)
  then show ?thesis using assms(1) by (auto simp: l' conn_ok_def loop_inv_def chan_def)
qed

lemma rest_is_ignored:
  assumes "conn_ok l x c ch" "isInLoopThread tid l" "\<not> isWriting ch" "conn_readIdx c = 0" "length (readBuf c) = READ_BUFFER_SIZE"
    "errorCB ch = Some (HandleError x)" "readCB ch = Some (HandleRead x)" "writeCB ch = Some (HandleWrite x)"
    "reads (world l) (fd ch) = map Received ss @ [r]" "peer_ends ss r"
  shows "\<exists>l' c'. rest_of_event (run_bound cb tid) (channel c) l = Inr l' \<and> conn_ok l' x c' ch \<and> state c' = state c \<and>
    channel c' = channel c \<and> l' = l\<lparr> world := world l' \<rparr> \<and> names l' = names l \<and> sent (world l') = sent (world l)"
proof -
  let ?run = "run_bound cb tid" and ?a = "channel c"
  have ch: "chans (poller l) ?a = Some ch" using conn_okD(3) [OF assms(1)] .
  have err: "dispatch ?run ?a EPOLLERR errorCB l = Inr l"
    using ch assms(6) by (simp add: dispatch_def handleError_def conn_okD [OF assms(1)])
  obtain l1 where read: "handleRead cb tid x l = Inr l1" "only_buffered x (fd ch) l l1"
    using end_of_stream_is_silent [OF assms(1,2) _ assms(5,9), of cb] assms(4,10) by (auto simp: peer_ends_def)
  have "dispatch ?run ?a (EPOLLIN OR EPOLLPRI) readCB l = Inr (if rcvEvents ch AND (EPOLLIN OR EPOLLPRI) \<noteq> 0 then l1 else l)"
    using ch assms(7) read(1) by (simp add: dispatch_def)
  then obtain l2 where l2: "dispatch ?run ?a (EPOLLIN OR EPOLLPRI) readCB l = Inr l2" "l2 = l \<or> l2 = l1" by auto
  from this(2) obtain c2 where c2: "conn_ok l2 x c2 ch" "state c2 = state c" "channel c2 = ?a" "l2 = l\<lparr> world := world l2 \<rparr>"
      "names l2 = names l" "sent (world l2) = sent (world l)"
    using buffered_keeps [OF assms(1) read(2)] assms(1) by (cases "l2 = l") auto
  have "threadId l2 = threadId l" using arg_cong [OF c2(4), of threadId] by simp
  then have "handleWrite cb tid x l2 = Inr l2"
    using assms(2,3) by (simp add: handleWrite_def conn_okD [OF c2(1)] isInLoopThread_def)
  then have "dispatch ?run ?a EPOLLOUT writeCB l2 = Inr l2"
    using conn_okD(3) [OF c2(1)] assms(8) c2(3) by (simp add: dispatch_def)
  then show ?thesis using err l2(1) c2 by (intro exI [of _ l2] exI [of _ c2]) (simp add: rest_of_event_def)
qed


text \<open>What a turn keeps for everything but the connection it is about.\<close>

definition turn_frame :: "loop_state \<Rightarrow> loop_state \<Rightarrow> int \<Rightarrow> nat \<Rightarrow> bool" where
  "turn_frame l l' n a \<longleftrightarrow> names l' = names l \<and> threadId l' = threadId l \<and> \<not> eventHandling l' \<and>
     eventVec_size (poller l') = eventVec_size (poller l) \<and> others_kept l l' n a"

lemma turn_frame_trans: "turn_frame l k n a \<Longrightarrow> turn_frame k m n a \<Longrightarrow> turn_frame l m n a"
  unfolding turn_frame_def using others_kept_trans [of l k n a m] by auto

text \<open>The fields a turn sets for itself.\<close>

lemma loop_marks [simp]:
  "conn_ok (l\<lparr> activeChannels := as \<rparr>) x c ch = conn_ok l x c ch" "conn_ok (l\<lparr> eventHandling := b \<rparr>) x c ch = conn_ok l x c ch"
  "conn_ok (l\<lparr> currentActiveChannel := r \<rparr>) x c ch = conn_ok l x c ch"
  "isInLoopThread t (l\<lparr> activeChannels := as \<rparr>) = isInLoopThread t l" "isInLoopThread t (l\<lparr> eventHandling := b \<rparr>) = isInLoopThread t l"
  "isInLoopThread t (l\<lparr> currentActiveChannel := r \<rparr>) = isInLoopThread t l"
  "chan (l\<lparr> activeChannels := as \<rparr>) a = chan l a" "chan (l\<lparr> eventHandling := b \<rparr>) a = chan l a"
  "chan (l\<lparr> currentActiveChannel := r \<rparr>) a = chan l a"
  "poller_at (l\<lparr> activeChannels := as \<rparr>) n = poller_at l n" "poller_at (l\<lparr> eventHandling := b \<rparr>) n = poller_at l n"
  "poller_at (l\<lparr> currentActiveChannel := r \<rparr>) n = poller_at l n"
  "names (l\<lparr> activeChannels := as \<rparr>) = names l" "names (l\<lparr> eventHandling := b \<rparr>) = names l"
  "names (l\<lparr> currentActiveChannel := r \<rparr>) = names l"
  by (auto simp: conn_ok_def loop_inv_def chan_def isInLoopThread_def poller_at_def names_def)

lemma isInLoopThread_touch [simp]: "isInLoopThread t (touch a ch l) = isInLoopThread t l"
  by (simp add: isInLoopThread_def)

lemma chan_chans: "chans (poller l) a = chan l a"
  by (simp add: chan_def)

lemma same_names: "same_but_world x c c' wc l l' \<Longrightarrow> conns (world l) x = Some c \<Longrightarrow> names l' = names l"
  by (auto simp: same_but_world_def names_def fun_eq_iff)

lemma turn_reads:
  assumes "idle l x c ch" "serves x a n c ch" "isInLoopThread tid l" "1 < eventVec_size (poller l)"
    "reads (world l) n = map Received ss" "\<forall>s \<in> set ss. s \<noteq> []" "length (concat ss) < READ_BUFFER_SIZE"
    "on_message cb = Some (onMessage http False tid)"
    "spec_request (concat ss) = Inr (Some q)" "map_of (headers q) ''Connection'' = Some v"
    "writes (world l) n = Takes k # ws" "r = http q (HttpResponse (wants_close q v))"
    "length (toString r []) \<le> k"
  shows "\<exists>l' c' ch'. handle_events cb tid (Some [(EPOLLIN, a)]) l = Inr l' \<and> conn_ok l' x c' ch' \<and> serves x a n c' ch' \<and>
    (if closeConnection r then state c' = CDisconnecting \<and> wr_shut (world l') n else idle l' x c' ch') \<and>
    turn_frame l l' n a \<and> pendingFunctor l' = pendingFunctor l \<and>
    sent (world l') = (sent (world l))(n := sent (world l) n @ toString r [])"
proof -
  let ?ch = "ch\<lparr> rcvEvents := EPOLLIN, ch_handling := True \<rparr>"
  have s: "channel c = a" "fd ch = n" "readCB ch = Some (HandleRead x)" using assms(2) by (simp_all add: serves_def)
  have ok: "conn_ok l x c ch" "conns (world l) x = Some c" using assms(1) by (simp_all add: idle_def conn_ok_def)
  let ?l = "l\<lparr> activeChannels := [a], eventHandling := True, currentActiveChannel := Some a \<rparr>"
  define l1 where "l1 = touch a ?ch ?l"
  have i1: "idle l1 x c ?ch"
    using assms(1) conn_ok_touch [of ?l x c ch ?ch] s(1) by (simp add: idle_def l1_def isWriting_def)
  have l1: "isInLoopThread tid l1" "reads (world l1) (fd ?ch) = map Received ss" "writes (world l1) (fd ?ch) = Takes k # ws"
      "sent (world l1) = sent (world l)"
    using assms(3,5,11) s(2) by (simp_all add: l1_def)
  obtain l2 c2 where l2: "handleRead cb tid x l1 = Inr l2" "conn_ok l2 x c2 ?ch" "same_but_world x c c2 False l1 l2"
      "sent (world l2) = (sent (world l1))(fd ?ch := sent (world l1) (fd ?ch) @ toString r [])"
      "if closeConnection r then state c2 = CDisconnecting \<and> wr_shut (world l2) = (wr_shut (world l1))(fd ?ch := True)
       else idle l2 x c2 ?ch \<and> wr_shut (world l2) = wr_shut (world l1)"
    using request_served [OF i1 l1(1,2) assms(6,7,8,9,10) l1(3) assms(13) [unfolded assms(12)], folded assms(12)] by blast
  have e: "l2 = l1\<lparr> world := world l2 \<rparr>" "conn_name c2 = conn_name c" "channel c2 = a"
    using l2(3) s(1) by (simp_all add: same_but_world_def completion_def)
  define l3 where "l3 = (touch a (ch\<lparr> rcvEvents := EPOLLIN, ch_handling := False \<rparr>) l2)\<lparr> currentActiveChannel := None, eventHandling := False \<rparr>"
  have c2: "chan l1 a = Some ?ch" "chan l2 a = Some ?ch" "conns (world l1) x = Some c"
    using l2(2) e(3) ok(2) by (simp_all add: l1_def conn_ok_def)
  have "handle_events cb tid (Some [(EPOLLIN, a)]) l = Inr l3"
    unfolding handle_one_event [OF ok(1) assms(2,4)] l1_def [symmetric]
    using c2 l2(1) s(3)
    by (simp add: rest_of_event_def dispatch_def chan_chans epoll_masks with_poller_def modify_chan_def l3_def touch_def)
  moreover have ok3: "conn_ok l3 x c2 (ch\<lparr> rcvEvents := EPOLLIN, ch_handling := False \<rparr>)"
    using conn_ok_touch [OF l2(2), of "ch\<lparr> rcvEvents := EPOLLIN, ch_handling := False \<rparr>"] e(3) by (simp add: l3_def)
  moreover have "if closeConnection r then state c2 = CDisconnecting \<and> wr_shut (world l3) n
      else idle l3 x c2 (ch\<lparr> rcvEvents := EPOLLIN, ch_handling := False \<rparr>)"
    using l2(5) ok3 s(2) by (simp add: idle_def l3_def isWriting_def split: if_splits)
  moreover have "serves x a n c2 (ch\<lparr> rcvEvents := EPOLLIN, ch_handling := False \<rparr>)"
    using assms(2) e(3) by (simp add: serves_def)
  moreover have "names l3 = names l" using same_names [OF l2(3) c2(3)] by (simp add: l3_def l1_def)
  moreover have "pendingFunctor l3 = pendingFunctor l" "threadId l3 = threadId l" "poller l2 = poller l1"
    by (simp_all add: l3_def) (simp_all add: e(1) [THEN arg_cong, of pendingFunctor] e(1) [THEN arg_cong, of threadId]
        e(1) [THEN arg_cong, of poller] l1_def)
  moreover from this(3) have "others_kept l l3 n a" "eventVec_size (poller l3) = eventVec_size (poller l)"
    by (simp_all add: l3_def others_kept_def poller_at_def chan_def) (simp_all add: l1_def touch_def)
  moreover have "sent (world l3) = (sent (world l))(n := sent (world l) n @ toString r [])"
    using l2(4) l1(4) s(2) by (simp add: l3_def)
  moreover have "\<not> eventHandling l3" by (simp add: l3_def)
  ultimately show ?thesis unfolding turn_frame_def by blast
qed


section \<open>The peer closes or hangs up\<close>

text \<open>At the end of the stream, without a hang-up, the turn leaves the connection as it is.\<close>

lemma turn_at_end:
  assumes "idle l x c ch" "serves x a n c ch" "isInLoopThread tid l" "1 < eventVec_size (poller l)"
    "reads (world l) n = map Received ss @ [r]" "peer_ends ss r" "e AND EPOLLHUP = 0"
  shows "\<exists>l' c' ch'. handle_events cb tid (Some [(e, a)]) l = Inr l' \<and> pendingFunctor l' = pendingFunctor l \<and>
    conn_ok l' x c' ch' \<and> state c' = CConnected \<and> channel c' = a \<and> fd ch' = n \<and> status ch' = CAdded \<and>
    events ch' = CReadEvent"
proof -
  let ?ch = "ch\<lparr> rcvEvents := e, ch_handling := True \<rparr>" and ?ch' = "ch\<lparr> rcvEvents := e, ch_handling := False \<rparr>"
  let ?l = "l\<lparr> activeChannels := [a], eventHandling := True, currentActiveChannel := Some a \<rparr>"
  have s: "channel c = a" "fd ch = n" "errorCB ch = Some (HandleError x)" "readCB ch = Some (HandleRead x)"
      "writeCB ch = Some (HandleWrite x)" "status ch = CAdded" "events ch = CReadEvent"
    using assms(2) by (simp_all add: serves_def)
  have i: "conn_ok l x c ch" "state c = CConnected" "\<not> isWriting ch" "conn_readIdx c = 0" "length (readBuf c) = READ_BUFFER_SIZE"
    using assms(1) by (simp_all add: idle_def)
  define l1 where "l1 = touch a ?ch ?l"
  have l1: "conn_ok l1 x c ?ch" "isInLoopThread tid l1" "\<not> isWriting ?ch" "chan l1 a = Some ?ch"
    using conn_ok_touch [of ?l x c ch ?ch] i(1,3) assms(3) s(1) by (simp_all add: l1_def isWriting_def)
  obtain l2 c2 where l2: "rest_of_event (run_bound cb tid) a l1 = Inr l2" "conn_ok l2 x c2 ?ch" "state c2 = state c"
      "channel c2 = a" "l2 = l1\<lparr> world := world l2 \<rparr>"
    using rest_is_ignored [OF l1(1-3) i(4,5), of ss r cb] assms(5,6) s(1-5) by (auto simp: l1_def)
  define l3 where "l3 = (touch a ?ch' l2)\<lparr> currentActiveChannel := None, eventHandling := False \<rparr>"
  have c2: "chan l2 a = Some ?ch" using l2(2,4) by (simp add: conn_ok_def)
  have "handle_events cb tid (Some [(e, a)]) l = Inr l3"
    unfolding handle_one_event [OF i(1) assms(2,4)] l1_def [symmetric]
    using l1(4) l2(1) c2 assms(7)
    by (simp add: dispatch_def chan_chans with_poller_def modify_chan_def l3_def touch_def)
  moreover have "conn_ok l3 x c2 ?ch'" using conn_ok_touch [OF l2(2), of ?ch'] l2(4) by (simp add: l3_def)
  moreover have "pendingFunctor l3 = pendingFunctor l"
    using arg_cong [OF l2(5), of pendingFunctor] by (simp add: l3_def l1_def)
  ultimately show ?thesis
    using l2(3,4) i(2) s(2,6,7) by (intro exI [of _ l3] exI [of _ c2] exI [of _ ?ch']) simp
qed

lemma handleClose_noting:
  "handleClose (noting cb) tid x l = bindE (handleClose (inner cb) tid x l) (\<lambda>l.
     Inr (l\<lparr> pendingFunctor := pendingFunctor l @ [RemoveConnectionInLoop x] \<rparr>))"
  by (simp add: handleClose_def noting_def inner_def call_def [abs_def] bindE_assoc)

lemma http_closes:
  assumes "conn_ok l x c ch" "handleClose (inner (http_callbacks http t)) tid x l = Inr k"
  shows "conns (world k) x = Some (c\<lparr> state := CDisconnected \<rparr>)" "reads (world k) = reads (world l)"
proof -
  let ?c = "c\<lparr> state := CDisconnected \<rparr>"
  define l1 where "l1 = l\<lparr> world := (world l)\<lparr> conns := (conns (world l))(x \<mapsto> ?c) \<rparr> \<rparr>"
  have c: "conns (world l) x = Some c" and ok: "loop_inv l1" "chan l1 (channel c) = Some ch"
    using assms(1) by (simp_all add: conn_ok_def l1_def loop_inv_def chan_def)
  have set: "setState CDisconnected x l = Inr l1" using c by (simp add: setState_def modify_conn_def l1_def)
  have tid: "threadId l1 = tid"
    using assms(2) by (auto simp: handleClose_def isInLoopThread_def l1_def elim!: bindE_InrE split: if_splits)
  obtain p where p: "change tid DisableAll (channel c) l1 = Inr (l1\<lparr> poller := p \<rparr>)"
    using change_ok [OF ok tid] by blast
  have "change_channel tid DisableAll x l1 = Inr (l1\<lparr> poller := p \<rparr>)"
    using p by (simp add: change_channel_def conn_at_def l1_def)
  then have "k = l1\<lparr> poller := p \<rparr>"
    using assms(2) set c
    by (auto simp: handleClose_def conn_at_def call_def inner_def http_callbacks_def onConnection_def isConnected_def
        l1_def elim!: bindE_InrE)
  then show "conns (world k) x = Some ?c" "reads (world k) = reads (world l)" by (simp_all add: l1_def)
qed

text \<open>A hang-up, alone or with any other events, closes the connection and asks for its removal.\<close>

lemma turn_hangs_up:
  assumes "idle l x c ch" "serves x a n c ch" "isInLoopThread tid l" "1 < eventVec_size (poller l)"
    "reads (world l) n = map Received ss @ [r]" "peer_ends ss r" "e AND EPOLLHUP \<noteq> 0"
  shows "\<exists>l' c' ch'. handle_events (noting (http_callbacks http tid)) tid (Some [(e, a)]) l = Inr l' \<and>
    pendingFunctor l' = pendingFunctor l @ [RemoveConnectionInLoop x] \<and> conn_ok l' x c' ch' \<and>
    state c' = CDisconnected \<and> channel c' = a \<and> fd ch' = n \<and> status ch' = CDeleted \<and> isNonEvent ch' \<and>
    \<not> ch_handling ch' \<and> names l' = names l \<and> threadId l' = threadId l \<and> \<not> eventHandling l' \<and> others_kept l l' n a"
proof -
  let ?cb = "http_callbacks http tid"
  let ?ch = "ch\<lparr> rcvEvents := e, ch_handling := True \<rparr>"
  let ?l = "l\<lparr> activeChannels := [a], eventHandling := True, currentActiveChannel := Some a \<rparr>"
  have s: "channel c = a" "fd ch = n" "closeCB ch = Some (HandleClose x)" "status ?ch = CAdded"
      "errorCB ch = Some (HandleError x)" "readCB ch = Some (HandleRead x)" "writeCB ch = Some (HandleWrite x)"
    using assms(2) by (simp_all add: serves_def)
  have i: "conn_ok l x c ch" "state c = CConnected \<or> state c = CConnecting" "conn_readIdx c = 0" "length (readBuf c) = READ_BUFFER_SIZE"
    using assms(1) by (simp_all add: idle_def)
  define l1 where "l1 = touch a ?ch ?l"
  have l1: "conn_ok l1 x c ?ch" "isInLoopThread tid l1" "reads (world l1) n = map Received ss @ [r]"
    using conn_ok_touch [of ?l x c ch ?ch] i(1) assms(3,5) s(1) by (simp_all add: l1_def)
  obtain f where f: "on_connection (inner ?cb) = Some f" "harmless x f" by (rule benign_connection [OF http_benign])
  have g: "on_close (inner ?cb) = Some (\<lambda>x. Inr)" "harmless x (\<lambda>x. Inr)" by (simp_all add: harmless_def)
  obtain l2 c2 ch2 where l2: "handleClose (inner ?cb) tid x l1 = Inr l2" "conn_ok l2 x c2 ch2" "isInLoopThread tid l2"
      "state c2 = CDisconnected" "channel c2 = channel c" "fd ch2 = fd ?ch" "status ch2 = CDeleted" "isNonEvent ch2"
      "others_kept l1 l2 (fd ?ch) (channel c)" "eventHandling l2 = eventHandling l1"
      "poller_at l2 (fd ?ch) = (Some (channel c), None)" "ch2 = changed DisableAll ?ch"
    by (rule handleClose_closes [OF l1(1,2) i(2) s(4) f g])
  have fr: "same_frame l1 l2" using handleClose_frame [of ?cb l1 tid x] http_benign l2(1) by simp
  have c2: "c2 = c\<lparr> state := CDisconnected \<rparr>" "reads (world l2) n = map Received ss @ [r]"
    using http_closes [OF l1(1) l2(1)] l2(2) l1(3) by (simp_all add: conn_ok_def)
  define q where "q = l2\<lparr> pendingFunctor := pendingFunctor l2 @ [RemoveConnectionInLoop x] \<rparr>"
  have q: "conn_ok q x c2 ch2" "isInLoopThread tid q" "\<not> isWriting ch2" "reads (world q) (fd ch2) = map Received ss @ [r]"
    using l2(2,3,6,8) c2(2) s(2) by (simp_all add: q_def isInLoopThread_def isWriting_def isNonEvent_def CNoneEvent_def)
  obtain l3 c3 where l3: "rest_of_event (run_bound (noting ?cb) tid) a q = Inr l3" "conn_ok l3 x c3 ch2"
      "state c3 = CDisconnected" "channel c3 = a" "l3 = q\<lparr> world := world l3 \<rparr>" "names l3 = names q"
    using rest_is_ignored [OF q(1-3) _ _ _ _ _ q(4) assms(6), of "noting ?cb"] l2(4,5) c2(1) i(3,4) s(1,5-7)
    by (auto simp: l2(12) changed_def)
  define l4 where "l4 = (touch a (ch2\<lparr> ch_handling := False \<rparr>) l3)\<lparr> currentActiveChannel := None, eventHandling := False \<rparr>"
  have at: "chan l1 a = Some ?ch" "chan l3 a = Some ch2" using l3(2,4) by (simp_all add: l1_def conn_ok_def)
  have run: "handle_events (noting ?cb) tid (Some [(e, a)]) l = Inr l4"
    unfolding handle_one_event [OF i(1) assms(2,4)] l1_def [symmetric]
    using at l2(1) l3(1) s(3) assms(7)
    by (simp add: dispatch_def chan_chans with_poller_def modify_chan_def handleClose_noting l4_def touch_def q_def [symmetric])
  have ok: "conn_ok l4 x c3 (ch2\<lparr> ch_handling := False \<rparr>)"
    using conn_ok_touch [OF l3(2), of "ch2\<lparr> ch_handling := False \<rparr>"] l3(4) by (simp add: l4_def)
  have e: "poller l3 = poller l2" "pendingFunctor l3 = pendingFunctor q" "threadId l3 = threadId l2"
    using arg_cong [OF l3(5), of poller] arg_cong [OF l3(5), of pendingFunctor] arg_cong [OF l3(5), of threadId]
    by (simp_all add: q_def)
  have "others_kept l l1 n a" by (simp add: others_kept_def l1_def)
  then have "others_kept l l2 n a" using others_kept_trans l2(9) s(1,2) by auto
  then have "others_kept l l4 n a"
    using e(1) by (simp add: others_kept_def l4_def poller_at_def chan_def) (simp add: touch_def)
  moreover have "names l4 = names l" "threadId l4 = threadId l" "pendingFunctor l2 = pendingFunctor l"
    using fr l3(6) e(3) by (simp_all add: same_frame_def l4_def l1_def q_def)
  ultimately show ?thesis
    using run ok l2(6-8) l3(3,4) s(2) e(2)
    by (intro exI [of _ l4] exI [of _ c3] exI [of _ "ch2\<lparr> ch_handling := False \<rparr>"]) (simp add: l4_def isNonEvent_def q_def)
qed

text \<open>After a \<open>shutdown\<close> the same event ends the program.\<close>

lemma turn_aborts:
  assumes "conn_ok l x c ch" "serves x a n c ch" "isInLoopThread tid l" "1 < eventVec_size (poller l)"
    "state c = CDisconnecting" "e AND EPOLLHUP \<noteq> 0"
  shows "handle_events cb tid (Some [(e, a)]) l = Inl Assert_Failed"
proof -
  let ?ch = "ch\<lparr> rcvEvents := e, ch_handling := True \<rparr>"
  let ?l = "l\<lparr> activeChannels := [a], eventHandling := True, currentActiveChannel := Some a \<rparr>"
  have s: "channel c = a" "closeCB ch = Some (HandleClose x)" using assms(2) by (simp_all add: serves_def)
  define l1 where "l1 = touch a ?ch ?l"
  have l1: "conn_ok l1 x c ?ch" "isInLoopThread tid l1" "chan l1 a = Some ?ch"
    using conn_ok_touch [of ?l x c ch ?ch] assms(1,3) s(1) by (simp_all add: l1_def)
  have "handleClose cb tid x l1 = Inl Assert_Failed"
    using l1(2) assms(5) by (simp add: handleClose_def conn_okD [OF l1(1)])
  then show ?thesis
    unfolding handle_one_event [OF assms(1,2,4)] l1_def [symmetric]
    using l1(3) s(2) assms(6) by (simp add: dispatch_def chan_chans)
qed

section \<open>Turns on the server\<close>

lemma set_loop_same: "loops s L = l \<Longrightarrow> set_loop L l s = s"
  by (cases s) (auto simp: set_loop_def)

lemma no_pending: "pendingFunctor l = [] \<Longrightarrow> l\<lparr> pendingFunctor := [] \<rparr> = l"
  by (cases l) simp

lemma io_turn_quiet:
  assumes "handle_events (noting (cbs (threadId (loops s L)))) (threadId (loops s L)) r (loops s L) = Inr l"
    "pendingFunctor l = []" "L \<noteq> base s"
  shows "io_turn cbs L r s = Inr (set_loop L (l\<lparr> callingPendingFunctor := False \<rparr>) s)"
  using assms
  by (simp add: io_turn_def on_loop_def hand_over_def run_pending_def Let_def set_loop_def fun_upd_idem base_def no_pending)

lemma io_turn_removes:
  assumes "handle_events (noting (cbs (threadId (loops s L)))) (threadId (loops s L)) r (loops s L) = Inr l"
    "pendingFunctor l = [RemoveConnectionInLoop x]" "L \<noteq> base s"
  shows "io_turn cbs L r s = Inr (set_loop (base s)
      ((loops s (base s))\<lparr> pendingFunctor := pendingFunctor (loops s (base s)) @ [RemoveConnectionInLoop x] \<rparr>)
      (set_loop L (l\<lparr> pendingFunctor := [], callingPendingFunctor := False \<rparr>) s))"
  using assms by (simp add: io_turn_def on_loop_def hand_over_def run_pending_def Let_def set_loop_def fun_upd_twist base_def)

text \<open>Requests arrive one after the other, each in any pieces, and the socket takes \<open>k\<close> characters.\<close>

fun io_session :: "(nat \<Rightarrow> callbacks) \<Rightarrow> nat \<Rightarrow> int \<Rightarrow> nat \<Rightarrow> (string list \<times> nat) list \<Rightarrow> tcp_server \<Rightarrow> tcp_server res" where
  "io_session cbs L n a [] s = Inr s"
| "io_session cbs L n a ((ss, k) # inputs) s =
     bindE (io_turn cbs L (Some [(EPOLLIN, a)]) (set_loop L (feed n ss k (loops s L)) s)) (io_session cbs L n a inputs)"

lemma idle_calling [simp]: "idle (l\<lparr> callingPendingFunctor := b \<rparr>) x c ch = idle l x c ch"
  by (simp add: idle_def)

lemma feed_simps [simp]:
  "threadId (feed n ss k l) = threadId l" "pendingFunctor (feed n ss k l) = pendingFunctor l"
  "poller (feed n ss k l) = poller l" "reads (world (feed n ss k l)) n = map Received ss"
  "writes (world (feed n ss k l)) n = [Takes k]" "sent (world (feed n ss k l)) = sent (world l)"
  "names (feed n ss k l) = names l" "idle (feed n ss k l) x c ch = idle l x c ch"
  "others_kept (feed n ss k l) l' n a = others_kept l l' n a"
  "poller_at (feed n ss k l) m = poller_at l m" "chan (feed n ss k l) b = chan l b"
  by (auto simp: feed_def names_def fun_eq_iff idle_def conn_ok_def chan_def loop_inv_def others_kept_def poller_at_def)

text \<open>A request, and how much one \<open>write\<close> takes, that gets the response \<open>r\<close> in one turn.\<close>

definition gets :: "(http_request \<Rightarrow> http_response \<Rightarrow> http_response) \<Rightarrow> string list \<times> nat \<Rightarrow> http_response \<Rightarrow> bool" where
  "gets http i r \<longleftrightarrow> (\<forall>s \<in> set (fst i). s \<noteq> []) \<and> length (concat (fst i)) < READ_BUFFER_SIZE \<and>
     (\<exists>q v. spec_request (concat (fst i)) = Inr (Some q) \<and> map_of (headers q) ''Connection'' = Some v \<and>
        r = http q (HttpResponse (wants_close q v))) \<and> length (toString r []) \<le> snd i"

lemma answerable_gets: "answerable http i r \<longleftrightarrow> gets http i r \<and> \<not> closeConnection r"
  unfolding answerable_def gets_def by blast

lemma request_turn:
  assumes "gets http (ss, k) r" "idle (loops s L) x c ch" "serves x a n c ch" "L \<noteq> base s"
    "pendingFunctor (loops s L) = []" "1 < eventVec_size (poller (loops s L))"
  shows "\<exists>l c' ch'. io_turn (http_callbacks http) L (Some [(EPOLLIN, a)]) (set_loop L (feed n ss k (loops s L)) s) =
      Inr (set_loop L l s) \<and> conn_ok l x c' ch' \<and> serves x a n c' ch' \<and>
    (if closeConnection r then state c' = CDisconnecting \<and> wr_shut (world l) n else idle l x c' ch') \<and>
    turn_frame (loops s L) l n a \<and> pendingFunctor l = [] \<and>
    sent (world l) n = sent (world (loops s L)) n @ toString r []"
proof -
  obtain q v where q: "\<forall>s \<in> set ss. s \<noteq> []" "length (concat ss) < READ_BUFFER_SIZE" "spec_request (concat ss) = Inr (Some q)"
      "map_of (headers q) ''Connection'' = Some v" "r = http q (HttpResponse (wants_close q v))" "length (toString r []) \<le> k"
    using assms(1) by (auto simp: gets_def)
  let ?l = "feed n ss k (loops s L)" and ?t = "threadId (loops s L)"
  have l: "idle ?l x c ch" "isInLoopThread ?t ?l" "1 < eventVec_size (poller ?l)" "reads (world ?l) n = map Received ss"
    "on_message (noting (http_callbacks http ?t)) = Some (onMessage http False ?t)" "writes (world ?l) n = Takes k # []"
    using assms(2,6) by (simp_all add: isInLoopThread_def noting_def http_callbacks_def)
  obtain l1 c1 ch1 where l1: "handle_events (noting (http_callbacks http ?t)) ?t (Some [(EPOLLIN, a)]) ?l = Inr l1"
      "conn_ok l1 x c1 ch1" "serves x a n c1 ch1" "turn_frame ?l l1 n a" "pendingFunctor l1 = pendingFunctor ?l"
      "if closeConnection r then state c1 = CDisconnecting \<and> wr_shut (world l1) n else idle l1 x c1 ch1"
      "sent (world l1) = (sent (world ?l))(n := sent (world ?l) n @ toString r [])"
    using turn_reads [OF l(1) assms(3) l(2-4) q(1,2) l(5) q(3,4) l(6) q(5,6)] by blast
  let ?l1 = "l1\<lparr> callingPendingFunctor := False \<rparr>"
  have "io_turn (http_callbacks http) L (Some [(EPOLLIN, a)]) (set_loop L ?l s) = Inr (set_loop L ?l1 s)"
    using io_turn_quiet [of "http_callbacks http" "set_loop L ?l s" L "Some [(EPOLLIN, a)]" l1] l1(1,5) assms(4,5) by simp
  moreover have "turn_frame (loops s L) ?l1 n a" using l1(4) by (simp add: turn_frame_def others_kept_def)
  ultimately show ?thesis
    using l1(2,3,5-7) assms(5) by (intro exI [of _ ?l1] exI [of _ c1] exI [of _ ch1]) (simp split: if_splits)
qed

lemma session_turns:
  "list_all2 (answerable http) inputs rs \<Longrightarrow> idle (loops s L) x c ch \<Longrightarrow> serves x a n c ch \<Longrightarrow>
   L \<noteq> base s \<Longrightarrow> pendingFunctor (loops s L) = [] \<Longrightarrow> 1 < eventVec_size (poller (loops s L)) \<Longrightarrow>
   \<not> eventHandling (loops s L) \<Longrightarrow>
   \<exists>l c' ch'. io_session (http_callbacks http) L n a inputs s = Inr (set_loop L l s) \<and> idle l x c' ch' \<and>
     serves x a n c' ch' \<and> turn_frame (loops s L) l n a \<and> pendingFunctor l = [] \<and>
     sent (world l) n = sent (world (loops s L)) n @ concat (map (\<lambda>r. toString r []) rs)"
proof (induction inputs rs arbitrary: s c ch rule: list_all2_induct)
  case Nil
  have "io_session (http_callbacks http) L n a [] s = Inr (set_loop L (loops s L) s)" by (simp add: set_loop_same)
  then show ?case using Nil by (intro exI [of _ "loops s L"] exI [of _ c] exI [of _ ch]) (simp add: turn_frame_def others_kept_def)
next
  case (Cons i inputs r rs)
  obtain ss k where i: "i = (ss, k)" by (cases i)
  have g: "gets http (ss, k) r" "\<not> closeConnection r" using Cons.hyps(1) i by (simp_all add: answerable_gets)
  obtain l1 c1 ch1 where l1: "io_turn (http_callbacks http) L (Some [(EPOLLIN, a)]) (set_loop L (feed n ss k (loops s L)) s) =
      Inr (set_loop L l1 s)" "serves x a n c1 ch1" "idle l1 x c1 ch1" "turn_frame (loops s L) l1 n a" "pendingFunctor l1 = []"
      "sent (world l1) n = sent (world (loops s L)) n @ toString r []"
    using request_turn [OF g(1) Cons.prems(1-5)] g(2) by auto
  obtain l2 c2 ch2 where l2: "io_session (http_callbacks http) L n a inputs (set_loop L l1 s) = Inr (set_loop L l2 (set_loop L l1 s))"
      "idle l2 x c2 ch2" "serves x a n c2 ch2" "turn_frame l1 l2 n a" "pendingFunctor l2 = []"
      "sent (world l2) n = sent (world l1) n @ concat (map (\<lambda>r. toString r []) rs)"
    using Cons.IH [of "set_loop L l1 s" c1 ch1] l1(2-5) Cons.prems(3,5) by (auto simp: turn_frame_def)
  then show ?case
    using l1(1,6) turn_frame_trans [OF l1(4) l2(4)] i by auto
qed

section \<open>A client from the accept to the removal\<close>

lemma http_establishes:
  assumes "conn_ok l x c ch" "threadId l = tid" "state c = CConnecting"
  shows "\<exists>k. connectionEstablished (inner (http_callbacks http tid)) tid x l = Inr k \<and>
    conns (world k) x = Some (c\<lparr> state := CConnected, conn_context := Some (HttpContext None 0) \<rparr>) \<and>
    chan k (channel c) = Some (changed EnableRead (tie x ch)) \<and>
    eventVec_size (poller k) = eventVec_size (poller l) \<and> sent (world k) = sent (world l)"
proof -
  let ?c = "c\<lparr> state := CConnected \<rparr>"
  define l1 where "l1 = l\<lparr> world := (world l)\<lparr> conns := (conns (world l))(x \<mapsto> ?c) \<rparr> \<rparr>"
  define l2 where "l2 = touch (channel c) (tie x ch) l1"
  have ok: "loop_inv l" "conns (world l) x = Some c" "chan l (channel c) = Some ch" using assms(1) by (simp_all add: conn_ok_def)
  have "conn_ok l1 x ?c ch" using ok by (simp add: l1_def conn_ok_def loop_inv_def chan_def)
  then have l2: "loop_inv l2" "chan l2 (channel c) = Some (tie x ch)" "threadId l2 = tid"
    using conn_ok_touch [of l1 x ?c ch "tie x ch"] assms(2) by (simp_all add: l2_def tie_def conn_ok_def l1_def)
  then obtain p where p: "change tid EnableRead (channel c) l2 = Inr (l2\<lparr> poller := p \<rparr>)"
      "chans p = (chans (poller l2))(channel c \<mapsto> changed EnableRead (tie x ch))" "eventVec_size p = eventVec_size (poller l2)"
    using change_ok by blast
  have "setState CConnected x l = Inr l1" "tie_channel x l1 = Inr l2"
    using ok by (simp_all add: setState_def modify_conn_def conn_at_def l1_def l2_def tie_channel_def with_poller_def
        modify_chan_def chan_def touch_def)
  moreover have "change_channel tid EnableRead x l2 = Inr (l2\<lparr> poller := p \<rparr>)"
    using p(1) by (simp add: change_channel_def conn_at_def l2_def l1_def)
  ultimately show ?thesis
    using assms(2,3) ok(2) p(2,3)
    by (simp add: connectionEstablished_def conn_at_def isInLoopThread_def call_def inner_def http_callbacks_def
        onConnection_def isConnected_def setContext_def modify_conn_def l2_def l1_def chan_def)
qed


lemma TcpConnection_parts:
  assumes "conn_ok (TcpConnection x a nm n rb wb l) x c ch" "channel c = a"
  shows "conn_readIdx c = 0" "readBuf c = rb" "readCB ch = Some (HandleRead x)" "closeCB ch = Some (HandleClose x)"
    "errorCB ch = Some (HandleError x)" "writeCB ch = Some (HandleWrite x)"
proof -
  have "conns (world (TcpConnection x a nm n rb wb l)) x = Some c" "chan (TcpConnection x a nm n rb wb l) a = Some ch"
    using assms by (simp_all add: conn_ok_def)
  then show "conn_readIdx c = 0" "readBuf c = rb" "readCB ch = Some (HandleRead x)" "closeCB ch = Some (HandleClose x)"
    "errorCB ch = Some (HandleError x)" "writeCB ch = Some (HandleWrite x)"
    by (auto simp: chan_def TcpConnection_def Let_def setter_defs)
qed

lemma http_opens:
  assumes "server_inv s" "on_base_thread tid s" "nextConnId s < INT_MAX"
    "accepted s = n # ns" "n > 0" "L = next_loop s" "fresh_for s L n x a" "threadId (loops s L) \<noteq> tid"
    "\<not> eventHandling (loops s L)" "pendingFunctor (loops s L) = []" "length rb = READ_BUFFER_SIZE"
  shows "\<exists>s1 s2 c ch. acceptor_handleRead (http_callbacks http) tid x a rb wb s = Inr s1 \<and>
    run_pending (http_callbacks http) L s1 = Inr s2 \<and> serving s s2 L x (connName s (nextConnId s)) n a \<and>
    idle (loops s2 L) x c ch \<and> serves x a n c ch \<and>
    eventVec_size (poller (loops s2 L)) = eventVec_size (poller (loops s L)) \<and>
    sent (world (loops s2 L)) = sent (world (loops s L))"
proof -
  let ?cbs = "http_callbacks http" and ?nm = "connName s (nextConnId s)" and ?t = "threadId (loops s L)"
  let ?l = "TcpConnection x a ?nm n rb wb (loops s L)"
  obtain s1 s2 where o: "acceptor_handleRead ?cbs tid x a rb wb s = Inr s1" "run_pending ?cbs L s1 = Inr s2"
      "serving s s2 L x ?nm n a" "loops s1 L = ?l\<lparr> pendingFunctor := [ConnectionEstablished x] \<rparr>"
    using connection_opens [OF assms(1-3) _ assms(4-10), of ?cbs rb wb] http_benign by blast
  let ?k = "(loops s1 L)\<lparr> pendingFunctor := [], callingPendingFunctor := True \<rparr>"
  have t: "threadId (loops s1 L) = ?t" "threadId ?k = ?t" by (simp_all add: o(4) TcpConnection_def Let_def)
  have L: "loop_inv (loops s L)" using assms(1,6) next_loop_in by (auto simp: server_inv_def)
  have free: "\<And>b d. chan (loops s L) b = Some d \<Longrightarrow> fd d \<noteq> n" "chan (loops s L) a = None"
    using assms(7) by (simp_all add: fresh_for_def)
  obtain c ch where c: "conn_ok ?l x c ch" "state c = CConnecting" "channel c = a" "fd ch = n"
    by (rule TcpConnection_ok [OF L _ free, where tid = ?t and x = x and nm = ?nm and rb = rb and wb = wb])
      (simp add: isInLoopThread_def)
  note new = TcpConnection_parts [OF c(1,3)]
  have "conn_ok ?k x c ch" using c(1) by (simp add: o(4))
  then obtain k where k: "connectionEstablished (inner (?cbs ?t)) ?t x ?k = Inr k"
      "conns (world k) x = Some (c\<lparr> state := CConnected, conn_context := Some (HttpContext None 0) \<rparr>)"
      "chan k a = Some (changed EnableRead (tie x ch))" "eventVec_size (poller k) = eventVec_size (poller ?k)"
      "sent (world k) = sent (world ?k)"
    using http_establishes [OF _ t(2) c(2)] c(3) by blast
  have "run_call ?cbs L (ConnectionEstablished x) (set_loop L ?k s1) = Inr (set_loop L k s1)"
    using k(1) by (simp add: on_loop_def t)
  from run_pending_one [OF _ this] have s2: "s2 = set_loop L (k\<lparr> callingPendingFunctor := False \<rparr>) s1"
    using o(2,4) by simp
  obtain c2 ch2 where e: "conn_ok (loops s2 L) x c2 ch2" "channel c2 = a" "fd ch2 = n" "status ch2 = CAdded"
      "events ch2 = CReadEvent" "\<not> ch_handling ch2"
    using o(3) by (auto simp: serving_def)
  then have e2: "c2 = c\<lparr> state := CConnected, conn_context := Some (HttpContext None 0) \<rparr>" "ch2 = changed EnableRead (tie x ch)"
    using k(2,3) by (simp_all add: conn_ok_def s2 chan_def)
  have "idle (loops s2 L) x c2 ch2" "serves x a n c2 ch2"
    using e new assms(11) by (simp_all add: idle_def serves_def isWriting_def)
      (auto simp: e2 changed_def tie_def CReadEvent_def CWriteEvent_def)
  moreover have "eventVec_size (poller (loops s2 L)) = eventVec_size (poller (loops s L))"
      "sent (world (loops s2 L)) = sent (world (loops s L))"
    using k(4,5) by (simp_all add: s2 o(4) TcpConnection_def Let_def)
  ultimately show ?thesis using o(1-3) by blast
qed


text \<open>What the socket holds when the peer has closed it or the connection is broken.\<close>

definition ending :: "int \<Rightarrow> string list \<Rightarrow> read_result \<Rightarrow> loop_state \<Rightarrow> loop_state" where
  "ending n ss r l = l\<lparr> world := (world l)\<lparr> reads := (reads (world l))(n := map Received ss @ [r]) \<rparr> \<rparr>"

lemma ending_simps [simp]:
  "threadId (ending n ss r l) = threadId l" "pendingFunctor (ending n ss r l) = pendingFunctor l"
  "poller (ending n ss r l) = poller l" "reads (world (ending n ss r l)) n = map Received ss @ [r]"
  "names (ending n ss r l) = names l" "idle (ending n ss r l) x c ch = idle l x c ch"
  "poller_at (ending n ss r l) m = poller_at l m" "chan (ending n ss r l) b = chan l b"
  "isInLoopThread t (ending n ss r l) = isInLoopThread t l"
  by (auto simp: ending_def names_def fun_eq_iff idle_def conn_ok_def chan_def loop_inv_def poller_at_def isInLoopThread_def)

lemma client_stays:
  assumes "idle (loops s L) x c ch" "serves x a n c ch" "1 < eventVec_size (poller (loops s L))"
    "pendingFunctor (loops s L) = []" "L \<noteq> base s" "peer_ends ss r" "e AND EPOLLHUP = 0"
  shows "\<exists>s' c'. io_turn cbs L (Some [(e, a)]) (set_loop L (ending n ss r (loops s L)) s) = Inr s' \<and>
    connections s' = connections s \<and> conns (world (loops s' L)) x = Some c' \<and> state c' = CConnected \<and>
    poller_at (loops s' L) n = (Some a, Some (CReadEvent, a))"
proof -
  let ?t = "threadId (loops s L)" and ?s = "set_loop L (ending n ss r (loops s L)) s"
  obtain l' c' ch' where l': "handle_events (noting (cbs ?t)) ?t (Some [(e, a)]) (ending n ss r (loops s L)) = Inr l'"
      "pendingFunctor l' = []" "conn_ok l' x c' ch'" "state c' = CConnected" "channel c' = a" "fd ch' = n"
      "status ch' = CAdded" "events ch' = CReadEvent"
    using turn_at_end [of "ending n ss r (loops s L)" x c ch a n ?t ss r e "noting (cbs ?t)"] assms
    by (auto simp: isInLoopThread_def)
  have "io_turn cbs L (Some [(e, a)]) ?s = Inr (set_loop L (l'\<lparr> callingPendingFunctor := False \<rparr>) ?s)"
    by (rule io_turn_quiet) (use l'(1,2) assms(5) in simp_all)
  moreover have "poller_at l' n = (Some a, Some (CReadEvent, a))" using watched_for_input [OF l'(3,7,8)] l'(5,6) by simp
  then have "poller_at (l'\<lparr> callingPendingFunctor := False \<rparr>) n = (Some a, Some (CReadEvent, a))" by simp
  moreover have "conns (world l') x = Some c'" using l'(3) by (simp add: conn_ok_def)
  ultimately show ?thesis
    using l'(4) by (intro exI [of _ "set_loop L (l'\<lparr> callingPendingFunctor := False \<rparr>) ?s"] exI [of _ c']) simp
qed

lemma client_leaves:
  assumes "server_inv s" "serving s s2 L x nm n a" "nm = connName s (nextConnId s)" "L \<noteq> base s"
    "names (loops s L) x = None" "x \<notin> snd ` set (connections s)" "pendingFunctor (loops s (base s)) = []"
    "idle l x c ch" "serves x a n c ch" "turn_frame (loops s2 L) l n a" "pendingFunctor l = []"
    "1 < eventVec_size (poller (loops s2 L))" "peer_ends ss r" "e AND EPOLLHUP \<noteq> 0" "cbs = http_callbacks http"
  shows "\<exists>s4 s5 s6. io_turn cbs L (Some [(e, a)]) (set_loop L (ending n ss r l) s2) = Inr s4 \<and>
    run_pending cbs (base s) s4 = Inr s5 \<and> run_pending cbs L s5 = Inr s6 \<and> connections s6 = connections s \<and>
    conns (world (loops s6 L)) x = None \<and> chan (loops s6 L) a = None \<and> poller_at (loops s6 L) n = (None, None) \<and>
    others_kept (loops s L) (loops s6 L) n a \<and> names (loops s6 L) = names (loops s L) \<and>
    pendingFunctor (loops s6 L) = [] \<and> pendingFunctor (loops s6 (base s)) = [] \<and> n \<in> open_socks s6"
proof -
  let ?B = "base s" and ?t = "threadId l" and ?l = "ending n ss r l"
  have s2: "loops s2 ?B = loops s ?B" "connections s2 = put nm x (connections s)" "base s2 = ?B" "loop_of s2 x = L"
    "n \<in> open_socks s2" "names (loops s2 L) = (names (loops s L))(x \<mapsto> nm)" "others_kept (loops s L) (loops s2 L) n a"
    using assms(2,4) by (auto simp: serving_def)
  have h: "idle ?l x c ch" "isInLoopThread ?t ?l" "1 < eventVec_size (poller ?l)" "reads (world ?l) n = map Received ss @ [r]"
    using assms(8,10,12) by (simp_all add: turn_frame_def isInLoopThread_def)
  obtain l4 c4 ch4 where u: "handle_events (noting (cbs ?t)) ?t (Some [(e, a)]) ?l = Inr l4"
      "pendingFunctor l4 = [RemoveConnectionInLoop x]" "conn_ok l4 x c4 ch4" "state c4 = CDisconnected"
      "channel c4 = a" "fd ch4 = n" "status ch4 = CDeleted" "isNonEvent ch4" "\<not> ch_handling ch4"
      "names l4 = names l" "threadId l4 = ?t" "\<not> eventHandling l4" "others_kept ?l l4 n a"
    using turn_hangs_up [OF h(1) assms(9) h(2-4) assms(13,14), of http] assms(11,15) by auto
  define s4 where "s4 = set_loop ?B ((loops s ?B)\<lparr> pendingFunctor := [RemoveConnectionInLoop x] \<rparr>)
      (set_loop L (l4\<lparr> pendingFunctor := [], callingPendingFunctor := False \<rparr>) s2)"
  have turn: "io_turn cbs L (Some [(e, a)]) (set_loop L ?l s2) = Inr s4"
    using io_turn_removes [of cbs "set_loop L ?l s2" L "Some [(e, a)]" l4 x] u(1,2) assms(4,7) s2(1,3)
    by (simp add: s4_def)
  have s4: "connections s4 = put nm x (connections s)" "base s4 = ?B" "loop_of s4 x = L" "n \<in> open_socks s4"
    "pendingFunctor (loops s4 ?B) = [RemoveConnectionInLoop x]"
    "loops s4 L = l4\<lparr> pendingFunctor := [], callingPendingFunctor := False \<rparr>"
    using assms(4) s2 by (simp_all add: s4_def)
  have "others_kept (loops s2 L) l n a" "others_kept l l4 n a"
    using u(13) assms(10) by (simp_all add: turn_frame_def others_kept_def)
  then have "others_kept (loops s L) l4 n a" using others_kept_trans s2(7) by blast
  then have "others_kept (loops s L) (loops s4 L) n a" "names (loops s4 L) = (names (loops s L))(x \<mapsto> nm)"
    using u(10) assms(10) s2(6) by (simp_all add: s4(6) others_kept_def turn_frame_def)
  then show ?thesis
    using connection_removed [OF assms(1,3) _ assms(4-6) s4(5,1-4), where c = c4 and ch = ch4 and a = a and cbs = cbs]
      u turn http_benign assms(15) by (auto simp: s4(6))
qed

lemma client_aborts:
  assumes "conn_ok (loops s L) x c ch" "serves x a n c ch" "1 < eventVec_size (poller (loops s L))"
    "state c = CDisconnecting" "e AND EPOLLHUP \<noteq> 0"
  shows "io_turn cbs L (Some [(e, a)]) s = Inl Assert_Failed"
  using turn_aborts [OF assms(1,2) _ assms(3-5), of "threadId (loops s L)"]
  by (simp add: io_turn_def on_loop_def isInLoopThread_def)

text \<open>From the accept to the state after a session of requests.\<close>

lemma client_served:
  assumes "server_inv s" "on_base_thread tid s" "nextConnId s < INT_MAX"
    "accepted s = n # ns" "n > 0" "L = next_loop s" "fresh_for s L n x a" "threadId (loops s L) \<noteq> tid"
    "\<not> eventHandling (loops s L)" "pendingFunctor (loops s L) = []" "length rb = READ_BUFFER_SIZE"
    "1 < eventVec_size (poller (loops s L))" "list_all2 (answerable http) inputs rs"
  shows "\<exists>s1 s2 l c ch. acceptor_handleRead (http_callbacks http) tid x a rb wb s = Inr s1 \<and>
    run_pending (http_callbacks http) L s1 = Inr s2 \<and>
    io_session (http_callbacks http) L n a inputs s2 = Inr (set_loop L l s2) \<and>
    serving s s2 L x (connName s (nextConnId s)) n a \<and> L \<noteq> base s \<and>
    idle l x c ch \<and> serves x a n c ch \<and> turn_frame (loops s2 L) l n a \<and> pendingFunctor l = [] \<and>
    1 < eventVec_size (poller (loops s2 L)) \<and>
    sent (world l) n = sent (world (loops s L)) n @ concat (map (\<lambda>r. toString r []) rs)"
proof -
  let ?cbs = "http_callbacks http" and ?nm = "connName s (nextConnId s)"
  obtain s1 s2 c ch where o: "acceptor_handleRead ?cbs tid x a rb wb s = Inr s1" "run_pending ?cbs L s1 = Inr s2"
      "serving s s2 L x ?nm n a" "idle (loops s2 L) x c ch" "serves x a n c ch"
      "eventVec_size (poller (loops s2 L)) = eventVec_size (poller (loops s L))"
      "sent (world (loops s2 L)) = sent (world (loops s L))"
    using http_opens [OF assms(1-11), of http wb] by blast
  have L: "L \<noteq> base s" using assms(2,8) by (auto simp: on_base_thread_def isInLoopThread_def)
  have s2: "base s2 = base s" "pendingFunctor (loops s2 L) = []" "\<not> eventHandling (loops s2 L)"
    using o(3) by (simp_all add: serving_def)
  obtain l c3 ch3 where "io_session ?cbs L n a inputs s2 = Inr (set_loop L l s2)" "idle l x c3 ch3"
      "serves x a n c3 ch3" "turn_frame (loops s2 L) l n a" "pendingFunctor l = []"
      "sent (world l) n = sent (world (loops s2 L)) n @ concat (map (\<lambda>r. toString r []) rs)"
    using session_turns [OF assms(13) o(4,5)] L s2 o(6) assms(12) by auto
  then show ?thesis using o L assms(12) by (intro exI [of _ s1] exI [of _ s2] exI [of _ l] exI [of _ c3] exI [of _ ch3]) simp
qed

text \<open>
  C1: a client of the HTTP server, in the turns the loops make. The acceptor registers the connection
  and queues it at an io loop; that loop establishes it. Then requests come, one readable event for
  each: whole, accepted by the grammar, with a \<open>Connection\<close> header, answered by a response that keeps the
  connection, which one \<open>write\<close> takes (\<open>answerable\<close>). The responses go out in their order. What happens
  at the end depends on the event. When the peer closes its side, the socket is readable with the end
  of the stream (or an error), and the turn for that (\<open>e\<close>, without \<open>EPOLLHUP\<close>) changes nothing: the
  connection stays connected, in the map and watched, for ever if nothing else happens. Only an event
  with \<open>EPOLLHUP\<close> (\<open>h\<close>, with or without any other bits, as after a reset) closes it: the base loop takes
  it out of the map and the io loop destructs it; no assertion fails, and map, loop and queues are as
  before, but the socket is still open.
\<close>

theorem client_is_served:
  assumes "server_inv s" "on_base_thread tid s" "nextConnId s < INT_MAX"
    "accepted s = n # ns" "n > 0" "L = next_loop s" "fresh_for s L n x a" "threadId (loops s L) \<noteq> tid"
    "\<not> eventHandling (loops s L)" "pendingFunctor (loops s L) = []" "length rb = READ_BUFFER_SIZE"
    "1 < eventVec_size (poller (loops s L))" "list_all2 (answerable http) inputs rs"
    "pendingFunctor (loops s (base s)) = []" "peer_ends ss r" "e AND EPOLLHUP = 0" "h AND EPOLLHUP \<noteq> 0"
  shows "\<exists>s1 s2 s3. acceptor_handleRead (http_callbacks http) tid x a rb wb s = Inr s1 \<and>
    run_pending (http_callbacks http) L s1 = Inr s2 \<and> io_session (http_callbacks http) L n a inputs s2 = Inr s3 \<and>
    sent (world (loops s3 L)) n = sent (world (loops s L)) n @ concat (map (\<lambda>r. toString r []) rs) \<and>
    map_of (connections s3) (connName s (nextConnId s)) = Some x \<and>
    (\<exists>s4 c. io_turn (http_callbacks http) L (Some [(e, a)]) (set_loop L (ending n ss r (loops s3 L)) s3) = Inr s4 \<and>
      connections s4 = connections s3 \<and> conns (world (loops s4 L)) x = Some c \<and> state c = CConnected \<and>
      poller_at (loops s4 L) n = (Some a, Some (CReadEvent, a))) \<and>
    (\<exists>s4 s5 s6. io_turn (http_callbacks http) L (Some [(h, a)]) (set_loop L (ending n ss r (loops s3 L)) s3) = Inr s4 \<and>
      run_pending (http_callbacks http) (base s) s4 = Inr s5 \<and> run_pending (http_callbacks http) L s5 = Inr s6 \<and>
      connections s6 = connections s \<and> conns (world (loops s6 L)) x = None \<and> chan (loops s6 L) a = None \<and>
      poller_at (loops s6 L) n = (None, None) \<and> (\<forall>m. m \<noteq> n \<longrightarrow> poller_at (loops s6 L) m = poller_at (loops s L) m) \<and>
      names (loops s6 L) = names (loops s L) \<and> pendingFunctor (loops s6 L) = [] \<and>
      pendingFunctor (loops s6 (base s)) = [] \<and> n \<in> open_socks s6)"
proof -
  let ?cbs = "http_callbacks http" and ?nm = "connName s (nextConnId s)"
  obtain s1 s2 l c ch where o: "acceptor_handleRead ?cbs tid x a rb wb s = Inr s1" "run_pending ?cbs L s1 = Inr s2"
      "io_session ?cbs L n a inputs s2 = Inr (set_loop L l s2)" "serving s s2 L x ?nm n a" "L \<noteq> base s"
      "idle l x c ch" "serves x a n c ch" "turn_frame (loops s2 L) l n a" "pendingFunctor l = []"
      "1 < eventVec_size (poller (loops s2 L))"
      "sent (world l) n = sent (world (loops s L)) n @ concat (map (\<lambda>r. toString r []) rs)"
    using client_served [OF assms(1-13), of wb] by blast
  let ?s3 = "set_loop L l s2"
  have same: "set_loop L (ending n ss r (loops ?s3 L)) ?s3 = set_loop L (ending n ss r l) s2" by simp
  have x: "names (loops s L) x = None" "x \<notin> snd ` set (connections s)" using assms(7) by (simp_all add: fresh_for_def)
  have v: "1 < eventVec_size (poller (loops ?s3 L))" "L \<noteq> base ?s3"
    using o(4,5,8,10) by (simp_all add: turn_frame_def serving_def)
  obtain s4 c4 where stays: "io_turn ?cbs L (Some [(e, a)]) (set_loop L (ending n ss r (loops ?s3 L)) ?s3) = Inr s4"
      "connections s4 = connections ?s3" "conns (world (loops s4 L)) x = Some c4" "state c4 = CConnected"
      "poller_at (loops s4 L) n = (Some a, Some (CReadEvent, a))"
    using client_stays [of ?s3 L x c ch a n ss r e ?cbs] o(6,7,9) v assms(15,16) by auto
  obtain s5 s6 s7 where leaves: "io_turn ?cbs L (Some [(h, a)]) (set_loop L (ending n ss r l) s2) = Inr s5"
      "run_pending ?cbs (base s) s5 = Inr s6" "run_pending ?cbs L s6 = Inr s7" "connections s7 = connections s"
      "conns (world (loops s7 L)) x = None" "chan (loops s7 L) a = None" "poller_at (loops s7 L) n = (None, None)"
      "others_kept (loops s L) (loops s7 L) n a" "names (loops s7 L) = names (loops s L)"
      "pendingFunctor (loops s7 L) = []" "pendingFunctor (loops s7 (base s)) = []" "n \<in> open_socks s7"
    using client_leaves [OF assms(1) o(4) refl o(5) x assms(14) o(6-10) assms(15,17) refl] by blast
  have "map_of (connections ?s3) ?nm = Some x" "sent (world (loops ?s3 L)) n =
      sent (world (loops s L)) n @ concat (map (\<lambda>r. toString r []) rs)"
    using o(4,11) assms(1) by (simp_all add: serving_def server_inv_def map_of_put)
  moreover have "\<forall>m. m \<noteq> n \<longrightarrow> poller_at (loops s7 L) m = poller_at (loops s L) m"
    using leaves(8) by (simp add: others_kept_def)
  ultimately show ?thesis
    using o(1-3) stays leaves(1-7,9-12) unfolding same [symmetric] by blast
qed


text \<open>
  C7: a client that asks to close brings the server down. After the same beginning, a request comes in
  one readable event whose response closes the connection (\<open>Connection: close\<close>, say). The response is
  sent and the sending side of the socket is shut down. When the peer closes as well, both directions
  are shut down and the socket reports \<open>EPOLLHUP\<close>; whatever other bits the event has and whatever there
  is to read, the turn of the loop then fails the assertion of \<open>handleClose\<close>, which does not expect the
  state \<open>CDisconnecting\<close> that \<open>shutdown\<close> has set.
\<close>

theorem closed_client_aborts:
  assumes "server_inv s" "on_base_thread tid s" "nextConnId s < INT_MAX"
    "accepted s = n # ns" "n > 0" "L = next_loop s" "fresh_for s L n x a" "threadId (loops s L) \<noteq> tid"
    "\<not> eventHandling (loops s L)" "pendingFunctor (loops s L) = []" "length rb = READ_BUFFER_SIZE"
    "1 < eventVec_size (poller (loops s L))" "list_all2 (answerable http) inputs rs"
    "gets http (ss, k) r" "closeConnection r" "h AND EPOLLHUP \<noteq> 0"
  shows "\<exists>s1 s2 s3 s4. acceptor_handleRead (http_callbacks http) tid x a rb wb s = Inr s1 \<and>
    run_pending (http_callbacks http) L s1 = Inr s2 \<and> io_session (http_callbacks http) L n a inputs s2 = Inr s3 \<and>
    io_turn (http_callbacks http) L (Some [(EPOLLIN, a)]) (set_loop L (feed n ss k (loops s3 L)) s3) = Inr s4 \<and>
    sent (world (loops s4 L)) n =
      sent (world (loops s L)) n @ concat (map (\<lambda>r. toString r []) rs) @ toString r [] \<and>
    wr_shut (world (loops s4 L)) n \<and>
    io_turn (http_callbacks http) L (Some [(h, a)]) (set_loop L (ending n us b (loops s4 L)) s4) = Inl Assert_Failed"
proof -
  let ?cbs = "http_callbacks http"
  obtain s1 s2 l c ch where o: "acceptor_handleRead ?cbs tid x a rb wb s = Inr s1" "run_pending ?cbs L s1 = Inr s2"
      "io_session ?cbs L n a inputs s2 = Inr (set_loop L l s2)" "serving s s2 L x (connName s (nextConnId s)) n a" "L \<noteq> base s"
      "idle l x c ch" "serves x a n c ch" "turn_frame (loops s2 L) l n a" "pendingFunctor l = []"
      "1 < eventVec_size (poller (loops s2 L))"
      "sent (world l) n = sent (world (loops s L)) n @ concat (map (\<lambda>r. toString r []) rs)"
    using client_served [OF assms(1-13), of wb] by blast
  let ?s3 = "set_loop L l s2"
  have v: "1 < eventVec_size (poller (loops ?s3 L))" "L \<noteq> base ?s3" "idle (loops ?s3 L) x c ch" "pendingFunctor (loops ?s3 L) = []"
    using o(4-6,8-10) by (simp_all add: turn_frame_def serving_def)
  obtain l4 c4 ch4 where t: "io_turn ?cbs L (Some [(EPOLLIN, a)]) (set_loop L (feed n ss k (loops ?s3 L)) ?s3) = Inr (set_loop L l4 ?s3)"
      "conn_ok l4 x c4 ch4" "serves x a n c4 ch4" "state c4 = CDisconnecting" "wr_shut (world l4) n" "turn_frame l l4 n a"
      "sent (world l4) n = sent (world l) n @ toString r []"
    using request_turn [OF assms(14) v(3) o(7) v(2,4,1)] assms(15) by auto
  let ?s4 = "set_loop L l4 ?s3"
  have "conn_ok (ending n us b l4) x c4 ch4" using t(2) by (simp add: conn_ok_def ending_def chan_def loop_inv_def)
  moreover have "1 < eventVec_size (poller l4)" using t(6) v(1) by (simp add: turn_frame_def)
  ultimately have "io_turn ?cbs L (Some [(h, a)]) (set_loop L (ending n us b (loops ?s4 L)) ?s4) = Inl Assert_Failed"
    using client_aborts [of "set_loop L (ending n us b (loops ?s4 L)) ?s4" L x c4 ch4 a n h ?cbs] t(3,4) assms(16) by simp
  then show ?thesis
    using o(1-3,11) t(1,5,7)
    by (intro exI [of _ s1] exI [of _ s2] exI [of _ ?s3] exI [of _ ?s4]) simp
qed

lemma demo_client:
  "base (demo_server [7]) = 0" "5 = next_loop (demo_server [7])" "fresh_for (demo_server [7]) 5 7 20 30"
  "loops (demo_server [7]) = empty_loops" "1 < eventVec_size (poller (empty_loops 5))" "sent (world (empty_loops 5)) 7 = []"
  "list_all2 (answerable demo_http) [demo_input, demo_input] [demo_kept, demo_kept]"
  by (simp_all add: base_def demo_server_def next_loop_def ring_def fresh_for_def empty_loops_ok demo_answerable
      empty_loops_def bare_loop_def EpollPoller_def CInitEventVecSize_def demo_world_def chan_def names_def)

theorem client_is_served_witness:
  "\<exists>s1 s2 s3.
    acceptor_handleRead (http_callbacks demo_http) 1 20 30 (replicate READ_BUFFER_SIZE NUL) [] (demo_server [7]) = Inr s1 \<and>
    run_pending (http_callbacks demo_http) 5 s1 = Inr s2 \<and>
    io_session (http_callbacks demo_http) 5 7 30 [demo_input, demo_input] s2 = Inr s3 \<and>
    sent (world (loops s3 5)) 7 = toString demo_kept [] @ toString demo_kept [] \<and>
    (\<exists>s4 c. io_turn (http_callbacks demo_http) 5 (Some [(EPOLLIN, 30)]) (set_loop 5 (ending 7 [] (Received []) (loops s3 5)) s3) = Inr s4 \<and>
      conns (world (loops s4 5)) 20 = Some c \<and> state c = CConnected) \<and>
    (\<exists>s4 s5 s6. io_turn (http_callbacks demo_http) 5 (Some [(EPOLLIN OR EPOLLHUP, 30)])
        (set_loop 5 (ending 7 [] (Received []) (loops s3 5)) s3) = Inr s4 \<and>
      run_pending (http_callbacks demo_http) 0 s4 = Inr s5 \<and> run_pending (http_callbacks demo_http) 5 s5 = Inr s6 \<and>
      connections s6 = [] \<and> 7 \<in> open_socks s6)"
proof -
  note d = demo_client
  have "peer_ends [] (Received [])" by (simp add: peer_ends_def breaks_off_def READ_BUFFER_SIZE_def)
  then show ?thesis
    using client_is_served [OF demo_server_ok _ _ _ d(2,3), of "[]" "replicate READ_BUFFER_SIZE NUL" demo_http
        "[demo_input, demo_input]" "[demo_kept, demo_kept]" "[]" "Received []" EPOLLIN "EPOLLIN OR EPOLLHUP" "[]"] d(5-7)
    unfolding d(1,4) by (auto simp: demo_server_parts empty_loops_ok INT_MAX_def epoll_masks)
qed

theorem closed_client_aborts_witness:
  fixes r
  defines "r \<equiv> demo_http demo_parsed (HttpResponse True)"
  shows "\<exists>s1 s2 s3 s4.
    acceptor_handleRead (http_callbacks demo_http) 1 20 30 (replicate READ_BUFFER_SIZE NUL) [] (demo_server [7]) = Inr s1 \<and>
    run_pending (http_callbacks demo_http) 5 s1 = Inr s2 \<and>
    io_session (http_callbacks demo_http) 5 7 30 [] s2 = Inr s3 \<and>
    io_turn (http_callbacks demo_http) 5 (Some [(EPOLLIN, 30)])
      (set_loop 5 (feed 7 demo_request (length (toString r [])) (loops s3 5)) s3) = Inr s4 \<and>
    sent (world (loops s4 5)) 7 = toString r [] \<and>
    io_turn (http_callbacks demo_http) 5 (Some [(EPOLLIN OR EPOLLHUP, 30)])
      (set_loop 5 (ending 7 [] (Received []) (loops s4 5)) s4) = Inl Assert_Failed"
proof -
  note d = demo_client
  have "closeConnection r"
    using default_answer_eq [of demo_parsed "\<lambda>_. None" "\<lambda>_. []" True] by (simp add: r_def demo_http_def demo_parsed_def)
  moreover have "gets demo_http (demo_request, length (toString r [])) r"
    unfolding gets_def fst_conv snd_conv using demo_request_parsed
    by (auto simp: demo_request_def READ_BUFFER_SIZE_def r_def demo_parsed_def wants_close_def)
  ultimately show ?thesis
    using closed_client_aborts [OF demo_server_ok _ _ _ d(2,3), of "[]" "replicate READ_BUFFER_SIZE NUL" demo_http
        "[]" "[]" demo_request "length (toString r [])" r "EPOLLIN OR EPOLLHUP" "[]" "[]" "Received []"] d(5,6)
    unfolding d(1,4) by (auto simp: demo_server_parts empty_loops_ok INT_MAX_def epoll_masks)
qed

end
