(* ===== verification/ServerCallbacks.thy ===== *)
theory ServerCallbacks
  imports ServerTurn
begin

text \<open>
  The callbacks of the HTTP server on the channels of an io loop. Whatever they do (read, parse, answer,
  close, fail), they leave every channel of the loop in place with its callbacks and the events it has
  received: they change only what it waits for and its status. So they meet what \<open>handleEvent\<close> asks of
  callbacks in EventLoop (\<open>keeps_slots\<close>). The lemmas follow the statements of the operations, with the
  rules for \<open>on_Inr\<close>.
\<close>

definition slots_stay :: "'f poller \<Rightarrow> 'f poller \<Rightarrow> bool" where
  "slots_stay p q \<longleftrightarrow> (\<forall>a d. chans p a = Some d \<longrightarrow> (\<exists>d'. chans q a = Some d' \<and> same_slots d d'))"

lemma same_slots_refl [simp]: "same_slots d d"
  by (simp add: same_slots_def)

lemma same_slots_trans: "same_slots c d \<Longrightarrow> same_slots d e \<Longrightarrow> same_slots c e"
  by (simp add: same_slots_def)

lemma slots_stay_same: "chans q = chans p \<Longrightarrow> slots_stay p q"
  by (auto simp: slots_stay_def)

lemma slots_stay_trans [trans]: "slots_stay p q \<Longrightarrow> slots_stay q r \<Longrightarrow> slots_stay p r"
  unfolding slots_stay_def by (meson same_slots_trans)

lemma modify_chan_slots:
  "modify_chan a g p = Inr q \<Longrightarrow> (\<And>c. same_slots c (g c)) \<Longrightarrow> slots_stay p q"
  by (auto simp: modify_chan_def bindE_eq_Inr modify_def deref_def slots_stay_def split: option.splits if_splits)

lemma update_slots: "update op a p = Inr q \<Longrightarrow> slots_stay p q"
  by (auto simp: update_def bindE_eq_Inr intro: slots_stay_same)

lemma setStatus_slots: "same_slots c (setStatus i c)" by (simp add: same_slots_def setStatus_def)

lemma updateChannel_slots: 
  assumes "updateChannel a p = Inr q" shows "slots_stay p q"
proof -
  have m: "modify_chan a (setStatus i) p1 = Inr q1 \<Longrightarrow> slots_stay p1 q1" for i p1 q1
    by (rule modify_chan_slots) (auto intro: setStatus_slots)
  have s: "slots_stay (p\<lparr> chmap := h \<rparr>) r \<Longrightarrow> slots_stay p r" for h r by (simp add: slots_stay_def)
  show ?thesis using assms unfolding updateChannel_def Let_def
    by (auto simp: bindE_eq_Inr split: if_splits dest!: m update_slots intro: s slots_stay_trans)
qed

section \<open>Operations of a connection\<close>

abbreviation slots_since :: "loop_state \<Rightarrow> loop_state \<Rightarrow> bool" where
  "slots_since l0 l \<equiv> slots_stay (poller l0) (poller l)"

lemma slots_steps:
  assumes "slots_since l0 l"
  shows "on_Inr (slots_since l0) (modify_conn x g l)" "on_Inr (slots_since l0) (setState s x l)"
    "on_Inr (slots_since l0) (setContext ctx x l)" "on_Inr (slots_since l0) (store_context ctx x l)"
    "on_Inr (slots_since l0) (handleError x l)" "slots_since l0 (queueInLoop tid f l)" "slots_since l0 (loop_handleRead l)"
    "slots_since l0 (l\<lparr> world := w \<rparr>)"
  using assms by (auto simp: on_Inr_def modify_conn_def setState_def setContext_def store_context_def handleError_def
      bindE_eq_Inr queueInLoop_def wakeup_def loop_handleRead_def Let_def split: sum.split)

lemma change_channel_slots:
  assumes "slots_since l0 l"
  shows "on_Inr (slots_since l0) (change_channel tid e x l)"
proof -
  have m: "modify_chan a (\<lambda>c. c\<lparr> events := g c \<rparr>) p1 = Inr q1 \<Longrightarrow> slots_stay p1 q1"
    "modify_chan a (\<lambda>c. c\<lparr> addToLoop := b \<rparr>) p1 = Inr q1 \<Longrightarrow> slots_stay p1 q1" for a g b and p1 q1 :: "'f poller"
    by (rule modify_chan_slots, assumption, simp add: same_slots_def)+
  show ?thesis using assms
    by (auto simp: on_Inr_def change_channel_def change_def EventLoop.channel_update_def loop_updateChannel_def with_poller_def
        bindE_eq_Inr split: sum.split dest!: m updateChannel_slots)
      (meson slots_stay_trans)
qed

lemma on_Inr_pass: "on_Inr P r \<Longrightarrow> (\<And>y. P y \<Longrightarrow> on_Inr Q (f y)) \<Longrightarrow> on_Inr Q (bindE r f)"
  by (cases r) simp_all

lemma on_Inr_any: "(\<And>y. on_Inr Q (f y)) \<Longrightarrow> on_Inr Q (bindE r f)"
  by (cases r) simp_all

lemma with_channel_slots: "(\<And>ch. on_Inr P (f ch)) \<Longrightarrow> on_Inr P (with_channel x l f)"
  by (auto simp: with_channel_def intro!: on_Inr_any)

text \<open>What is asked of the functions the server gives to a connection.\<close>

definition calls_keep :: "callbacks \<Rightarrow> bool" where
  "calls_keep cb \<longleftrightarrow> (\<forall>l0 l x b i. slots_since l0 l \<longrightarrow> on_Inr (slots_since l0) (call (on_connection cb) x l) \<and>
     on_Inr (slots_since l0) (call (on_close cb) x l) \<and>
     on_Inr (slots_since l0) (case on_message cb of None \<Rightarrow> Inl Thrown | Some f \<Rightarrow> f x b i l))"

lemma handleClose_slots:
  assumes "calls_keep cb" "slots_since l0 l"
  shows "on_Inr (slots_since l0) (handleClose cb tid x l)"
proof -
  have calls: "on_Inr (slots_since l0) (bindE (call (on_connection cb) x k) (call (on_close cb) x))"
    if "slots_since l0 k" for k
    using assms(1) that by (auto simp: calls_keep_def intro!: on_Inr_pass [of "slots_since l0"])
  have "on_Inr (slots_since l0) (bindE (setState CDisconnected x l) (\<lambda>l. bindE (change_channel tid DisableAll x l)
          (\<lambda>l. bindE (call (on_connection cb) x l) (call (on_close cb) x))))"
    by (rule on_Inr_pass [OF slots_steps(2) [OF assms(2)]], rule on_Inr_pass [OF change_channel_slots], assumption, rule calls)
  then show ?thesis unfolding handleClose_def by - (rule on_Inr_any, rule on_Inr_any, rule on_Inr_any)
qed

lemma shutdownInLoop_slots: "slots_since l0 l \<Longrightarrow> on_Inr (slots_since l0) (shutdownInLoop tid x l)"
  unfolding shutdownInLoop_def by (intro on_Inr_any with_channel_slots) simp

lemma handleRead_slots:
  assumes "calls_keep cb" "slots_since l0 l"
  shows "on_Inr (slots_since l0) (handleRead cb tid x l)"
  unfolding handleRead_def Let_def
proof (intro on_Inr_any with_channel_slots, clarsimp split: prod.split)
  fix ch :: "bound_call Channel.channel" and c e b i rs
  show "on_Inr (slots_since l0) (bindE (modify_conn x (\<lambda>c. c\<lparr> readBuf := b, conn_readIdx := i \<rparr>)
          (l\<lparr> world := (world l)\<lparr> reads := (reads (world l))(fd ch := rs) \<rparr> \<rparr>))
     (\<lambda>l. case e of Drained \<Rightarrow> bindE (case conn_context c of None \<Rightarrow> Inl Null_Deref
            | Some ctx \<Rightarrow> setContext (setBuffer b i ctx) x l) (\<lambda>l.
               case on_message cb of None \<Rightarrow> Inl Thrown | Some f \<Rightarrow> f x b i l)
         | Failed \<Rightarrow> handleError x l | Stopped \<Rightarrow> Inr l))"
    by (rule on_Inr_pass [OF slots_steps(1)], use assms(2) in simp)
      (cases e; cases "conn_context c"; auto intro!: slots_steps on_Inr_pass [OF slots_steps(3)]
        simp: assms(1) [unfolded calls_keep_def])
qed

lemma sendInLoop_slots:
  assumes "slots_since l0 l"
  shows "on_Inr (slots_since l0) (sendInLoop wc tid x data l)"
proof -
  note c = change_channel_slots [OF slots_steps(8) [OF assms]] 
  have "on_Inr (\<lambda>(n, f, l). slots_since l0 l) (with_channel x l (\<lambda>ch.
       if \<not> isWriting ch then
         let ((n, r), w) = sys_write (fd ch) data (world l); l = l\<lparr> world := w \<rparr> in
         if n < 0 then
           bindE (if r = Write_Blocks then change_channel tid EnableWrite x l else Inr l) (\<lambda>l.
             Inr (n, r = Write_Reset, l))
         else Inr (n, False, if n = int (length data) \<and> wc
                             then queueInLoop tid (WriteComplete x) l else l)
       else Inr (0, False, l)))"
    by (rule with_channel_slots) (auto simp: Let_def assms slots_steps split: prod.split intro!: on_Inr_pass [OF c])
  moreover have "on_Inr (slots_since l0) (bindE (if g then bindE (conn_at x k) (\<lambda>c. bindE (c_string data n) (\<lambda>s.
         bindE (strcpy_at (writeBuf c) (writeIdx c) s) (\<lambda>b.
         bindE (modify_conn x (\<lambda>c. c\<lparr> writeBuf := b, writeIdx := writeIdx c + nat (int (length data) - n) \<rparr>) k) (\<lambda>l.
         with_channel x l (\<lambda>ch. if \<not> isWriting ch then change_channel tid EnableWrite x l else Inr l)))))
       else Inr k) (modify_conn x h))" if k: "slots_since l0 k" for g n k h
  proof (rule on_Inr_pass [of "slots_since l0"])
    have m: "on_Inr (slots_since l0) (bindE (modify_conn x u k) (\<lambda>l.
         with_channel x l (\<lambda>ch. if \<not> isWriting ch then change_channel tid EnableWrite x l else Inr l)))" for u
      by (rule on_Inr_pass [OF slots_steps(1) [OF k]]) (auto intro!: with_channel_slots change_channel_slots)
    then show "on_Inr (slots_since l0) (if g then bindE (conn_at x k) (\<lambda>c. bindE (c_string data n) (\<lambda>s.
         bindE (strcpy_at (writeBuf c) (writeIdx c) s) (\<lambda>b.
         bindE (modify_conn x (\<lambda>c. c\<lparr> writeBuf := b, writeIdx := writeIdx c + nat (int (length data) - n) \<rparr>) k) (\<lambda>l.
         with_channel x l (\<lambda>ch. if \<not> isWriting ch then change_channel tid EnableWrite x l else Inr l)))))
       else Inr k)"
      using k by (auto intro!: on_Inr_any m)
  qed (rule slots_steps(1))
  ultimately show ?thesis unfolding sendInLoop_def Let_def
    by (intro on_Inr_any [of _ "\<lambda>_::unit. _"]; elim on_Inr_pass) auto
qed


lemma write_loop_slots:
  assumes "calls_keep cb" "slots_since l0 l"
  shows "on_Inr (slots_since l0) (write_loop cb tid x n m rs l)"
  using assms(2)
proof (induction rs arbitrary: n m l)
  case Nil
  show ?case by (subst write_loop.simps) (auto intro!: with_channel_slots on_Inr_any)
next
  case (Cons r rs)
  note IH = Cons.IH
  note w = slots_steps(8) [OF Cons.prems]
  have rest: "on_Inr (slots_since l0) (bindE (if b then shutdownInLoop tid x k else Inr k) (modify_conn x h))"
    if "slots_since l0 k" for b k h
    by (rule on_Inr_pass [of "slots_since l0"]) (auto intro: that shutdownInLoop_slots slots_steps(1))
  show ?case
    by (subst write_loop.simps)
      (auto simp: Let_def Cons.prems split: prod.split intro!: with_channel_slots on_Inr_any rest IH w slots_steps(6)
        on_Inr_pass [OF change_channel_slots [OF w]] on_Inr_pass [OF handleClose_slots [OF assms(1) w]])
qed

lemma handleWrite_slots:
  assumes "calls_keep cb" "slots_since l0 l"
  shows "on_Inr (slots_since l0) (handleWrite cb tid x l)"
  using assms unfolding handleWrite_def
  by (auto intro!: on_Inr_any with_channel_slots write_loop_slots)

section \<open>The callbacks of the server\<close>

lemma onRequest_slots:
  assumes "slots_since l0 l"
  shows "on_Inr (slots_since l0) (onRequest http wc tid x q l)"
proof -
  have queued: "on_Inr (slots_since l0) (run_or_queue tid f g k)"
    if "slots_since l0 k" "on_Inr (slots_since l0) (g k)" for f g k
    using that by (simp add: run_or_queue_def runInLoop_def slots_steps(6))
  have send: "on_Inr (slots_since l0) (send wc tid x data l)" for data
    using assms unfolding send_def by (auto intro!: on_Inr_any queued sendInLoop_slots)
  have "on_Inr (slots_since l0) (conn_shutdown tid x k)" if "slots_since l0 k" for k
    using that unfolding conn_shutdown_def
    by (auto intro!: on_Inr_any on_Inr_pass [OF slots_steps(2) [OF that]] queued shutdownInLoop_slots)
  then show ?thesis unfolding onRequest_def Let_def
    by - (rule on_Inr_any, rule on_Inr_pass [OF send], simp)
qed

lemma onMessage_slots:
  assumes "slots_since l0 l"
  shows "on_Inr (slots_since l0) (onMessage http wc tid x b i l)"
  unfolding onMessage_def
proof (rule on_Inr_any, rule on_Inr_option)
  fix c :: tcp_conn and ctx
  have "on_Inr (slots_since l0) (bindE (store_context u x l) (\<lambda>l. bindE (onRequest http wc tid x q l) (modify_conn x h)))"
    for u q h
    by (rule on_Inr_pass [OF slots_steps(4) [OF assms]], rule on_Inr_pass [OF onRequest_slots], assumption) (rule slots_steps(1))
  then show "on_Inr (slots_since l0) (bindE (parseRequest ctx) (\<lambda>(code, ctx). bindE (store_context ctx x l) (\<lambda>l.
         bindE (onRequest http wc tid x (request ctx) l)
           (modify_conn x (\<lambda>c. c\<lparr> conn_context := map_option reset_context (conn_context c) \<rparr>)))))"
    by - (rule on_Inr_any, clarsimp split: prod.split)
qed simp

lemma http_calls_keep: "calls_keep (noting (http_callbacks http tid))"
  by (auto simp: calls_keep_def noting_def http_callbacks_def call_def onConnection_def
    intro!: on_Inr_any onMessage_slots slots_steps(3))

lemma http_callbacks_keep_slots: "keeps_slots (run_bound (noting (http_callbacks http tid)) tid) a c f"
proof -
  have "on_Inr (slots_since l) (run_bound (noting (http_callbacks http tid)) tid f l)" for l
  proof -
    have "slots_since l l" by (simp add: slots_stay_same)
    then show ?thesis
      by (cases f) (simp_all add: handleRead_slots handleWrite_slots handleClose_slots http_calls_keep slots_steps)
  qed
  then have stay: "slots_stay (poller l) (poller l')" if "run_bound (noting (http_callbacks http tid)) tid f l = Inr l'" for l l'
    using that by (metis on_Inr_simps(2))
  show ?thesis unfolding keeps_slots_def chan_def
  proof (intro allI impI)
    fix k k' d
    assume a: "chans (poller k) a = Some d" "same_slots c d" "run_bound (noting (http_callbacks http tid)) tid f k = Inr k'"
    obtain d' where "chans (poller k') a = Some d'" "same_slots d d'"
      using stay [OF a(3)] a(1) by (auto simp: slots_stay_def)
    then show "\<exists>d'. chans (poller k') a = Some d' \<and> same_slots c d'" using same_slots_trans [OF a(2)] by blast
  qed
qed

end
