(* ===== verification/SocketOptions.thy ===== *)
theory SocketOptions
  imports Reactor_Prelude
begin

text \<open>
  src/Socket.h and src/Socket.cc: the wrapper of a socket, whose options are set by one system call
  each; \<open>daemon\<close> of src/CommonUtil.cc, which detaches the process; and src/Singleton.h. Of these the
  programs use only \<open>Singleton\<close>, for the object that holds the configuration.
\<close>

section \<open>Sockets\<close>

datatype sock_option = SO_REUSEPORT | SO_REUSEADDR | TCP_NODELAY | SO_KEEPALIVE

record socket_world =
  opened :: "int set"
  option_of :: "int \<Rightarrow> sock_option \<Rightarrow> int"
  shut_downs :: "(int \<times> int) list"

definition setsockopt :: "int \<Rightarrow> sock_option \<Rightarrow> bool \<Rightarrow> socket_world \<Rightarrow> socket_world" where
  "setsockopt n opt on w =
     (if n \<in> opened w then w\<lparr> option_of := (option_of w)(n := (option_of w n)(opt := (if on then 1 else 0))) \<rparr> else w)"

text \<open>The object is its constant descriptor.\<close>

definition Socket_fd :: "int \<Rightarrow> int" where
  "Socket_fd n = n"

definition getFd :: "int \<Rightarrow> int" where
  "getFd sock = sock"

definition Socket_dtor :: "int \<Rightarrow> socket_world \<Rightarrow> socket_world" where
  "Socket_dtor sock w = w\<lparr> opened := opened w - {sock} \<rparr>"

definition sock_shutdown :: "int \<Rightarrow> int \<Rightarrow> socket_world \<Rightarrow> socket_world" where
  "sock_shutdown sock how w = w\<lparr> shut_downs := shut_downs w @ [(sock, how)] \<rparr>"

definition setReusePort :: "int \<Rightarrow> bool \<Rightarrow> socket_world \<Rightarrow> socket_world" where
  "setReusePort sock on = setsockopt sock SO_REUSEPORT on"

definition setReuseAddr :: "int \<Rightarrow> bool \<Rightarrow> socket_world \<Rightarrow> socket_world" where
  "setReuseAddr sock on = setsockopt sock SO_REUSEADDR on"

definition setTcpNoDelay :: "int \<Rightarrow> bool \<Rightarrow> socket_world \<Rightarrow> socket_world" where
  "setTcpNoDelay sock on = setsockopt sock TCP_NODELAY on"

definition setKeepAlive :: "int \<Rightarrow> bool \<Rightarrow> socket_world \<Rightarrow> socket_world" where
  "setKeepAlive sock on = setsockopt sock SO_KEEPALIVE on"

text \<open>The options are independent: the last setting of each counts, in whatever order they are set.\<close>

lemma setsockopt_last:
  assumes "n \<in> opened w"
  shows "option_of (setsockopt n opt' on' (setsockopt n opt on w)) n opt =
    (if (if opt' = opt then on' else on) then 1 else 0)"
  using assms by (simp add: setsockopt_def)

lemma setsockopt_commute:
  "opt \<noteq> opt' \<Longrightarrow> setsockopt n opt' on' (setsockopt n opt on w) = setsockopt n opt on (setsockopt n opt' on' w)"
  by (simp add: setsockopt_def fun_upd_twist)

section \<open>The daemon\<close>

record process_state =
  umask :: int
  own_session :: bool
  descriptors :: "int \<Rightarrow> string option"

definition dup2 :: "int \<Rightarrow> int \<Rightarrow> process_state \<Rightarrow> process_state" where
  "dup2 m n p = p\<lparr> descriptors := (descriptors p)(n := descriptors p m) \<rparr>"

text \<open>
  \<open>pid\<close> and \<open>n\<close> are what \<open>fork\<close> and \<open>open\<close> return; the left result is the code the process exits with.
\<close>

definition daemon :: "int \<Rightarrow> int \<Rightarrow> process_state \<Rightarrow> int + process_state" where
  "daemon pid n p =
     (if pid < 0 then Inl 1
      else if pid > 0 then Inl 0
      else let p = p\<lparr> umask := 0, own_session := True \<rparr>;
               p = (if n \<noteq> - 1
                 then dup2 n 2 (dup2 n 1 (dup2 n 0 (p\<lparr> descriptors := (descriptors p)(n \<mapsto> ''/dev/null'') \<rparr>))) else p);
               p = (if n > 2 then p\<lparr> descriptors := (descriptors p)(n := None) \<rparr> else p)
           in Inr p)"

text \<open>The child's three standard descriptors lead nowhere, and no other descriptor changes.\<close>

lemma daemon_detaches:
  assumes "n \<ge> 0" "descriptors p n = None"
  shows "\<exists>p'. daemon 0 n p = Inr p' \<and> own_session p' \<and> umask p' = 0 \<and>
    descriptors p' = (\<lambda>m. if m \<in> {0, 1, 2} then Some ''/dev/null'' else descriptors p m)"
  using assms by (auto simp: daemon_def dup2_def Let_def fun_eq_iff)

section \<open>Singletons\<close>

text \<open>\<open>value_\<close> is null until \<open>pthread_once\<close> has run \<open>init\<close>; \<open>x\<close> is the object \<open>new\<close> makes.\<close>

definition singleton_init :: "'a \<Rightarrow> 'a option \<Rightarrow> 'a option" where
  "singleton_init x v = Some x"

definition singleton_instance :: "'a \<Rightarrow> bool \<times> 'a option \<Rightarrow> 'a res \<times> bool \<times> 'a option" where
  "singleton_instance x = (\<lambda>(once, v).
     let v = (if once then v else singleton_init x v)
     in (case v of None \<Rightarrow> Inl Null_Deref | Some y \<Rightarrow> Inr y, True, v))"

text \<open>Every call gives the object the first one made.\<close>

lemma singleton_same:
  "singleton_instance x (False, None) = (Inr x, True, Some x)"
  "singleton_instance y (snd (singleton_instance x (False, None))) = (Inr x, True, Some x)"
  by (simp_all add: singleton_instance_def singleton_init_def)

end
