(* ===== verification/Spec2Isabelle.thy ===== *)
theory Spec2Isabelle
  imports TimerHeap HttpConnLimits EventLoopThread ServerMain ServerV01 ServerCallbacks SocketOptions
begin

text \<open>
  A verification library for the ReactorServer repository: two HTTP servers built on epoll.

  The program of src/Main.cc has one event loop per thread. \<open>TcpServer\<close> accepts clients in the base loop
  and hands each to the next loop of a pool of threads; there a \<open>TcpConnection\<close> reads what comes,
  \<open>HttpContext\<close> parses it, and \<open>HttpServer\<close> answers through \<open>send\<close>. A \<open>Channel\<close> ties a descriptor to
  callbacks, \<open>EpollPoller\<close> keeps the kernel's interest list in step with the channels, and \<open>EventLoop\<close> runs
  the callbacks of ready channels and the functors other threads have queued. The program of v0.1 has
  one loop, the reactor, which turns every event into a job for a pool of worker threads; the jobs
  work on \<open>HttpConn\<close> objects.

  \<^bold>\<open>Conventions\<close> (Reactor_Prelude, CLib, CString, StdMap, SysCalls). Every operation that can go wrong returns
  \<open>'a res\<close>: \<open>Inl\<close> is a C++ statement with undefined behaviour, a failed assertion or an exception, so a
  theorem that gives \<open>Inr\<close> also says that none of these happens. Objects in the heap are stores from
  addresses to records, and pointers are \<open>Null\<close>, \<open>Indet\<close> or \<open>Ptr\<close>. Event masks are 32-bit words; \<open>int\<close> values
  that are counters are integers with the overflow as an error. What the system gives (the results of
  \<open>read\<close>, \<open>write\<close>, \<open>accept\<close>, \<open>stat\<close>, the events \<open>epoll_wait\<close> reports, fresh memory) is an argument or a field
  of the state. Interfaces and Transition hold the contracts between parts as locales: queues with a
  least element, first-in first-out queues, systems with an invariant and systems that terminate; the
  theory that provides the operations interprets them.

  \<^bold>\<open>Theories and sources, the server of src/Main.cc\<close>
  \<^item> TimerHeap: src/Timer.cc. The array heap refines a multiset, so timers come out sorted and \<open>tick\<close> runs
    exactly those that have expired.
  \<^item> Mutex: src/Mutex.cc, with the interleavings of any number of threads; exclusion and \<open>holder_\<close>.
  \<^item> HttpTypes, HttpRequest, HttpContext, HttpResponse: src/CommonUtil.h and the sources of these names. The
    parser on the read buffer computes what a grammar on the received characters says; requests that
    are written out are read back.
  \<^item> Channel, EpollPoller, EventLoop: the sources of these names. The invariant \<open>loop_inv\<close> ties channels,
    their status and the interest list of the kernel; every switch of a channel reaches the kernel, and
    does there what its name says except \<open>disableWrite\<close>, which stops the input; ready callbacks run in
    order, and the functors run once and in order. The locale \<open>channel_registry\<close> is what the clients of a loop rely on.
  \<^item> TcpConnection: src/TcpConnection.cc on a loop. Input is delivered completely and in order
    when the reads end in \<open>EAGAIN\<close> and leave room, and not at all otherwise; output is sent or kept; a
    connection is established, closed by its close callback and destroyed without a failed assertion.
  \<^item> HttpServer: src/HttpServer.cc. The answer to a request is on the wire, for one request
    that is read in any pieces in one readable event and for any number of such requests on a kept
    connection, when they have a \<open>Connection\<close> header and one \<open>write\<close> takes each response. The response of
    the default callback is well-formed.
  \<^item> EventLoopThread: src/Thread.cc and src/EventLoopThread.cc as two interleaved threads with a step for
    every access of a shared variable. No state is ill-formed, \<open>startLoop\<close> returns within a number of steps
    given by a measure, and the outcomes of the destructor.
  \<^item> EventLoopThreadPool, TcpServer: src/EventLoopThreadPool.cc, src/Acceptor.cc, src/TcpServer.cc. Clients go
    round the loops; the life of a connection across base loop and io loop; the destructor.
  \<^item> ServerTurn: the turns of an io loop on the server. A client from its connection over any number of
    requests to its end, driven by the events of its socket. The end of the stream alone removes nothing;
    an event with \<open>EPOLLHUP\<close> removes the connection, but fails an assertion when the last response closed it.
  \<^item> ServerCallbacks: the callbacks of the server keep the channels and their callbacks in place, which is what
    \<open>handleEvent\<close> asks of them.
  \<^item> ConfigUtil, Slog, ServerMain: src/ConfigUtil.cc, src/Slog.cc, src/Main.cc. Reading of configurations
    against a reference, the log with its locks, and the whole program up to its loop.
  \<^item> SocketOptions: src/Singleton.h, which holds the configuration, and two parts that nothing uses,
    src/Socket.cc and \<open>daemon\<close> of src/CommonUtil.cc.

  \<^bold>\<open>Theories and sources, the server of v0.1\<close>
  \<^item> JobQueue, ThreadPool: v0.1/thread_pool.cc. The linked list refines a queue; workers, producers and the
    shutdown as an interleaving relation with the invariant \<open>pool_inv\<close>: no job is lost or run twice.
  \<^item> CommonUtil, Reactor: src/CommonUtil.cc and v0.1/reactor.cc. The table of handlers and the jobs that a
    turn of \<open>event_loop\<close> makes.
  \<^item> HttpConn, HttpConnParser, HttpConnServe, HttpConnLimits: src/HttpConn.cc. The operations; the parser
    against a reference; from the readable socket to the answer; bounds, refusals and what fails.
  \<^item> ServerInit, ServerV01: v0.1/server.cc, \<open>init_server\<close> and \<open>main\<close> up to the events of a turn.

  \<^bold>\<open>Termination and fuel.\<close> No definition uses fuel. Loops over buffers, lists and arrays are recursive
  functions with measures. Two functions may not return and are partial functions with the value
  \<open>None\<close>: \<open>trim_value\<close> of HttpRequest and \<open>slog\<close> of Slog; theorems that speak of results say that they are
  \<open>Some\<close>. The endless loops of the programs (\<open>loop\<close>, \<open>event_loop\<close>, the workers) are given by their turns
  or steps: \<open>turns\<close> and \<open>event_turns\<close> run as many as there are lists of events, and the properties of
  workers and threads hold in every reachable state. The bounds of buffers are those of the source.

  \<^bold>\<open>Sizes.\<close> Indices and byte counts that the code keeps in \<open>int\<close> are natural numbers where they follow the
  size of something in memory (the heap of TimerHeap, the text of a response, the counters of the writes
  of \<open>HttpConn\<close>): objects of 2 GiB and more are outside the model. A kernel call fails where its theory
  says; failures for other causes (bad descriptors, no memory) are not.

  \<^bold>\<open>Atomicity.\<close> A region under a lock is one step, except in Mutex and EventLoopThread, where the steps are
  the single accesses. In TcpServer an operation of one thread is one step and threads interleave between
  operations.

  \<^bold>\<open>Not modelled.\<close> src/handler_io.cc, src/handler_sig.cc and src/handler_timer.cc: their whole text is inside
  comments, so the functions of v0.1 that create handlers are parameters of ServerV01. The src/T_*.cc
  files: their \<open>main\<close> functions are inside comments. test/client.cc is a client that loads a server.
  Output to the terminal, the addresses of peers, the names of threads, and in all theories but Slog the
  log lines, which do not change the state of the parts. What \<open>stat\<close> and \<open>mmap\<close> give for a path is a
  parameter.
\<close>

end
